(* ===== verification/Prelude.thy ===== *)
theory Prelude
  imports Main "HOL-Library.Word"
begin

text \<open>
  What every component shares: the machine integers of the C++ code, the exceptions its
  functions throw, actions (a state that is passed on and an exception that may end the
  call, keeping the state reached so far, as a C++ exception does), the counted loop
  \<open>for_each\<close>, and the byte lemmas of little-endian storage.
\<close>

unbundle bit_operations_syntax

section \<open>Machine integers\<close>

type_synonym u8 = "8 word"
type_synonym u16 = "16 word"
type_synonym u32 = "32 word"
type_synonym u64 = "64 word"

section \<open>Collections of the development\<close>

text \<open>
  \<open>act_simps\<close> evaluates actions, \<open>inv_simps\<close> unfolds the components' invariants and
  \<open>inv_intros\<close> holds the lemmas that operations keep them.
\<close>

named_theorems act_simps "evaluation of actions"
named_theorems inv_simps "invariants of the components"
named_theorems inv_intros "operations keep the invariants"

section \<open>Exceptions\<close>

text \<open>
  The exceptions of the simulator core: \<open>BusFaultException\<close> (memory.h),
  \<open>UndefinedInstructionException\<close> (cpu.h) and \<open>LoaderError\<close> (loader.h), and of the
  peripherals: \<open>PeripheralError\<close> and \<open>AddressError\<close> (peripheral.h), with the data
  they carry.
\<close>

datatype exn =
    BusFaultException u32
  | UndefinedInstructionException u16
  | LoaderError string
  | PeripheralError string
  | AddressError u32

text \<open>The exceptions of the processor; the loader and the peripherals raise the others.\<close>

definition cpu_exn :: "exn \<Rightarrow> bool" where
  "cpu_exn e = (case e of BusFaultException _ \<Rightarrow> True | UndefinedInstructionException _ \<Rightarrow> True | _ \<Rightarrow> False)"

section \<open>Actions: state passing with exceptions\<close>

type_synonym ('s, 'a) act = "'s \<Rightarrow> (exn + 'a) \<times> 's"

definition ret :: "'a \<Rightarrow> ('s, 'a) act" where
  "ret a = (\<lambda>s. (Inr a, s))"

definition throw :: "exn \<Rightarrow> ('s, 'a) act" where
  "throw e = (\<lambda>s. (Inl e, s))"

definition update :: "('s \<Rightarrow> 's) \<Rightarrow> ('s, unit) act" where
  "update f = (\<lambda>s. (Inr (), f s))"

definition bind_act :: "('s, 'a) act \<Rightarrow> ('a \<Rightarrow> ('s, 'b) act) \<Rightarrow> ('s, 'b) act" where
  "bind_act m f = (\<lambda>s. case m s of (Inl e, t) \<Rightarrow> (Inl e, t) | (Inr a, t) \<Rightarrow> f a t)"

definition seq_act :: "('s, unit) act \<Rightarrow> ('s, 'b) act \<Rightarrow> ('s, 'b) act" where
  "seq_act m n = bind_act m (\<lambda>_. n)"

text \<open>A counted loop \<open>for (i : is) body(i)\<close>; an exception leaves it at once.\<close>

primrec for_each :: "'b list \<Rightarrow> ('b \<Rightarrow> ('s, unit) act) \<Rightarrow> ('s, unit) act" where
  "for_each [] f = ret ()"
| "for_each (i # is) f = seq_act (f i) (for_each is f)"

lemma ret_apply [simp, act_simps]: "ret a s = (Inr a, s)"
  by (simp add: ret_def)

lemma throw_apply [simp, act_simps]: "throw e s = (Inl e, s)"
  by (simp add: throw_def)

lemma update_apply [simp, act_simps]: "update f s = (Inr (), f s)"
  by (simp add: update_def)

lemma bind_act_Inr: "m s = (Inr a, t) \<Longrightarrow> bind_act m f s = f a t"
  by (simp add: bind_act_def)

lemma bind_act_Inl: "m s = (Inl e, t) \<Longrightarrow> bind_act m f s = (Inl e, t)"
  by (simp add: bind_act_def)

lemma seq_act_Inr: "m s = (Inr a, t) \<Longrightarrow> seq_act m n s = n t"
  by (simp add: seq_act_def bind_act_def)

lemma seq_act_update [simp, act_simps]: "seq_act (update f) n s = n (f s)"
  by (simp add: seq_act_Inr)

lemma seq_act_ret [simp, act_simps]: "seq_act (ret a) n s = n s"
  by (simp add: seq_act_Inr)

text \<open>
  An action keeps \<open>P\<close> when every run of it from a state with \<open>P\<close> ends, normally or by an
  exception, in a state with \<open>P\<close>.
\<close>

definition keeps :: "('s \<Rightarrow> bool) \<Rightarrow> ('s, 'a) act \<Rightarrow> bool" where
  "keeps P m \<longleftrightarrow> (\<forall>s. P s \<longrightarrow> P (snd (m s)))"

lemma keepsD: "keeps P m \<Longrightarrow> P s \<Longrightarrow> m s = (r, t) \<Longrightarrow> P t"
  unfolding keeps_def by (metis snd_conv)

lemma keepsI: "(\<And>s. P s \<Longrightarrow> P (snd (m s))) \<Longrightarrow> keeps P m"
  by (simp add: keeps_def)

lemma keeps_ret [simp, intro]: "keeps P (ret a)"
  by (simp add: keeps_def)

lemma keeps_throw [simp, intro]: "keeps P (throw e)"
  by (simp add: keeps_def)

lemma keeps_update: "(\<And>s. P s \<Longrightarrow> P (f s)) \<Longrightarrow> keeps P (update f)"
  by (simp add: keeps_def)

lemma keeps_bind:
  assumes "keeps P m" and "\<And>a. keeps P (f a)"
  shows "keeps P (bind_act m f)"
proof (rule keepsI)
  fix s assume "P s"
  obtain r t where m: "m s = (r, t)" by (cases "m s")
  with assms(1) \<open>P s\<close> have "P t" by (auto dest: keepsD)
  with m assms(2) show "P (snd (bind_act m f s))"
    by (cases r) (auto simp: bind_act_def keeps_def)
qed

lemma keeps_seq: "keeps P m \<Longrightarrow> keeps P n \<Longrightarrow> keeps P (seq_act m n)"
  unfolding seq_act_def by (rule keeps_bind)

lemma keeps_for_each: "(\<And>i. i \<in> set is \<Longrightarrow> keeps P (f i)) \<Longrightarrow> keeps P (for_each is f)"
  by (induction "is") (auto intro: keeps_seq)

section \<open>Bytes of a word, least significant first\<close>

text \<open>
  \<open>memcpy\<close> between a word and its bytes on the little-endian host that memory.cpp assumes.
\<close>

definition byte :: "nat \<Rightarrow> 'a::len word \<Rightarrow> u8" where
  "byte k w = ucast (drop_bit (8 * k) w)"

definition join16 :: "u8 \<Rightarrow> u8 \<Rightarrow> u16" where
  "join16 b0 b1 = ucast b0 OR push_bit 8 (ucast b1)"

definition join32 :: "u8 \<Rightarrow> u8 \<Rightarrow> u8 \<Rightarrow> u8 \<Rightarrow> u32" where
  "join32 b0 b1 b2 b3 =
     ucast b0 OR push_bit 8 (ucast b1) OR push_bit 16 (ucast b2) OR push_bit 24 (ucast b3)"

lemma bit_byte: "bit (byte k w) n \<longleftrightarrow> n < 8 \<and> bit w (8 * k + n)"
  by (auto simp: byte_def bit_ucast_iff bit_drop_bit_eq)

lemma bit_join16: "bit (join16 b0 b1) n \<longleftrightarrow> n < 16 \<and> (if n < 8 then bit b0 n else bit b1 (n - 8))"
  by (auto simp: join16_def bit_simps dest: bit_imp_le_length)

lemma bit_join32:
  "bit (join32 b0 b1 b2 b3) n \<longleftrightarrow> n < 32 \<and>
     (if n < 8 then bit b0 n else if n < 16 then bit b1 (n - 8)
      else if n < 24 then bit b2 (n - 16) else bit b3 (n - 24))"
  by (auto simp: join32_def bit_simps dest: bit_imp_le_length)

lemma join16_bytes [simp]: "join16 (byte 0 w) (byte (Suc 0) w) = w"
  by (rule bit_word_eqI) (auto simp: bit_join16 bit_byte)

lemma join32_bytes [simp]: "join32 (byte 0 w) (byte (Suc 0) w) (byte 2 w) (byte 3 w) = w"
  by (rule bit_word_eqI) (auto simp: bit_join32 bit_byte)

lemma byte_join16 [simp]:
  "byte 0 (join16 b0 b1) = b0" "byte (Suc 0) (join16 b0 b1) = b1"
  by (rule bit_word_eqI; simp add: bit_join16 bit_byte)+

lemma byte_join32 [simp]:
  "byte 0 (join32 b0 b1 b2 b3) = b0" "byte (Suc 0) (join32 b0 b1 b2 b3) = b1"
  "byte 2 (join32 b0 b1 b2 b3) = b2" "byte 3 (join32 b0 b1 b2 b3) = b3"
  by (rule bit_word_eqI; simp add: bit_join32 bit_byte)+

text \<open>A character as a byte, and back.\<close>

lemma unat_of_char: "unat (of_char c :: u8) = of_char c"
proof -
  have "(of_char c :: u8) = of_nat (of_char c)" by (simp only: of_nat_of_char)
  moreover have "(of_char c :: nat) < 256" by simp
  ultimately show ?thesis by (simp only: unat_of_nat) simp
qed

lemma char_of_u8: "char_of (unat (of_char c :: u8)) = c"
  by (simp add: unat_of_char)

lemma of_char_u32: "of_char c = (ucast (of_char c :: u8) :: u32)"
proof -
  have "(of_char c :: u32) = of_nat (of_char c)" by (simp only: of_nat_of_char)
  also have "\<dots> = of_nat (unat (of_char c :: u8))" by (simp only: unat_of_char)
  also have "\<dots> = ucast (of_char c :: u8)" by (rule of_nat_unat)
  finally show ?thesis .
qed

section \<open>Words and their numbers\<close>

lemma unat_and_le: "unat (w AND m) \<le> unat m" for w :: "'a::len word"
  by (rule word_and_le1 [THEN word_le_nat_alt [THEN iffD1]])

lemma unat_and_less: "unat m < k \<Longrightarrow> unat (w AND m) < k" for w :: "'a::len word"
  using unat_and_le [of w m] by linarith

text \<open>The test of one bit of a register.\<close>

lemma test_bit_iff: "(w AND push_bit n 1 \<noteq> 0) \<longleftrightarrow> bit w n" for w :: "'a::len word"
  by (simp add: push_bit_of_1 and_exp_eq_0_iff_not_bit)

text \<open>Reduction by a modulus that is passed at most once.\<close>

lemma mod_once: "0 \<le> x \<Longrightarrow> x < 2 * m \<Longrightarrow> x mod m = (if x < m then x else x - m)" for x m :: int
proof (cases "x < m")
  case False
  assume "0 \<le> x" "x < 2 * m"
  with False have "(x - m) mod m = x - m" by (simp only: mod_pos_pos_trivial)
  with False show ?thesis by (simp only: minus_mod_self2 if_False)
qed simp

lemma div_once: "0 \<le> x \<Longrightarrow> x < 2 * m \<Longrightarrow> x div m = (if x < m then 0 else 1)" for x m :: int
proof (cases "x < m")
  case False
  assume "0 \<le> x" "x < 2 * m"
  with False show ?thesis by (simp add: div_pos_geq)
qed simp

end
