(* ===== verification/Memory.thy ===== *)
theory Memory
  imports Prelude
begin

text \<open>
  The memory bus: src/src/memory.h and src/src/memory.cpp. \<open>flat_mem\<close> is \<open>FlatMemoryBus\<close>
  (one array of 64 KiB), \<open>translate\<close> its address decoder, \<open>read8\<close> to \<open>write32\<close> and
  \<open>load\<close> its accesses. The interface \<open>IMemoryBus\<close> is the locale \<open>memory_bus\<close>: the laws
  of 32-bit storage that the block transfers of the CPU rely on.
\<close>

section \<open>The memory map\<close>

definition FLASH_SIZE :: u32 where "FLASH_SIZE = 0x8000"
definition SRAM_BASE :: u32 where "SRAM_BASE = 0x20000000"
definition SRAM_SIZE :: u32 where "SRAM_SIZE = 0x4000"
definition SIZE :: nat where "SIZE = 0x10000"

lemmas mem_map = FLASH_SIZE_def SRAM_BASE_def SRAM_SIZE_def SIZE_def

section \<open>FlatMemoryBus\<close>

text \<open>
  The array is a function on indices; the indices below \<open>SIZE\<close> are the array's, and the
  lemma \<open>translate_bound\<close> with the bound checks of the accesses shows that no others are used.
\<close>

record flat_mem =
  bytes :: "nat \<Rightarrow> u8"

definition new_flat_mem :: flat_mem where
  "new_flat_mem = \<lparr>bytes = (\<lambda>_. 0)\<rparr>"

definition clear :: "flat_mem \<Rightarrow> flat_mem" where
  "clear m = m\<lparr>bytes := (\<lambda>_. 0)\<rparr>"

definition translate :: "u32 \<Rightarrow> exn + u32" where
  "translate addr =
     (if unat addr < SIZE then Inr addr
      else if addr \<ge> SRAM_BASE \<and> addr < SRAM_BASE + SRAM_SIZE
        then Inr (FLASH_SIZE + (addr - SRAM_BASE))
      else Inl (BusFaultException addr))"

definition check_bounds :: "u32 \<Rightarrow> nat \<Rightarrow> exn + unit" where
  "check_bounds addr access_size =
     (case translate addr of
        Inl e \<Rightarrow> Inl e
      | Inr flat \<Rightarrow>
          if unat flat + access_size > SIZE then Inl (BusFaultException addr) else Inr ())"

definition read8 :: "flat_mem \<Rightarrow> u32 \<Rightarrow> exn + u8" where
  "read8 m addr =
     (case translate addr of Inl e \<Rightarrow> Inl e | Inr flat \<Rightarrow> Inr (bytes m (unat flat)))"

definition read16 :: "flat_mem \<Rightarrow> u32 \<Rightarrow> exn + u16" where
  "read16 m addr =
     (case translate addr of
        Inl e \<Rightarrow> Inl e
      | Inr flat \<Rightarrow>
          if unat flat + 2 > SIZE then Inl (BusFaultException addr)
          else Inr (join16 (bytes m (unat flat)) (bytes m (unat flat + 1))))"

definition read32 :: "flat_mem \<Rightarrow> u32 \<Rightarrow> exn + u32" where
  "read32 m addr =
     (case translate addr of
        Inl e \<Rightarrow> Inl e
      | Inr flat \<Rightarrow>
          if unat flat + 4 > SIZE then Inl (BusFaultException addr)
          else Inr (join32 (bytes m (unat flat)) (bytes m (unat flat + 1))
                           (bytes m (unat flat + 2)) (bytes m (unat flat + 3))))"

text \<open>\<open>memcpy\<close> of a list of bytes to the array, from index \<open>i\<close>.\<close>

primrec copy_bytes :: "(nat \<Rightarrow> u8) \<Rightarrow> nat \<Rightarrow> u8 list \<Rightarrow> (nat \<Rightarrow> u8)" where
  "copy_bytes d i [] = d"
| "copy_bytes d i (b # bs) = copy_bytes (d(i := b)) (Suc i) bs"

definition write8 :: "flat_mem \<Rightarrow> u32 \<Rightarrow> u8 \<Rightarrow> exn + flat_mem" where
  "write8 m addr val =
     (case translate addr of
        Inl e \<Rightarrow> Inl e
      | Inr flat \<Rightarrow> Inr (m\<lparr>bytes := (bytes m)(unat flat := val)\<rparr>))"

definition write16 :: "flat_mem \<Rightarrow> u32 \<Rightarrow> u16 \<Rightarrow> exn + flat_mem" where
  "write16 m addr val =
     (case translate addr of
        Inl e \<Rightarrow> Inl e
      | Inr flat \<Rightarrow>
          if unat flat + 2 > SIZE then Inl (BusFaultException addr)
          else Inr (m\<lparr>bytes := copy_bytes (bytes m) (unat flat) [byte 0 val, byte 1 val]\<rparr>))"

definition write32 :: "flat_mem \<Rightarrow> u32 \<Rightarrow> u32 \<Rightarrow> exn + flat_mem" where
  "write32 m addr val =
     (case translate addr of
        Inl e \<Rightarrow> Inl e
      | Inr flat \<Rightarrow>
          if unat flat + 4 > SIZE then Inl (BusFaultException addr)
          else Inr (m\<lparr>bytes := copy_bytes (bytes m) (unat flat)
                                 [byte 0 val, byte 1 val, byte 2 val, byte 3 val]\<rparr>))"

definition load :: "flat_mem \<Rightarrow> u32 \<Rightarrow> u8 list \<Rightarrow> exn + flat_mem" where
  "load m addr src =
     (case translate addr of
        Inl e \<Rightarrow> Inl e
      | Inr flat \<Rightarrow>
          if unat flat + length src > SIZE then Inl (BusFaultException addr)
          else Inr (m\<lparr>bytes := copy_bytes (bytes m) (unat flat) src\<rparr>))"

definition flash_region :: "flat_mem \<Rightarrow> u8 list" where
  "flash_region m = map (bytes m) [0 ..< unat FLASH_SIZE]"

definition sram_region :: "flat_mem \<Rightarrow> u8 list" where
  "sram_region m = map (bytes m) [unat FLASH_SIZE ..< unat FLASH_SIZE + unat SRAM_SIZE]"

section \<open>The array and the decoder\<close>

lemma copy_bytes_apply:
  "copy_bytes d i bs k = (if i \<le> k \<and> k < i + length bs then bs ! (k - i) else d k)"
proof (induction bs arbitrary: d i)
  case Nil
  show ?case by auto
next
  case (Cons b bs)
  show ?case
    by (auto simp: Cons.IH nth_Cons' Suc_diff_Suc not_less_eq_eq)
qed

text \<open>The index that an address stands for: the value of \<open>translate\<close> as a number.\<close>

definition flat_index :: "u32 \<Rightarrow> nat option" where
  "flat_index addr = (case translate addr of Inl _ \<Rightarrow> None | Inr flat \<Rightarrow> Some (unat flat))"

lemma translate_cases:
  obtains (flat) "unat addr < SIZE" "translate addr = Inr addr"
  | (sram) "addr \<ge> SRAM_BASE" "addr < SRAM_BASE + SRAM_SIZE" "unat addr \<ge> SIZE"
      "translate addr = Inr (FLASH_SIZE + (addr - SRAM_BASE))"
  | (unmapped) "translate addr = Inl (BusFaultException addr)"
  unfolding translate_def by (cases "unat addr < SIZE"; simp; metis)

lemma sram_flat:
  assumes "addr \<ge> SRAM_BASE" "addr < SRAM_BASE + SRAM_SIZE"
  shows "unat (FLASH_SIZE + (addr - SRAM_BASE)) = 0x8000 + (unat addr - 0x20000000)"
  using assms unfolding mem_map by unat_arith

lemma translate_bound: "translate addr = Inr flat \<Longrightarrow> unat flat < SIZE"
proof (cases addr rule: translate_cases)
  case sram
  then have "unat addr < 0x20004000" by (simp add: mem_map word_less_nat_alt)
  moreover assume "translate addr = Inr flat"
  ultimately show ?thesis using sram by (auto simp: sram_flat SIZE_def)
qed auto

lemma translate_Inl: "translate addr = Inl e \<Longrightarrow> e = BusFaultException addr"
  by (cases addr rule: translate_cases) auto

lemma flat_index_iff:
  "flat_index a = Some i \<longleftrightarrow>
     (unat a < SIZE \<and> i = unat a) \<or>
     (0x20000000 \<le> unat a \<and> unat a < 0x20004000 \<and> i = 0x8000 + (unat a - 0x20000000))"
proof (cases a rule: translate_cases)
  case flat
  then show ?thesis by (auto simp: flat_index_def SIZE_def)
next
  case sram
  then show ?thesis
    using sram_flat [OF sram(1,2)]
    by (auto simp: flat_index_def word_le_nat_alt word_less_nat_alt SRAM_BASE_def SRAM_SIZE_def
        SIZE_def)
next
  case unmapped
  then have "\<not> unat a < SIZE" "\<not> (a \<ge> SRAM_BASE \<and> a < SRAM_BASE + SRAM_SIZE)"
    by (auto simp: translate_def split: if_splits)
  with unmapped show ?thesis
    by (auto simp: flat_index_def word_le_nat_alt word_less_nat_alt mem_map)
qed

section \<open>The laws of 32-bit storage\<close>

text \<open>
  \<open>ok32 a\<close>: a 32-bit access at \<open>a\<close> stays inside the array. \<open>apart32 a b\<close>: the words at the
  two addresses share no byte of the array.
\<close>

definition ok32 :: "u32 \<Rightarrow> bool" where
  "ok32 addr = (case flat_index addr of None \<Rightarrow> False | Some i \<Rightarrow> i + 4 \<le> SIZE)"

definition apart32 :: "u32 \<Rightarrow> u32 \<Rightarrow> bool" where
  "apart32 a b = (case (flat_index a, flat_index b) of
     (Some i, Some j) \<Rightarrow> i + 4 \<le> j \<or> j + 4 \<le> i
   | _ \<Rightarrow> True)"

lemma read32_ok: "ok32 a \<Longrightarrow> \<exists>v. read32 m a = Inr v"
  by (auto simp: read32_def ok32_def flat_index_def split: sum.splits)

lemma read32_bad: "\<not> ok32 a \<Longrightarrow> read32 m a = Inl (BusFaultException a)"
  by (auto simp: read32_def ok32_def flat_index_def dest: translate_Inl split: sum.splits)

lemma write32_ok: "ok32 a \<Longrightarrow> \<exists>m'. write32 m a v = Inr m'"
  by (auto simp: write32_def ok32_def flat_index_def split: sum.splits)

lemma write32_bad: "\<not> ok32 a \<Longrightarrow> write32 m a v = Inl (BusFaultException a)"
  by (auto simp: write32_def ok32_def flat_index_def dest: translate_Inl split: sum.splits)

lemma read32_write32: "write32 m a v = Inr m' \<Longrightarrow> read32 m' a = Inr v"
  by (auto simp: write32_def read32_def copy_bytes_apply split: sum.splits if_splits)

lemma read32_write32_apart:
  "write32 m a v = Inr m' \<Longrightarrow> apart32 a b \<Longrightarrow> read32 m' b = read32 m b"
  by (auto simp: write32_def read32_def apart32_def flat_index_def copy_bytes_apply
      split: sum.splits if_splits)

lemma apart32_sym: "apart32 a b = apart32 b a"
  by (auto simp: apart32_def split: option.splits)

text \<open>
  The interface the CPU's block transfers use. \<open>store_all\<close> is a run of writes in order,
  stopping at the first fault.
\<close>

primrec store_all ::
  "('m \<Rightarrow> u32 \<Rightarrow> u32 \<Rightarrow> exn + 'm) \<Rightarrow> 'm \<Rightarrow> (u32 \<times> u32) list \<Rightarrow> exn + 'm" where
  "store_all wr m [] = Inr m"
| "store_all wr m (x # xs) =
     (case wr m (fst x) (snd x) of Inl e \<Rightarrow> Inl e | Inr m' \<Rightarrow> store_all wr m' xs)"

locale memory_bus =
  fixes rd :: "'m \<Rightarrow> u32 \<Rightarrow> exn + u32"
    and wr :: "'m \<Rightarrow> u32 \<Rightarrow> u32 \<Rightarrow> exn + 'm"
    and ok :: "u32 \<Rightarrow> bool"
    and apart :: "u32 \<Rightarrow> u32 \<Rightarrow> bool"
  assumes rd_ok: "ok a \<Longrightarrow> \<exists>v. rd m a = Inr v"
    and wr_ok: "ok a \<Longrightarrow> \<exists>m'. wr m a v = Inr m'"
    and wr_bad: "\<not> ok a \<Longrightarrow> wr m a v = Inl (BusFaultException a)"
    and rd_wr: "wr m a v = Inr m' \<Longrightarrow> rd m' a = Inr v"
    and rd_wr_apart: "wr m a v = Inr m' \<Longrightarrow> apart a b \<Longrightarrow> rd m' b = rd m b"
    and apart_sym: "apart a b = apart b a"
begin

lemma store_all_ok: "\<forall>x \<in> set xs. ok (fst x) \<Longrightarrow> \<exists>m'. store_all wr m xs = Inr m'"
proof (induction xs arbitrary: m)
  case (Cons x xs)
  then obtain m1 where "wr m (fst x) (snd x) = Inr m1"
    using wr_ok [of "fst x" m "snd x"] by auto
  with Cons show ?case by simp
qed simp

lemma rd_store_all_apart:
  "store_all wr m xs = Inr m' \<Longrightarrow> \<forall>x \<in> set xs. apart (fst x) b \<Longrightarrow> rd m' b = rd m b"
  by (induction xs arbitrary: m) (auto simp: rd_wr_apart split: sum.splits)

lemma rd_store_all:
  assumes "store_all wr m xs = Inr m'" "sorted_wrt (\<lambda>x y. apart (fst x) (fst y)) xs"
    and "x \<in> set xs"
  shows "rd m' (fst x) = Inr (snd x)"
  using assms
proof (induction xs arbitrary: m)
  case (Cons y ys)
  then obtain m1 where m1: "wr m (fst y) (snd y) = Inr m1" "store_all wr m1 ys = Inr m'"
    by (auto split: sum.splits)
  show ?case
  proof (cases "x \<in> set ys")
    case True
    with Cons m1 show ?thesis by auto
  next
    case False
    with Cons have "x = y" by simp
    moreover have "\<forall>z \<in> set ys. apart (fst z) (fst y)"
      using Cons.prems(2) by (auto simp: apart_sym)
    ultimately show ?thesis
      using m1 rd_store_all_apart [OF m1(2)] rd_wr [OF m1(1)] by simp
  qed
qed simp

end

interpretation flat: memory_bus read32 write32 ok32 apart32
  by unfold_locales
    (auto intro: read32_ok write32_ok write32_bad read32_write32 read32_write32_apart
      simp: apart32_sym)

lemma unat_u32: "unat a < 4294967296" for a :: u32
  using unsigned_less [where w = a and 'a = nat] by simp

text \<open>Words at a distance of 4 to 4096 bytes do not overlap, whatever windows they are in.\<close>

lemma apart32_near:
  assumes "1 \<le> k" "k \<le> 1024"
  shows "apart32 a (a - of_nat (4 * k))"
proof -
  let ?b = "a - of_nat (4 * k)"
  have k: "unat (of_nat (4 * k) :: u32) = 4 * k"
    using assms by (simp add: unat_of_nat del: of_nat_mult)
  have "unat ?b + 4 * k = unat a \<or> unat ?b + 4 * k = unat a + 4294967296"
    using unat_sub_if' [of a "of_nat (4 * k)"] unat_u32 [of a] assms(2) unfolding k by (auto split: if_splits)
  then show ?thesis
    using assms unat_u32 [of a] unat_u32 [of ?b]
    by (auto simp: apart32_def flat_index_iff SIZE_def split: option.splits)
qed

section \<open>Properties\<close>

text \<open>The address decoder is exact: an address is mapped iff it lies in the flat 64 KiB
  window or in the 16 KiB SRAM window, and then it stands for one index below 64 Ki.\<close>

theorem decoder_exact:
  "flat_index a = Some i \<longleftrightarrow>
     (unat a < SIZE \<and> i = unat a) \<or>
     (0x20000000 \<le> unat a \<and> unat a < 0x20004000 \<and> i = 0x8000 + (unat a - 0x20000000))"
  by (rule flat_index_iff)

text \<open>Word storage: a 32-bit write that succeeds is read back, leaves every word that
  shares no byte with it as it was, and a read of the same address succeeds exactly when
  the write does; an access that leaves the array faults with the address accessed.\<close>

theorem word_storage:
  "(case write32 m a v of
      Inr m' \<Rightarrow> read32 m' a = Inr v \<and> (\<forall>b. apart32 a b \<longrightarrow> read32 m' b = read32 m b)
    | Inl e \<Rightarrow> e = BusFaultException a \<and> read32 m a = Inl e)"
proof (cases "ok32 a")
  case True
  then obtain m' where "write32 m a v = Inr m'" using write32_ok by blast
  then show ?thesis by (simp add: read32_write32 read32_write32_apart)
next
  case False
  then show ?thesis by (simp add: write32_bad read32_bad)
qed

theorem word_storage_witness:
  "apart32 0x100 0x20000004 \<and>
   (case write32 new_flat_mem 0x100 7 of
      Inr m' \<Rightarrow> read32 m' 0x100 = Inr 7 \<and> read32 m' 0x20000004 = read32 new_flat_mem 0x20000004
    | Inl e \<Rightarrow> False)"
proof -
  have "apart32 0x100 0x20000004"
    by (simp add: apart32_def flat_index_def translate_def mem_map)
  moreover have "\<exists>m'. write32 new_flat_mem 0x100 7 = Inr m'"
    by (simp add: write32_def translate_def mem_map)
  ultimately show ?thesis
    using word_storage [where m = new_flat_mem and a = "0x100" and v = 7] by (auto split: sum.splits)
qed

text \<open>\<open>load\<close> puts the bytes of the image at consecutive indices from the load address and
  changes nothing else, through whichever address a byte is read; it fails, with nothing
  written, exactly when the load address is unmapped or the image would not fit.\<close>

theorem load_places_image:
  "(case load m a src of
      Inl e \<Rightarrow> e = BusFaultException a \<and>
        (case flat_index a of None \<Rightarrow> True | Some i \<Rightarrow> i + length src > SIZE)
    | Inr m' \<Rightarrow> (\<exists>i. flat_index a = Some i \<and> i + length src \<le> SIZE \<and>
        (\<forall>b. read8 m' b = (case flat_index b of
            None \<Rightarrow> Inl (BusFaultException b)
          | Some j \<Rightarrow> Inr (if i \<le> j \<and> j < i + length src then src ! (j - i) else bytes m j)))))"
proof (cases "translate a")
  case (Inl e)
  then show ?thesis by (auto simp: load_def flat_index_def dest: translate_Inl)
next
  case (Inr flat)
  then show ?thesis
    by (auto simp: load_def flat_index_def read8_def copy_bytes_apply dest: translate_Inl
        split: sum.splits)
qed

text \<open>The SRAM window is an alias of the 16 KiB after the flash in the flat window: every
  access through one address is the access through the other, in all widths.\<close>

theorem sram_alias:
  fixes k :: u32
  assumes "unat k + 4 \<le> 0x4000"
  shows "read8 m (SRAM_BASE + k) = read8 m (FLASH_SIZE + k) \<and>
    read16 m (SRAM_BASE + k) = read16 m (FLASH_SIZE + k) \<and>
    read32 m (SRAM_BASE + k) = read32 m (FLASH_SIZE + k) \<and>
    write8 m (SRAM_BASE + k) b = write8 m (FLASH_SIZE + k) b \<and>
    write16 m (SRAM_BASE + k) h = write16 m (FLASH_SIZE + k) h \<and>
    write32 m (SRAM_BASE + k) w = write32 m (FLASH_SIZE + k) w"
proof -
  have k: "unat k < 0x4000" using assms by simp
  have b: "unat (SRAM_BASE + k) = 0x20000000 + unat k" "unat (FLASH_SIZE + k) = 0x8000 + unat k"
    using k unfolding mem_map by (unat_arith; simp)+
  have t: "translate (SRAM_BASE + k) = Inr (FLASH_SIZE + k)"
    "translate (FLASH_SIZE + k) = Inr (FLASH_SIZE + k)"
    using k b by (auto simp: translate_def mem_map word_le_nat_alt word_less_nat_alt)
  show ?thesis
    using assms b by (simp add: t read8_def read16_def read32_def write8_def write16_def
        write32_def SIZE_def)
qed

theorem sram_alias_witness:
  "unat (0x100 :: u32) + 4 \<le> 0x4000 \<and>
   read32 new_flat_mem (SRAM_BASE + 0x100) = read32 new_flat_mem (FLASH_SIZE + 0x100)"
  using sram_alias [where k = "0x100" and m = new_flat_mem] by simp

text \<open>A word access that starts in the last bytes of the SRAM window is not refused although
  the address of its last byte is unmapped: \<open>read32\<close> at 0x20003FFE succeeds for every memory,
  \<open>read8\<close> at 0x20004000 always faults. The access is also misaligned, which no check rejects.\<close>

theorem word_access_leaves_sram:
  "read32 m 0x20003FFE =
     Inr (join32 (bytes m 0xBFFE) (bytes m 0xBFFF) (bytes m 0xC000) (bytes m 0xC001)) \<and>
   read8 m 0x20004000 = Inl (BusFaultException 0x20004000)"
  by (simp add: read32_def read8_def translate_def mem_map)

end
