(* ===== verification/Cpu.thy ===== *)
theory Cpu
  imports Memory
begin

text \<open>
  The processor: src/src/cpu.h and src/src/cpu.cpp. \<open>machine\<close> is a \<open>CortexM0\<close> together with
  the memory it refers to, \<open>execute\<close> the decoder and \<open>exec_...\<close> the instruction groups, each
  an action: a fault in the middle of an instruction leaves the registers, the flags and the
  memory as they were changed up to it, as the C++ exception does.
\<close>

section \<open>State\<close>

record APSR =
  N :: bool
  Z :: bool
  C :: bool
  V :: bool

text \<open>
  \<open>regs\<close> is the array \<open>regs_\<close>, used at indices below 16 only. \<open>trace_cb\<close> is \<open>None\<close> for the
  null callback, else the calls made to it so far, newest last.
\<close>

record machine =
  regs :: "nat \<Rightarrow> u32"
  apsr :: APSR
  cycles :: u64
  mem :: flat_mem
  trace_cb :: "(u32 \<times> u16) list option"
  halted :: bool
  bl_offset :: u32

definition update_nz :: "u32 \<Rightarrow> APSR \<Rightarrow> APSR" where
  "update_nz result f = f\<lparr>N := drop_bit 31 result AND 1 \<noteq> 0, Z := result = 0\<rparr>"

definition RESET_SP :: u32 where "RESET_SP = 0x2000"
definition RESET_PC :: u32 where "RESET_PC = 0x0001"
definition SP :: nat where "SP = 13"
definition LR :: nat where "LR = 14"
definition PC :: nat where "PC = 15"

lemmas reg_index = SP_def LR_def PC_def

definition reset :: "machine \<Rightarrow> machine" where
  "reset s = s\<lparr>regs := (\<lambda>_. 0)(SP := RESET_SP, PC := RESET_PC AND NOT 1),
               apsr := \<lparr>N = False, Z = False, C = False, V = False\<rparr>,
               cycles := 0, halted := False, bl_offset := 0\<rparr>"

definition new_machine :: "flat_mem \<Rightarrow> machine" where
  "new_machine m =
     reset \<lparr>regs = (\<lambda>_. 0), apsr = \<lparr>N = False, Z = False, C = False, V = False\<rparr>, cycles = 0,
            mem = m, trace_cb = None, halted = False, bl_offset = 0\<rparr>"

definition reg :: "machine \<Rightarrow> nat \<Rightarrow> u32" where
  "reg s r = regs s r"

definition set_reg :: "nat \<Rightarrow> u32 \<Rightarrow> machine \<Rightarrow> machine" where
  "set_reg r v s = s\<lparr>regs := (regs s)(r := v)\<rparr>"

definition pc :: "machine \<Rightarrow> u32" where "pc s = regs s 15"
definition sp :: "machine \<Rightarrow> u32" where "sp s = regs s 13"

definition set_pc :: "u32 \<Rightarrow> machine \<Rightarrow> machine" where
  "set_pc v s = s\<lparr>regs := (regs s)(15 := v AND NOT 1)\<rparr>"

definition set_sp :: "u32 \<Rightarrow> machine \<Rightarrow> machine" where
  "set_sp v s = s\<lparr>regs := (regs s)(13 := v)\<rparr>"

definition advance_pc :: "machine \<Rightarrow> machine" where
  "advance_pc s = s\<lparr>regs := (regs s)(15 := regs s 15 + 2)\<rparr>"

definition set_trace :: "machine \<Rightarrow> machine" where
  "set_trace s = s\<lparr>trace_cb := Some []\<rparr>"

text \<open>Memory accesses as actions of the machine.\<close>

definition mem_read :: "(flat_mem \<Rightarrow> u32 \<Rightarrow> exn + 'a) \<Rightarrow> u32 \<Rightarrow> (machine, 'a) act" where
  "mem_read rd addr = (\<lambda>s. (rd (mem s) addr, s))"

definition mem_write ::
  "(flat_mem \<Rightarrow> u32 \<Rightarrow> 'a \<Rightarrow> exn + flat_mem) \<Rightarrow> u32 \<Rightarrow> 'a \<Rightarrow> (machine, unit) act" where
  "mem_write wr addr v =
     (\<lambda>s. case wr (mem s) addr v of Inl e \<Rightarrow> (Inl e, s) | Inr m \<Rightarrow> (Inr (), s\<lparr>mem := m\<rparr>))"

text \<open>An action that depends on the state it starts in.\<close>

definition with_state :: "('s \<Rightarrow> ('s, 'a) act) \<Rightarrow> ('s, 'a) act" where
  "with_state f = (\<lambda>s. f s s)"

lemma with_state_apply [simp, act_simps]: "with_state f s = f s s"
  by (simp add: with_state_def)

section \<open>Arithmetic helpers\<close>

definition add32 :: "u32 \<Rightarrow> u32 \<Rightarrow> bool \<Rightarrow> u32 \<times> bool" where
  "add32 a b cin =
     (let res64 = (ucast a :: u64) + ucast b + (if cin then 1 else 0)
      in (ucast res64, drop_bit 32 res64 \<noteq> 0))"

definition sub32 :: "u32 \<Rightarrow> u32 \<Rightarrow> u32 \<times> bool" where
  "sub32 a b = add32 a (NOT b) True"

text \<open>\<open>cond & 0xF\<close> is the remainder by 16.\<close>

definition condition_passes :: "nat \<Rightarrow> APSR \<Rightarrow> bool" where
  "condition_passes cond f =
     (let c = cond mod 16
      in if c = 0x0 then Z f
         else if c = 0x1 then \<not> Z f
         else if c = 0x2 then C f
         else if c = 0x3 then \<not> C f
         else if c = 0x4 then N f
         else if c = 0x5 then \<not> N f
         else if c = 0x6 then V f
         else if c = 0x7 then \<not> V f
         else if c = 0x8 then C f \<and> \<not> Z f
         else if c = 0x9 then \<not> C f \<or> Z f
         else if c = 0xA then N f = V f
         else if c = 0xB then N f \<noteq> V f
         else if c = 0xC then \<not> Z f \<and> N f = V f
         else if c = 0xD then Z f \<or> N f \<noteq> V f
         else if c = 0xE then True
         else False)"

text \<open>
  The field \<open>(instr >> s) & m\<close> of an instruction, as the small number the code uses it as,
  and one bit of it.
\<close>

definition field :: "u16 \<Rightarrow> nat \<Rightarrow> u16 \<Rightarrow> nat" where
  "field instr s m = unat (drop_bit s instr AND m)"

definition flag :: "u16 \<Rightarrow> nat \<Rightarrow> bool" where
  "flag instr s = (drop_bit s instr AND 1 \<noteq> 0)"

text \<open>Bit 31 of a word, \<open>(w >> MSB_POS) & 1\<close>.\<close>

definition MSB_POS :: nat where "MSB_POS = 31"

definition top_bit :: "u32 \<Rightarrow> bool" where
  "top_bit w = (drop_bit MSB_POS w AND 1 \<noteq> 0)"

section \<open>Fetch\<close>

definition fetch :: "(machine, u16) act" where
  "fetch = with_state (\<lambda>s.
     let addr = pc s in
     bind_act (mem_read read16 addr) (\<lambda>instr.
     seq_act (update advance_pc) (ret instr)))"

section \<open>Formats 1 to 3: immediate shifts, add and subtract, 8-bit immediates\<close>

definition exec_shift_imm :: "u16 \<Rightarrow> (machine, unit) act" where
  "exec_shift_imm instr = with_state (\<lambda>s.
     let op = field instr 11 0x3; imm5 = field instr 6 0x1F;
         rs = field instr 3 0x7; rd = field instr 0 0x7; val = regs s rs;
         finish = (\<lambda>c result. update (\<lambda>s.
           s\<lparr>apsr := update_nz result ((apsr s)\<lparr>C := c\<rparr>), regs := (regs s)(rd := result)\<rparr>))
     in if op = 0 then
          (if imm5 = 0 then finish (C (apsr s)) val
           else finish (drop_bit (32 - imm5) val AND 1 \<noteq> 0) (push_bit imm5 val))
        else if op = 1 then
          (if imm5 = 0 then finish (top_bit val) 0
           else finish (drop_bit (imm5 - 1) val AND 1 \<noteq> 0) (drop_bit imm5 val))
        else if op = 2 then
          (if imm5 = 0 then finish (top_bit val) (signed_drop_bit MSB_POS val)
           else finish (drop_bit (imm5 - 1) val AND 1 \<noteq> 0) (signed_drop_bit imm5 val))
        else throw (UndefinedInstructionException instr))"

definition exec_add_sub :: "u16 \<Rightarrow> (machine, unit) act" where
  "exec_add_sub instr = update (\<lambda>s.
     let I = flag instr 10; sub = flag instr 9;
         rn = field instr 6 0x7; rs = field instr 3 0x7; rd = field instr 0 0x7;
         a = regs s rs; b = (if I then of_nat rn else regs s rn);
         (result, carry) = (if sub then sub32 a b else add32 a b False);
         v = (if sub then top_bit ((a XOR b) AND (a XOR result))
              else top_bit ((a XOR result) AND (b XOR result)))
     in s\<lparr>apsr := update_nz result ((apsr s)\<lparr>C := carry, V := v\<rparr>),
          regs := (regs s)(rd := result)\<rparr>)"

definition exec_imm8 :: "u16 \<Rightarrow> (machine, unit) act" where
  "exec_imm8 instr = update (\<lambda>s.
     let op = field instr 11 0x3; rd = field instr 8 0x7; imm8 = ucast (instr AND 0xFF) :: u32
     in if op = 0 then
          s\<lparr>apsr := update_nz imm8 (apsr s), regs := (regs s)(rd := imm8)\<rparr>
        else if op = 1 then
          (let (res, carry) = sub32 (regs s rd) imm8;
               v = top_bit ((regs s rd XOR imm8) AND (regs s rd XOR res))
           in s\<lparr>apsr := update_nz res ((apsr s)\<lparr>C := carry, V := v\<rparr>)\<rparr>)
        else if op = 2 then
          (let (res, carry) = add32 (regs s rd) imm8 False;
               v = top_bit ((regs s rd XOR res) AND (imm8 XOR res))
           in s\<lparr>apsr := update_nz res ((apsr s)\<lparr>C := carry, V := v\<rparr>),
                regs := (regs s)(rd := res)\<rparr>)
        else
          (let (res, carry) = sub32 (regs s rd) imm8;
               v = top_bit ((regs s rd XOR imm8) AND (regs s rd XOR res))
           in s\<lparr>apsr := update_nz res ((apsr s)\<lparr>C := carry, V := v\<rparr>),
                regs := (regs s)(rd := res)\<rparr>))"

section \<open>Format 4: ALU operations\<close>

definition exec_alu_shift :: "nat \<Rightarrow> nat \<Rightarrow> u32 \<Rightarrow> u32 \<Rightarrow> machine \<Rightarrow> machine" where
  "exec_alu_shift op rd a b s =
     (let sh = unat (b AND 0xFF); c0 = C (apsr s);
          (c, result) =
            (if op = 0x2 then
               (if sh > 0 then
                  (if sh < 32 then drop_bit (32 - sh) a AND 1 \<noteq> 0
                   else if sh = 32 then a AND 1 \<noteq> 0 else False) else c0,
                if sh \<ge> 32 then 0 else push_bit sh a)
             else if op = 0x3 then
               (if sh > 0 then
                  (if sh < 32 then drop_bit (sh - 1) a AND 1 \<noteq> 0
                   else if sh = 32 then top_bit a else False) else c0,
                if sh \<ge> 32 then 0 else drop_bit sh a)
             else if op = 0x4 then
               (if sh > 0 then
                  (if sh < 32 then drop_bit (sh - 1) a AND 1 \<noteq> 0 else top_bit a) else c0,
                if sh \<ge> 32 then signed_drop_bit MSB_POS a else signed_drop_bit sh a)
             else
               (let raw = sh; sh = unat ((of_nat raw :: u8) AND 0x1F)
                in if raw = 0 then (c0, a)
                   else if sh = 0 then (top_bit a, a)
                   else (drop_bit (sh - 1) a AND 1 \<noteq> 0, drop_bit sh a OR push_bit (32 - sh) a)))
      in s\<lparr>apsr := update_nz result ((apsr s)\<lparr>C := c\<rparr>), regs := (regs s)(rd := result)\<rparr>)"

definition exec_alu_arith :: "nat \<Rightarrow> nat \<Rightarrow> u32 \<Rightarrow> u32 \<Rightarrow> machine \<Rightarrow> machine" where
  "exec_alu_arith op rd a b s =
     (if op = 0x5 then
        (let (res, c) = add32 a b (C (apsr s))
         in s\<lparr>apsr := update_nz res ((apsr s)\<lparr>C := c, V := top_bit ((a XOR res) AND (b XOR res))\<rparr>),
              regs := (regs s)(rd := res)\<rparr>)
      else if op = 0x6 then
        (let (res, c) = add32 a (NOT b) (C (apsr s))
         in s\<lparr>apsr := update_nz res ((apsr s)\<lparr>C := c, V := top_bit ((a XOR res) AND (NOT b XOR res))\<rparr>),
              regs := (regs s)(rd := res)\<rparr>)
      else if op = 0x9 then
        (let (res, c) = sub32 0 b
         in s\<lparr>apsr := update_nz res ((apsr s)\<lparr>C := c, V := top_bit (b AND res)\<rparr>),
              regs := (regs s)(rd := res)\<rparr>)
      else if op = 0xA then
        (let (res, c) = sub32 a b
         in s\<lparr>apsr := update_nz res ((apsr s)\<lparr>C := c, V := top_bit ((a XOR b) AND (a XOR res))\<rparr>)\<rparr>)
      else if op = 0xB then
        (let (res, c) = add32 a b False
         in s\<lparr>apsr := update_nz res ((apsr s)\<lparr>C := c, V := top_bit ((a XOR res) AND (b XOR res))\<rparr>)\<rparr>)
      else s)"

definition exec_alu :: "u16 \<Rightarrow> (machine, unit) act" where
  "exec_alu instr = update (\<lambda>s.
     let op = field instr 6 0xF; rs = field instr 3 0x7; rd = field instr 0 0x7;
         a = regs s rd; b = regs s rs;
         finish = (\<lambda>result. s\<lparr>apsr := update_nz result (apsr s), regs := (regs s)(rd := result)\<rparr>)
     in if (op \<ge> 0x2 \<and> op \<le> 0x4) \<or> op = 0x7 then exec_alu_shift op rd a b s
        else if op = 0x5 \<or> op = 0x6 \<or> (op \<ge> 0x9 \<and> op \<le> 0xB) then exec_alu_arith op rd a b s
        else if op = 0x0 then finish (a AND b)
        else if op = 0x1 then finish (a XOR b)
        else if op = 0x8 then s\<lparr>apsr := update_nz (a AND b) (apsr s)\<rparr>
        else if op = 0xC then finish (a OR b)
        else if op = 0xD then finish (a * b)
        else if op = 0xE then finish (a AND NOT b)
        else if op = 0xF then finish (NOT b)
        else s)"

section \<open>Format 5: high registers, BX and BLX\<close>

text \<open>\<open>((instr >> 7) & 0x1) << 3 | (instr & 0x7)\<close>: the destination with its high bit H1.\<close>

definition hi_rd :: "u16 \<Rightarrow> nat" where
  "hi_rd instr = unat (push_bit 3 (drop_bit 7 instr AND 1) OR (instr AND 0x7))"

definition exec_hi_reg_bx :: "u16 \<Rightarrow> (machine, unit) act" where
  "exec_hi_reg_bx instr = update (\<lambda>s.
     let op = field instr 8 0x3; rs = field instr 3 0xF;
         rd = hi_rd instr;
         val_s = regs s rs; val_d = regs s rd
     in if op = 0 then s\<lparr>regs := (regs s)(rd := val_d + val_s)\<rparr>
        else if op = 1 then
          (let (res, carry) = sub32 val_d val_s;
               v = top_bit ((val_d XOR val_s) AND (val_d XOR res))
           in s\<lparr>apsr := update_nz res ((apsr s)\<lparr>C := carry, V := v\<rparr>)\<rparr>)
        else if op = 2 then s\<lparr>regs := (regs s)(rd := val_s)\<rparr>
        else
          (let s1 = (if flag instr 7 then s\<lparr>regs := (regs s)(LR := pc s OR 1)\<rparr> else s);
               s2 = set_pc (val_s AND NOT 1) s1
           in if val_s AND 1 = 0 then s2\<lparr>halted := True\<rparr> else s2))"

section \<open>Formats 6 to 11: loads and stores\<close>

definition set_rd :: "nat \<Rightarrow> u32 \<Rightarrow> (machine, unit) act" where
  "set_rd rd v = update (set_reg rd v)"

definition exec_ldr_pc :: "u16 \<Rightarrow> (machine, unit) act" where
  "exec_ldr_pc instr = with_state (\<lambda>s.
     let rd = field instr 8 0x7; off = push_bit 2 (ucast (instr AND 0xFF)) :: u32;
         base = (pc s + 2) AND NOT 3
     in bind_act (mem_read read32 (base + off)) (set_rd rd))"

definition exec_ldr_str_reg :: "u16 \<Rightarrow> (machine, unit) act" where
  "exec_ldr_str_reg instr = with_state (\<lambda>s.
     let L = flag instr 11; B = flag instr 10;
         ro = field instr 6 0x7; rb = field instr 3 0x7; rd = field instr 0 0x7;
         addr = regs s rb + regs s ro
     in if L then
          (if B then bind_act (mem_read read8 addr) (\<lambda>v. set_rd rd (ucast v))
           else bind_act (mem_read read32 addr) (set_rd rd))
        else
          (if B then mem_write write8 addr (ucast (regs s rd AND 0xFF))
           else mem_write write32 addr (regs s rd)))"

definition exec_ldr_str_imm :: "u16 \<Rightarrow> (machine, unit) act" where
  "exec_ldr_str_imm instr = with_state (\<lambda>s.
     let B = flag instr 12; L = flag instr 11;
         off5 = field instr 6 0x1F; rb = field instr 3 0x7; rd = field instr 0 0x7;
         off = (if B then of_nat off5 else push_bit 2 (of_nat off5)) :: u32;
         addr = regs s rb + off
     in if L then
          (if B then bind_act (mem_read read8 addr) (\<lambda>v. set_rd rd (ucast v))
           else bind_act (mem_read read32 addr) (set_rd rd))
        else
          (if B then mem_write write8 addr (ucast (regs s rd AND 0xFF))
           else mem_write write32 addr (regs s rd)))"

definition exec_ldrh_strh_imm :: "u16 \<Rightarrow> (machine, unit) act" where
  "exec_ldrh_strh_imm instr = with_state (\<lambda>s.
     let L = flag instr 11;
         off5 = field instr 6 0x1F; rb = field instr 3 0x7; rd = field instr 0 0x7;
         addr = regs s rb + push_bit 1 (of_nat off5)
     in if L then bind_act (mem_read read16 addr) (\<lambda>v. set_rd rd (ucast v))
        else mem_write write16 addr (ucast (regs s rd AND 0xFFFF)))"

definition exec_ldr_str_sp :: "u16 \<Rightarrow> (machine, unit) act" where
  "exec_ldr_str_sp instr = with_state (\<lambda>s.
     let L = flag instr 11; rd = field instr 8 0x7;
         off = push_bit 2 (ucast (instr AND 0xFF)) :: u32; addr = regs s 13 + off
     in if L then bind_act (mem_read read32 addr) (set_rd rd)
        else mem_write write32 addr (regs s rd))"

section \<open>Formats 12 and 13: address computation, stack pointer\<close>

definition exec_add_sp_pc :: "u16 \<Rightarrow> (machine, unit) act" where
  "exec_add_sp_pc instr = update (\<lambda>s.
     let sp = flag instr 11; rd = field instr 8 0x7;
         imm = push_bit 2 (ucast (instr AND 0xFF)) :: u32;
         base = (if sp then regs s 13 else (pc s + 2) AND NOT 3)
     in s\<lparr>regs := (regs s)(rd := base + imm)\<rparr>)"

definition exec_sp_ops :: "u16 \<Rightarrow> (machine, unit) act" where
  "exec_sp_ops instr = update (\<lambda>s.
     let sub = flag instr 7; imm = push_bit 2 (ucast (instr AND 0x7F)) :: u32
     in s\<lparr>regs := (regs s)(13 := if sub then regs s 13 - imm else regs s 13 + imm)\<rparr>)"

section \<open>Format 14: PUSH and POP\<close>

text \<open>\<open>rlist & (1 << i)\<close>.\<close>

definition in_rlist :: "u8 \<Rightarrow> nat \<Rightarrow> bool" where
  "in_rlist rlist i = (rlist AND push_bit i 1 \<noteq> 0)"

text \<open>\<open>regs_[13] -= 4; mem_.write32(regs_[13], regs_[i])\<close>\<close>

definition push_reg :: "nat \<Rightarrow> (machine, unit) act" where
  "push_reg i =
     seq_act (update (\<lambda>s. set_sp (sp s - 4) s))
       (with_state (\<lambda>s. mem_write write32 (sp s) (regs s i)))"

text \<open>\<open>regs_[i] = mem_.read32(regs_[13]); regs_[13] += 4\<close>\<close>

definition pop_reg :: "nat \<Rightarrow> (machine, unit) act" where
  "pop_reg i = with_state (\<lambda>s.
     bind_act (mem_read read32 (sp s)) (\<lambda>v.
       update (\<lambda>s. let t = set_reg i v s in set_sp (sp t + 4) t)))"

definition pop_pc :: "(machine, unit) act" where
  "pop_pc = with_state (\<lambda>s.
     bind_act (mem_read read32 (sp s)) (\<lambda>new_pc.
       update (\<lambda>s.
         let t = set_pc (new_pc AND NOT 1) (set_sp (sp s + 4) s)
         in if new_pc AND 1 = 0 then t\<lparr>halted := True\<rparr> else t)))"

definition exec_push_pop :: "u16 \<Rightarrow> (machine, unit) act" where
  "exec_push_pop instr =
     (let L = flag instr 11; R = flag instr 8; rlist = ucast (instr AND 0xFF) :: u8
      in if \<not> L then
           seq_act (if R then push_reg 14 else ret ())
             (for_each [7, 6, 5, 4, 3, 2, 1, 0] (\<lambda>i. if in_rlist rlist i then push_reg i else ret ()))
         else
           seq_act
             (for_each [0, 1, 2, 3, 4, 5, 6, 7] (\<lambda>i. if in_rlist rlist i then pop_reg i else ret ()))
             (if R then pop_pc else ret ()))"

section \<open>Format 15: LDM and STM\<close>

text \<open>
  The loop carries the local \<open>addr\<close> from one register of the list to the next; the loop and
  the writeback after it are one recursion over the registers left.
\<close>

primrec ldm_stm_loop :: "bool \<Rightarrow> nat \<Rightarrow> u8 \<Rightarrow> nat list \<Rightarrow> u32 \<Rightarrow> (machine, unit) act" where
  "ldm_stm_loop L rb rlist [] addr =
     (if \<not> in_rlist rlist rb \<or> L then set_rd rb addr else ret ())"
| "ldm_stm_loop L rb rlist (i # is) addr =
     (if in_rlist rlist i then
        seq_act
          (if L then bind_act (mem_read read32 addr) (set_rd i)
           else with_state (\<lambda>s. mem_write write32 addr (regs s i)))
          (ldm_stm_loop L rb rlist is (addr + 4))
      else ldm_stm_loop L rb rlist is addr)"

definition exec_ldm_stm :: "u16 \<Rightarrow> (machine, unit) act" where
  "exec_ldm_stm instr = with_state (\<lambda>s.
     let L = flag instr 11; rb = field instr 8 0x7; rlist = ucast (instr AND 0xFF) :: u8
     in ldm_stm_loop L rb rlist [0, 1, 2, 3, 4, 5, 6, 7] (regs s rb))"

section \<open>Formats 16 to 19: branches\<close>

definition exec_branch_cond :: "u16 \<Rightarrow> (machine, unit) act" where
  "exec_branch_cond instr = update (\<lambda>s.
     let cond = field instr 8 0xF;
         soff8 = scast (ucast (instr AND 0xFF) :: u8) :: u32;
         target = pc s + 2 + push_bit 1 soff8
     in if condition_passes cond (apsr s) then set_pc target s else s)"

definition BL_SIGN_SHIFT :: nat where "BL_SIGN_SHIFT = 21"

definition exec_branch :: "u16 \<Rightarrow> (machine, unit) act" where
  "exec_branch instr = update (\<lambda>s.
     let off11 = signed_drop_bit 20 (push_bit BL_SIGN_SHIFT (ucast (instr AND 0x7FF))) :: u32
     in set_pc (pc s + 2 + off11) s)"

definition exec_bl_upper :: "u16 \<Rightarrow> (machine, unit) act" where
  "exec_bl_upper instr = update (\<lambda>s.
     let off = signed_drop_bit 9 (push_bit BL_SIGN_SHIFT (ucast (instr AND 0x7FF))) :: u32
     in s\<lparr>bl_offset := pc s + 2 + off\<rparr>)"

definition exec_bl_lower :: "u16 \<Rightarrow> (machine, unit) act" where
  "exec_bl_lower instr = update (\<lambda>s.
     let off_lo = push_bit 1 (ucast (instr AND 0x7FF)) :: u32;
         t = s\<lparr>regs := (regs s)(14 := pc s OR 1)\<rparr>
     in set_pc (bl_offset t + off_lo) t)"

section \<open>Decode, step and run\<close>

definition execute :: "u16 \<Rightarrow> (machine, unit) act" where
  "execute instr =
     (let top5 = field instr 11 0x1F; top4 = field instr 12 0x0F; top6 = field instr 10 0x3F
      in if top5 \<le> 0x02 then exec_shift_imm instr
         else if top5 = 0x03 then exec_add_sub instr
         else if top5 \<ge> 0x04 \<and> top5 \<le> 0x07 then exec_imm8 instr
         else if top6 = 0x10 then exec_alu instr
         else if top6 = 0x11 then exec_hi_reg_bx instr
         else if top5 = 0x09 then exec_ldr_pc instr
         else if top4 = 0x5 \<and> \<not> flag instr 9 then exec_ldr_str_reg instr
         else if top4 = 0x6 \<or> top4 = 0x7 then exec_ldr_str_imm instr
         else if top4 = 0x8 then exec_ldrh_strh_imm instr
         else if top4 = 0x9 then exec_ldr_str_sp instr
         else if top4 = 0xA then exec_add_sp_pc instr
         else if top4 = 0xB then
           (let top8 = unat (drop_bit 8 instr)
            in if top8 = 0xB0 then exec_sp_ops instr
               else if top8 = 0xBF then ret ()
               else if top8 = 0xBE then ret ()
               else exec_push_pop instr)
         else if top4 = 0xC then exec_ldm_stm instr
         else if top4 = 0xD \<and> field instr 8 0xF \<noteq> 0xF then exec_branch_cond instr
         else if top5 = 0x1C then exec_branch instr
         else if top5 = 0x1E then exec_bl_upper instr
         else if top5 = 0x1F then exec_bl_lower instr
         else throw (UndefinedInstructionException instr))"

text \<open>The call of the trace callback: nothing for the null pointer.\<close>

definition call_trace :: "u32 \<Rightarrow> u16 \<Rightarrow> machine \<Rightarrow> machine" where
  "call_trace cur_pc instr s =
     (case trace_cb s of None \<Rightarrow> s | Some calls \<Rightarrow> s\<lparr>trace_cb := Some (calls @ [(cur_pc, instr)])\<rparr>)"

definition step :: "(machine, bool) act" where
  "step = with_state (\<lambda>s.
     if halted s then ret False
     else
       (let cur_pc = pc s
        in bind_act fetch (\<lambda>instr.
             seq_act (update (call_trace cur_pc instr))
            (seq_act (execute instr)
            (seq_act (update (\<lambda>t. t\<lparr>cycles := cycles t + 1\<rparr>))
            (with_state (\<lambda>t. ret (\<not> halted t))))))))"

text \<open>
  \<open>while (steps < max_steps && step()) ++steps\<close>. The recursion is on the steps left,
  \<open>max_steps - steps\<close>; the count cannot wrap, since it stays at or below \<open>max_steps\<close>, a \<open>uint64_t\<close>.
\<close>

primrec run_loop :: "nat \<Rightarrow> nat \<Rightarrow> (machine, nat) act" where
  "run_loop 0 steps = ret steps"
| "run_loop (Suc left) steps =
     bind_act step (\<lambda>go. if go then run_loop left (Suc steps) else ret steps)"

definition run :: "nat \<Rightarrow> (machine, nat) act" where
  "run max_steps = run_loop max_steps 0"

end
