(* ===== verification/Cpu_Flags.thy ===== *)
theory Cpu_Flags
  imports Cpu
begin

text \<open>
  The arithmetic of cpu.cpp against the architecture's definition: \<open>AddWithCarry\<close> is the
  pseudocode function of the ARMv6-M manual, and every add, subtract and compare of the
  model gives its result and its carry and overflow flags. From it follow the meanings of
  the condition codes after a comparison.
\<close>

section \<open>The top bit, and words as numbers\<close>

lemma top_bit_iff: "top_bit w \<longleftrightarrow> bit w 31"
  by (simp add: top_bit_def MSB_POS_def bit_iff_odd_drop_bit and_one_eq odd_iff_mod_2_eq_one)

lemma uint_lt_2p32: "uint (w :: u32) < 4294967296"
  using uint_lt2p [of w] by simp

lemma bit31_uint: "bit (w :: u32) 31 \<longleftrightarrow> uint w \<ge> 2147483648"
proof -
  have "bit w 31 \<longleftrightarrow> bit (uint w) 31" by (simp add: bit_uint_iff)
  also have "\<dots> \<longleftrightarrow> odd (uint w div 2147483648)" by (simp add: bit_iff_odd)
  also have "\<dots> \<longleftrightarrow> uint w \<ge> 2147483648"
    using uint_lt_2p32 [of w] by (simp add: div_once)
  finally show ?thesis .
qed

lemma sint_uint_u32:
  "sint (w :: u32) = (if uint w \<ge> 2147483648 then uint w - 4294967296 else uint w)"
proof -
  have "sint w = (uint w + 2147483648) mod 4294967296 - 2147483648"
    by (simp add: sint_uint signed_take_bit_eq_take_bit_shift take_bit_eq_mod)
  then show ?thesis
    using uint_lt_2p32 [of w] by (simp add: mod_once)
qed

lemma top_bit_sint: "top_bit w \<longleftrightarrow> sint w < 0"
  using uint_lt_2p32 [of w] uint_ge_0 [of w] by (auto simp: top_bit_iff bit31_uint sint_uint_u32)

lemma uint_add_carry:
  "uint (a + b + of_bool c :: u32) =
     (if uint a + uint b + of_bool c < 4294967296 then uint a + uint b + of_bool c
      else uint a + uint b + of_bool c - 4294967296)"
proof -
  have "uint (a + b + of_bool c) = (uint a + uint b + of_bool c) mod 4294967296"
    by (cases c) (simp_all add: uint_word_ariths mod_simps)
  moreover have "uint a + uint b + of_bool c < 2 * 4294967296"
    using uint_lt_2p32 [of a] uint_lt_2p32 [of b] by (cases c) simp_all
  moreover have "0 \<le> uint a + uint b + of_bool c" by simp
  ultimately show ?thesis by (simp add: mod_once)
qed

lemma uint_not: "uint (NOT b :: u32) = 4294967295 - uint b"
proof -
  have "uint (NOT b) = (- uint b - 1) mod 4294967296"
    by (simp add: not_eq_complement uint_word_ariths mod_simps)
  also have "\<dots> = (4294967296 + (- uint b - 1)) mod 4294967296"
    by (simp only: mod_add_self1)
  also have "4294967296 + (- uint b - 1) = 4294967295 - uint b" by simp
  finally have "uint (NOT b) = (4294967295 - uint b) mod 4294967296" .
  moreover have "(4294967295 - uint b) mod 4294967296 = 4294967295 - uint b"
    by (rule mod_pos_pos_trivial) (use uint_lt_2p32 [of b] uint_ge_0 [of b] in linarith)+
  ultimately show ?thesis by simp
qed

section \<open>AddWithCarry\<close>

text \<open>The manual's function: result, carry out and overflow of \<open>x + y + carry_in\<close>.\<close>

definition AddWithCarry :: "u32 \<Rightarrow> u32 \<Rightarrow> bool \<Rightarrow> u32 \<times> bool \<times> bool" where
  "AddWithCarry x y carry_in =
     (let unsigned_sum = uint x + uint y + of_bool carry_in;
          signed_sum = sint x + sint y + of_bool carry_in;
          result = word_of_int unsigned_sum :: u32
      in (result, uint result \<noteq> unsigned_sum, sint result \<noteq> signed_sum))"

lemma add_result: "word_of_int (uint x + uint y + of_bool c) = (x + y + of_bool c :: u32)"
  by (cases c) simp_all

lemma uint_drop_bit_u64: "uint (drop_bit n w) = drop_bit n (uint w)" for w :: u64
  using uint_lt2p [of w] by (simp add: unsigned_drop_bit_eq take_bit_int_eq_self)

lemma add32_eq:
  "add32 a b c = (a + b + of_bool c, uint a + uint b + of_bool c \<ge> 4294967296)"
proof -
  let ?w = "(ucast a :: u64) + ucast b + (if c then 1 else 0)"
  have u: "uint ?w = uint a + uint b + of_bool c"
    using uint_lt_2p32 [of a] uint_lt_2p32 [of b]
    by (cases c) (simp_all add: uint_word_ariths unsigned_ucast_eq take_bit_eq_mod)
  have "ucast ?w = (word_of_int (uint ?w) :: u32)" by simp
  then have "ucast ?w = (a + b + of_bool c :: u32)" by (simp only: u add_result)
  moreover have "drop_bit 32 ?w \<noteq> 0 \<longleftrightarrow> uint (drop_bit 32 ?w) \<noteq> 0"
    by (simp only: uint_0_iff)
  moreover have "uint (drop_bit 32 ?w) = uint ?w div 4294967296"
    using uint_drop_bit_u64 [of 32 ?w] by (simp add: drop_bit_eq_div [of _ "uint _"])
  moreover have "uint ?w div 4294967296 \<noteq> 0 \<longleftrightarrow> uint a + uint b + of_bool c \<ge> 4294967296"
    using uint_lt_2p32 [of a] uint_lt_2p32 [of b] unfolding u by (cases c) (simp_all add: div_once)
  ultimately show ?thesis by (simp only: add32_def Let_def)
qed

lemma of_bool_True_word: "of_bool True = (1 :: u32)" by simp

lemma sub32_eq: "sub32 a b = (a - b, uint a \<ge> uint b)"
proof -
  have "a + NOT b + 1 = a - b" by (simp add: not_eq_complement)
  then show ?thesis by (auto simp: sub32_def add32_eq uint_not)
qed

section \<open>The overflow expressions of the code\<close>

text \<open>
  \<open>((a ^ res) & (b ^ res)) >> 31\<close> for a sum and \<open>((a ^ b) & (a ^ res)) >> 31\<close> for a
  difference, both against the definition of overflow.
\<close>

lemma top_bit_bits [simp]:
  "top_bit (x AND y) \<longleftrightarrow> top_bit x \<and> top_bit y"
  "top_bit (x XOR y) \<longleftrightarrow> top_bit x \<noteq> top_bit y"
  "top_bit (NOT x) \<longleftrightarrow> \<not> top_bit x"
  by (auto simp: top_bit_iff bit_simps)

lemma top_bit_uint: "top_bit w \<longleftrightarrow> uint w \<ge> 2147483648"
  by (simp add: top_bit_iff bit31_uint)

lemma overflow_int:
  fixes x y r c :: int
  assumes "0 \<le> x" "x < 4294967296" "0 \<le> y" "y < 4294967296" "c = 0 \<or> c = 1"
    and "r = (if x + y + c < 4294967296 then x + y + c else x + y + c - 4294967296)"
  shows "((2147483648 \<le> x) \<noteq> (2147483648 \<le> r) \<and> (2147483648 \<le> y) \<noteq> (2147483648 \<le> r)) \<longleftrightarrow>
    (if 2147483648 \<le> r then r - 4294967296 else r) \<noteq>
    (if 2147483648 \<le> x then x - 4294967296 else x) +
    (if 2147483648 \<le> y then y - 4294967296 else y) + c"
  using assms by (auto split: if_splits)

lemma overflow_sum:
  fixes a b :: u32
  assumes "r = a + b + of_bool c"
  shows "(top_bit a \<noteq> top_bit r \<and> top_bit b \<noteq> top_bit r) \<longleftrightarrow> sint r \<noteq> sint a + sint b + of_bool c"
  unfolding assms top_bit_uint sint_uint_u32
  by (rule overflow_int) (simp_all add: uint_lt_2p32 uint_add_carry)

text \<open>The flags and the result of every addition and subtraction, as \<open>AddWithCarry\<close> gives them.\<close>

lemma AddWithCarry_eq:
  "AddWithCarry a b c = (fst (add32 a b c), snd (add32 a b c),
     top_bit ((a XOR fst (add32 a b c)) AND (b XOR fst (add32 a b c))))"
  using overflow_sum [OF refl, of a b c] uint_add_carry [of a b c]
  by (simp add: AddWithCarry_def add32_eq add_result del: top_bit_bits(2))
     (auto split: if_splits)

section \<open>Instructions that add or subtract\<close>

text \<open>The flags and the result that the architecture prescribes for \<open>x + y + carry_in\<close>.\<close>

definition awc_result :: "u32 \<Rightarrow> u32 \<Rightarrow> bool \<Rightarrow> u32" where
  "awc_result x y c = fst (AddWithCarry x y c)"

definition awc_flags :: "u32 \<Rightarrow> u32 \<Rightarrow> bool \<Rightarrow> APSR" where
  "awc_flags x y c =
     (let (result, carry, overflow) = AddWithCarry x y c
      in \<lparr>N = sint result < 0, Z = result = 0, C = carry, V = overflow\<rparr>)"

lemma update_nz_eq: "update_nz r f = f\<lparr>N := sint r < 0, Z := r = 0\<rparr>"
proof -
  have "(drop_bit 31 r AND 1 \<noteq> 0) = top_bit r" by (simp add: top_bit_def MSB_POS_def)
  then show ?thesis by (simp only: update_nz_def top_bit_sint)
qed

lemma apsr_full: "f\<lparr>C := c, V := v, N := n, Z := z\<rparr> = \<lparr>N = n, Z = z, C = c, V = v\<rparr>"
  by simp

lemmas awc_simps = awc_flags_def awc_result_def AddWithCarry_eq update_nz_eq sub32_def apsr_full
  Let_def case_prod_unfold

lemmas machine_cong = arg_cong [where f = "\<lambda>f. s\<lparr>apsr := f\<rparr>" for s]
  arg_cong2 [where f = "\<lambda>f r. s\<lparr>apsr := f, regs := r\<rparr>" for s]

lemma exec_add_sub_awc:
  "exec_add_sub instr s =
     (let rd = field instr 0 0x7; a = regs s (field instr 3 0x7);
          b = (if flag instr 10 then of_nat (field instr 6 0x7) else regs s (field instr 6 0x7));
          y = (if flag instr 9 then NOT b else b)
      in (Inr (), s\<lparr>apsr := awc_flags a y (flag instr 9),
                    regs := (regs s)(rd := awc_result a y (flag instr 9))\<rparr>))"
  by (cases "flag instr 9") (auto simp: exec_add_sub_def awc_simps intro!: machine_cong)

lemma exec_imm8_awc:
  "field instr 11 0x3 \<noteq> 0 \<Longrightarrow> exec_imm8 instr s =
     (let op = field instr 11 0x3; rd = field instr 8 0x7; a = regs s rd;
          imm = ucast (instr AND 0xFF); y = (if op = 2 then imm else NOT imm)
      in (Inr (), s\<lparr>apsr := awc_flags a y (op \<noteq> 2),
                    regs := (if op = 1 then regs s else (regs s)(rd := awc_result a y (op \<noteq> 2)))\<rparr>))"
  by (cases "field instr 11 0x3 = 2")
    (auto simp: exec_imm8_def awc_simps intro!: machine_cong)

lemma exec_imm8_mov:
  "field instr 11 0x3 = 0 \<Longrightarrow> exec_imm8 instr s =
     (let rd = field instr 8 0x7; imm = ucast (instr AND 0xFF)
      in (Inr (), s\<lparr>apsr := update_nz imm (apsr s), regs := (regs s)(rd := imm)\<rparr>))"
  by (simp add: exec_imm8_def Let_def)

lemma exec_alu_arith_awc:
  "exec_alu_arith 0x5 d x z s =
     s\<lparr>apsr := awc_flags x z (C (apsr s)), regs := (regs s)(d := awc_result x z (C (apsr s)))\<rparr>"
  "exec_alu_arith 0x6 d x z s =
     s\<lparr>apsr := awc_flags x (NOT z) (C (apsr s)), regs := (regs s)(d := awc_result x (NOT z) (C (apsr s)))\<rparr>"
  "exec_alu_arith 0x9 d x z s =
     s\<lparr>apsr := awc_flags 0 (NOT z) True, regs := (regs s)(d := awc_result 0 (NOT z) True)\<rparr>"
  "exec_alu_arith 0xA d x z s = s\<lparr>apsr := awc_flags x (NOT z) True\<rparr>"
  "exec_alu_arith 0xB d x z s = s\<lparr>apsr := awc_flags x z False\<rparr>"
  by (auto simp: exec_alu_arith_def awc_simps intro!: machine_cong)


section \<open>Conditions after a comparison\<close>

lemma uint_minus_u32:
  "uint (a - b :: u32) = (if uint b \<le> uint a then uint a - uint b else uint a - uint b + 4294967296)"
proof -
  have m: "uint (a - b) = (uint a - uint b) mod 4294967296" by (simp add: uint_word_ariths)
  show ?thesis
  proof (cases "uint b \<le> uint a")
    case True
    with m show ?thesis
      using uint_lt_2p32 [of a] uint_ge_0 [of b] by (simp add: mod_pos_pos_trivial)
  next
    case False
    have "(uint a - uint b) mod 4294967296 = (uint a - uint b + 4294967296) mod 4294967296"
      by (simp only: mod_add_self2)
    also have "\<dots> = uint a - uint b + 4294967296"
      by (rule mod_pos_pos_trivial)
        (use False uint_lt_2p32 [of b] uint_ge_0 [of a] in linarith)+
    finally show ?thesis using False m by simp
  qed
qed

lemma compare_int:
  fixes x y r :: int
  assumes "0 \<le> x" "x < 4294967296" "0 \<le> y" "y < 4294967296"
    and "r = (if y \<le> x then x - y else x - y + 4294967296)"
  shows "((if 2147483648 \<le> r then r - 4294967296 else r) < 0) =
     ((if 2147483648 \<le> r then r - 4294967296 else r) \<noteq>
      (if 2147483648 \<le> x then x - 4294967296 else x) -
      (if 2147483648 \<le> y then y - 4294967296 else y))
    \<longleftrightarrow> (if 2147483648 \<le> x then x - 4294967296 else x) \<ge>
        (if 2147483648 \<le> y then y - 4294967296 else y)"
  using assms by (auto split: if_splits)

lemma sint_not_add: "sint x + sint (NOT z) + 1 = sint x - sint (z :: u32)"
  using uint_lt_2p32 [of z] uint_ge_0 [of z] by (auto simp: sint_uint_u32 uint_not)

lemma awc_flags_sub:
  "awc_flags x (NOT z) True =
     \<lparr>N = sint (x - z) < 0, Z = x = z, C = z \<le> x, V = sint (x - z) \<noteq> sint x - sint z\<rparr>"
proof -
  let ?w = "AddWithCarry x (NOT z) True"
  have "add32 x (NOT z) True = (x - z, z \<le> x)"
    using sub32_eq [of x z] by (simp add: sub32_def word_le_def)
  then have fs: "fst ?w = x - z" "fst (snd ?w) \<longleftrightarrow> z \<le> x"
    by (simp_all add: AddWithCarry_eq)
  have "snd (snd ?w) \<longleftrightarrow> sint (fst ?w) \<noteq> sint x + sint (NOT z) + 1"
    by (simp add: AddWithCarry_def Let_def)
  then have "snd (snd ?w) \<longleftrightarrow> sint (x - z) \<noteq> sint x - sint z"
    by (simp only: fs sint_not_add)
  with fs show ?thesis by (simp add: awc_flags_def case_prod_unfold Let_def)
qed

lemma signed_ge_flags: "(sint (x - z) < 0) = (sint (x - z) \<noteq> sint x - sint z) \<longleftrightarrow> sint x \<ge> sint (z :: u32)"
  unfolding sint_uint_u32
  by (rule compare_int) (simp_all add: uint_lt_2p32 uint_minus_u32)

text \<open>C2. After \<open>CMP x, z\<close> the fourteen condition codes mean what their names say: equality,
  the unsigned order (CS, CC, HI, LS) and the signed order (GE, LT, GT, LE) of the operands,
  and the sign and overflow of the difference (MI, PL, VS, VC).\<close>

theorem compare_then_condition:
  "(let f = apsr (exec_alu_arith 0xA d x z s) in
    (condition_passes 0x0 f \<longleftrightarrow> x = z) \<and> (condition_passes 0x1 f \<longleftrightarrow> x \<noteq> z) \<and>
    (condition_passes 0x2 f \<longleftrightarrow> uint x \<ge> uint z) \<and> (condition_passes 0x3 f \<longleftrightarrow> uint x < uint z) \<and>
    (condition_passes 0x4 f \<longleftrightarrow> sint (x - z) < 0) \<and> (condition_passes 0x5 f \<longleftrightarrow> sint (x - z) \<ge> 0) \<and>
    (condition_passes 0x6 f \<longleftrightarrow> sint (x - z) \<noteq> sint x - sint z) \<and>
    (condition_passes 0x7 f \<longleftrightarrow> sint (x - z) = sint x - sint z) \<and>
    (condition_passes 0x8 f \<longleftrightarrow> uint x > uint z) \<and> (condition_passes 0x9 f \<longleftrightarrow> uint x \<le> uint z) \<and>
    (condition_passes 0xA f \<longleftrightarrow> sint x \<ge> sint z) \<and> (condition_passes 0xB f \<longleftrightarrow> sint x < sint z) \<and>
    (condition_passes 0xC f \<longleftrightarrow> sint x > sint z) \<and> (condition_passes 0xD f \<longleftrightarrow> sint x \<le> sint z))"
proof -
  have u: "x = z \<longleftrightarrow> uint x = uint z" and s: "x = z \<longleftrightarrow> sint x = sint z"
    by (rule word_uint_eq_iff, rule word_eq_iff_signed)
  show ?thesis
    using signed_ge_flags [of x z] u s
    by (auto simp: exec_alu_arith_awc awc_flags_sub condition_passes_def word_le_def Let_def)
qed

end
