(* ===== verification/Cpu_Exec.thy ===== *)
theory Cpu_Exec
  imports Cpu_Flags
begin

text \<open>
  Properties of the decoder: which halfwords are undefined and what else an instruction may raise,
  and that the program counter stays even.
\<close>

section \<open>Instruction fields as numbers\<close>

lemma unat_field: "unat (drop_bit s w AND mask k) = unat w div 2 ^ s mod 2 ^ k" for w :: u16
  by (simp only: take_bit_eq_mask [symmetric] unsigned_take_bit_eq unat_drop_bit_eq)
    (simp only: take_bit_eq_mod drop_bit_eq_div)

lemma field_mod:
  "field instr s 0x3 = unat instr div 2 ^ s mod 4"
  "field instr s 0x7 = unat instr div 2 ^ s mod 8"
  "field instr s 0xF = unat instr div 2 ^ s mod 16"
  "field instr s 0x1F = unat instr div 2 ^ s mod 32"
  "field instr s 0x3F = unat instr div 2 ^ s mod 64"
  using unat_field [of s instr 2] unat_field [of s instr 3] unat_field [of s instr 4]
    unat_field [of s instr 5] unat_field [of s instr 6]
  by (simp_all add: field_def mask_eq_exp_minus_1)

lemma flag_mod: "flag instr s \<longleftrightarrow> unat instr div 2 ^ s mod 2 = 1"
proof -
  have "flag instr s \<longleftrightarrow> unat (drop_bit s instr AND mask 1) \<noteq> 0"
    by (simp add: flag_def mask_eq_exp_minus_1 unat_eq_0)
  then show ?thesis by (simp only: unat_field) simp
qed

lemma field_less [simp]: "field instr s 0x7 < 8" "field instr s 0x3 < 4"
  by (simp_all add: field_mod)

lemma field_neq [simp]: "k \<ge> 8 \<Longrightarrow> field instr s 0x7 \<noteq> k" "k \<ge> 8 \<Longrightarrow> k \<noteq> field instr s 0x7"
  using field_less(1) [of instr s] by linarith+

section \<open>Undefined instructions\<close>

definition undefined_opcode :: "u16 \<Rightarrow> bool" where
  "undefined_opcode instr \<longleftrightarrow>
     (field instr 12 0xF = 0x5 \<and> flag instr 9) \<or>
     (field instr 12 0xF = 0xD \<and> field instr 8 0xF = 0xF) \<or>
     field instr 11 0x1F = 0x1D"

text \<open>An action that throws nothing but bus faults.\<close>

definition bus_only :: "(machine, 'a) act \<Rightarrow> bool" where
  "bus_only m \<longleftrightarrow> (\<forall>s e t. m s = (Inl e, t) \<longrightarrow> (\<exists>a. e = BusFaultException a))"

lemma bus_onlyI: "(\<And>s e t. m s = (Inl e, t) \<Longrightarrow> \<exists>a. e = BusFaultException a) \<Longrightarrow> bus_only m"
  by (simp add: bus_only_def)

lemma bus_only_ret [intro, simp]: "bus_only (ret a)"
  and bus_only_update [intro, simp]: "bus_only (update f)"
  by (simp_all add: bus_only_def)

lemma bus_only_bind: "bus_only m \<Longrightarrow> (\<And>a. bus_only (f a)) \<Longrightarrow> bus_only (bind_act m f)"
  by (rule bus_onlyI) (auto simp: bind_act_def bus_only_def split: prod.splits sum.splits, blast+)

lemma bus_only_seq: "bus_only m \<Longrightarrow> bus_only n \<Longrightarrow> bus_only (seq_act m n)"
  unfolding seq_act_def by (rule bus_only_bind)

lemma bus_only_with_state: "(\<And>s. bus_only (f s)) \<Longrightarrow> bus_only (with_state f)"
  by (auto simp: bus_only_def)

lemma bus_only_for_each: "(\<And>i. bus_only (f i)) \<Longrightarrow> bus_only (for_each is f)"
  by (induction "is") (auto intro: bus_only_seq)

lemma bus_only_read [intro, simp]:
  "bus_only (mem_read read8 a)" "bus_only (mem_read read16 a)" "bus_only (mem_read read32 a)"
  by (rule bus_onlyI; auto simp: mem_read_def read8_def read16_def read32_def dest: translate_Inl
      split: sum.splits if_splits)+

lemma bus_only_write [intro, simp]:
  "bus_only (mem_write write8 a v)" "bus_only (mem_write write16 a h)" "bus_only (mem_write write32 a w)"
  by (rule bus_onlyI; auto simp: mem_write_def write8_def write16_def write32_def dest: translate_Inl
      split: sum.splits if_splits)+

lemma bus_only_set_rd [intro, simp]: "bus_only (set_rd r v)"
  by (simp add: set_rd_def)

lemmas bus_only_intros = bus_only_with_state bus_only_bind bus_only_seq bus_only_for_each

lemma bus_only_ldm_stm: "bus_only (ldm_stm_loop L rb rl is addr)"
  by (induction "is" arbitrary: addr) (auto intro!: bus_only_intros)

lemma bus_only_updates [simp]:
  "bus_only (exec_add_sub i)" "bus_only (exec_imm8 i)" "bus_only (exec_alu i)"
  "bus_only (exec_hi_reg_bx i)" "bus_only (exec_add_sp_pc i)" "bus_only (exec_sp_ops i)"
  "bus_only (exec_branch_cond i)" "bus_only (exec_branch i)"
  "bus_only (exec_bl_upper i)" "bus_only (exec_bl_lower i)"
  by (simp_all only: exec_add_sub_def exec_imm8_def exec_alu_def exec_hi_reg_bx_def
      exec_add_sp_pc_def exec_sp_ops_def exec_branch_cond_def exec_branch_def exec_bl_upper_def
      exec_bl_lower_def bus_only_update)

lemma bus_only_loads [simp]:
  "bus_only (exec_ldr_pc i)" "bus_only (exec_ldr_str_reg i)" "bus_only (exec_ldr_str_imm i)"
  "bus_only (exec_ldrh_strh_imm i)" "bus_only (exec_ldr_str_sp i)"
  unfolding exec_ldr_pc_def exec_ldr_str_reg_def exec_ldr_str_imm_def exec_ldrh_strh_imm_def
    exec_ldr_str_sp_def Let_def
  by (rule bus_only_with_state; simp add: bus_only_bind)+

lemma bus_only_regs [simp]: "bus_only (push_reg i)" "bus_only (pop_reg i)" "bus_only pop_pc"
  unfolding push_reg_def pop_reg_def pop_pc_def
  by (simp_all add: bus_only_seq bus_only_with_state bus_only_bind)

lemma bus_only_transfer [simp]: "bus_only (exec_push_pop i)" "bus_only (exec_ldm_stm i)"
  unfolding exec_push_pop_def exec_ldm_stm_def Let_def
  by (simp_all add: bus_only_seq bus_only_for_each bus_only_with_state bus_only_ldm_stm
      del: ldm_stm_loop.simps)

lemma div_mod_mod: "n div 2 ^ 11 mod 4 = n div 2 ^ 11 mod 32 mod 4" for n :: nat
  by (simp add: mod_mod_cancel)

lemma bus_only_shift: "field i 11 0x1F \<le> 2 \<Longrightarrow> bus_only (exec_shift_imm i)"
proof -
  assume "field i 11 0x1F \<le> 2"
  then have "field i 11 0x3 \<le> 2"
    unfolding field_mod div_mod_mod by simp
  then have "field i 11 0x3 = 0 \<or> field i 11 0x3 = 1 \<or> field i 11 0x3 = 2" by linarith
  then show ?thesis
    unfolding exec_shift_imm_def Let_def
    by (intro bus_only_with_state) auto
qed

lemma fields_top:
  "field i 12 0xF = field i 11 0x1F div 2" "field i 10 0x3F div 2 = field i 11 0x1F"
proof -
  have "x div 2 mod 16 = x mod 32 div 2" "x mod 64 div 2 = x div 2 mod 32" for x :: nat
    using mod_mult2_eq [of x 2 16] mod_mult2_eq [of x 2 32] by simp_all
  note this(1) [of "unat i div 2 ^ 11"] this(2) [of "unat i div 2 ^ 10"]
  moreover have "unat i div 2 ^ 12 = unat i div 2 ^ 11 div 2" "unat i div 2 ^ 11 = unat i div 2 ^ 10 div 2"
    by (simp_all flip: div_mult2_eq)
  ultimately show "field i 12 0xF = field i 11 0x1F div 2" "field i 10 0x3F div 2 = field i 11 0x1F"
    unfolding field_mod by (simp_all only:)
qed

lemma top5_less: "field i 11 0x1F < 32"
  by (simp add: field_mod)

lemma execute_undefined: "undefined_opcode i \<Longrightarrow> execute i = throw (UndefinedInstructionException i)"
proof -
  assume u: "undefined_opcode i"
  consider "field i 12 0xF = 5" "flag i 9" | "field i 12 0xF = 0xD" "field i 8 0xF = 0xF"
    | "field i 11 0x1F = 0x1D"
    using u by (auto simp: undefined_opcode_def)
  then show ?thesis
  proof cases
    case 1
    then have "field i 11 0x1F = 10 \<or> field i 11 0x1F = 11" by (simp add: fields_top(1)) presburger
    moreover from this have "field i 10 0x3F \<ge> 20" using fields_top(2) [of i] by presburger
    ultimately show ?thesis using 1 by (auto simp: execute_def Let_def)
  next
    case 2
    then have "field i 11 0x1F = 26 \<or> field i 11 0x1F = 27" by (simp add: fields_top(1)) presburger
    moreover from this have "field i 10 0x3F \<ge> 50" using fields_top(2) [of i] by presburger
    ultimately show ?thesis using 2 by (auto simp: execute_def Let_def)
  next
    case 3
    then have "field i 12 0xF = 14" "field i 10 0x3F \<ge> 58"
      using fields_top [of i] by presburger+
    with 3 show ?thesis by (auto simp: execute_def Let_def)
  qed
qed

lemma bus_only_execute: "\<not> undefined_opcode i \<Longrightarrow> bus_only (execute i)"
proof -
  assume "\<not> undefined_opcode i"
  then have d: "\<not> (field i 12 0xF = 5 \<and> flag i 9)" "\<not> (field i 12 0xF = 0xD \<and> field i 8 0xF = 0xF)"
    "field i 11 0x1F \<noteq> 0x1D"
    by (auto simp: undefined_opcode_def)
  show ?thesis
  proof (cases "bus_only (execute i)")
    case False
    then have "field i 11 0x1F > 7" "field i 10 0x3F \<noteq> 0x10" "field i 10 0x3F \<noteq> 0x11"
      "field i 11 0x1F \<noteq> 9" "field i 12 0xF \<noteq> 5" "field i 12 0xF \<noteq> 6" "field i 12 0xF \<noteq> 7"
      "field i 12 0xF \<noteq> 8" "field i 12 0xF \<noteq> 9" "field i 12 0xF \<noteq> 0xA" "field i 12 0xF \<noteq> 0xB"
      "field i 12 0xF \<noteq> 0xC" "field i 12 0xF \<noteq> 0xD" "field i 11 0x1F \<noteq> 0x1C"
      "field i 11 0x1F \<noteq> 0x1E" "field i 11 0x1F \<noteq> 0x1F"
      using d by (auto simp: execute_def Let_def bus_only_shift split: if_splits)
    note c = this
    let ?h = "field i 12 0xF" and ?t = "field i 11 0x1F" and ?s = "field i 10 0x3F"
    have h: "?h = ?t div 2" and s: "?s div 2 = ?t" by (fact fields_top)+
    have "?h < 16" "?h \<ge> 4" using h top5_less [of i] c(1) by linarith+
    moreover have "top \<in> {4, 5, 6, 7, 8, 9, 10, 11, 12, 13, 14, 15}" if "top < 16" "4 \<le> top" for top :: nat
      using that by simp presburger
    ultimately have "?h = 4 \<or> ?h = 14 \<or> ?h = 15" using c(5-13) by (metis insertE emptyE)
    moreover have "?h \<noteq> 4" using h s c(2,3,4) by presburger
    moreover have "?h \<noteq> 14" using h c(14) d(3) by presburger
    moreover have "?h \<noteq> 15" using h c(15,16) by presburger
    ultimately have False by blast
    then show ?thesis ..
  qed
qed

text \<open>C34. The undefined halfwords are exactly those of \<open>undefined_opcode\<close> (format 8, the
  sign-extended and halfword register transfers; the conditional branch with condition 15,
  SWI; and 0xE800 to 0xEFFF): they raise \<open>UndefinedInstructionException\<close> with their own opcode
  and change nothing, and no other instruction raises anything but a bus fault.\<close>

theorem undefined_exactly:
  "if undefined_opcode instr
   then execute instr s = (Inl (UndefinedInstructionException instr), s)
   else (case fst (execute instr s) of Inl e \<Rightarrow> \<exists>a. e = BusFaultException a | Inr _ \<Rightarrow> True)"
proof (cases "undefined_opcode instr")
  case False
  then show ?thesis
    using bus_only_execute [OF False]
    by (cases "execute instr s") (auto simp: bus_only_def split: sum.splits)
qed (simp add: execute_undefined)

section \<open>The program counter stays even\<close>

definition even_pc :: "machine \<Rightarrow> bool" where
  "even_pc s \<longleftrightarrow> pc s AND 1 = 0"

text \<open>ADD and MOV of format 5 with destination PC, which write it as it is.\<close>

definition writes_pc_raw :: "u16 \<Rightarrow> bool" where
  "writes_pc_raw instr \<longleftrightarrow>
     field instr 10 0x3F = 0x11 \<and> (field instr 8 0x3 = 0 \<or> field instr 8 0x3 = 2) \<and> hi_rd instr = 15"

lemma even_and: "(v AND - 2) AND 1 = (0 :: u32)"
proof (rule bit_word_eqI)
  fix n
  have "\<not> bit (- 2 :: u32) 0" by (simp add: bit_0)
  then show "bit ((v AND - 2) AND 1) n = bit (0 :: u32) n"
    by (cases n) (simp_all add: bit_simps del: bit_0)
qed

lemma even_pc_iff: "even_pc s \<longleftrightarrow> \<not> bit (pc s) 0"
  unfolding even_pc_def and_one_eq by (simp add: bit_0 mod_2_eq_odd)

lemma if_keeps: "keeps P m \<Longrightarrow> keeps P n \<Longrightarrow> keeps P (if b then m else n)"
  by simp

lemma keeps_with_state: "(\<And>s. keeps P (f s)) \<Longrightarrow> keeps P (with_state f)"
  by (simp add: keeps_def)

lemma even_pc_set_pc [simp]: "even_pc (set_pc v s)"
  by (simp add: even_pc_def pc_def set_pc_def even_and)

lemma even_pc_frame [simp]:
  "even_pc (s\<lparr>apsr := f\<rparr>) = even_pc s" "even_pc (s\<lparr>mem := m\<rparr>) = even_pc s"
  "even_pc (s\<lparr>halted := h\<rparr>) = even_pc s" "even_pc (s\<lparr>bl_offset := w\<rparr>) = even_pc s"
  "even_pc (s\<lparr>cycles := c\<rparr>) = even_pc s" "even_pc (s\<lparr>trace_cb := t\<rparr>) = even_pc s"
  by (simp_all add: even_pc_def pc_def)

lemma even_pc_regs:
  "r \<noteq> 15 \<Longrightarrow> even_pc (s\<lparr>regs := (regs s)(r := v)\<rparr>) = even_pc s"
  "r \<noteq> 15 \<Longrightarrow> even_pc (s\<lparr>apsr := f, regs := (regs s)(r := v)\<rparr>) = even_pc s"
  "r \<noteq> 15 \<Longrightarrow> even_pc (set_reg r v s) = even_pc s"
  "even_pc (set_sp v s) = even_pc s"
  by (simp_all add: even_pc_def pc_def set_reg_def set_sp_def)

lemma keeps_mem_read [simp]: "keeps P (mem_read rd a)"
  by (simp add: keeps_def mem_read_def)

lemma keeps_even_mem_write [simp]: "keeps even_pc (mem_write wr a v)"
  by (auto simp: keeps_def mem_write_def split: sum.splits)

lemma keeps_even_set_rd: "r \<noteq> 15 \<Longrightarrow> keeps even_pc (set_rd r v)"
  by (simp add: set_rd_def keeps_update even_pc_regs)

lemma keeps_even_updates:
  "keeps even_pc (exec_add_sub i)" "keeps even_pc (exec_imm8 i)" "keeps even_pc (exec_alu i)"
  "keeps even_pc (exec_add_sp_pc i)" "keeps even_pc (exec_sp_ops i)"
  "keeps even_pc (exec_branch_cond i)" "keeps even_pc (exec_branch i)"
  "keeps even_pc (exec_bl_upper i)" "keeps even_pc (exec_bl_lower i)"
  unfolding exec_add_sub_def exec_imm8_def exec_alu_def exec_add_sp_pc_def exec_sp_ops_def
    exec_branch_cond_def exec_branch_def exec_bl_upper_def exec_bl_lower_def
    exec_alu_shift_def exec_alu_arith_def
  by (rule keeps_update, simp add: even_pc_regs Let_def case_prod_unfold)+

lemma keeps_even_shift: "keeps even_pc (exec_shift_imm i)"
  unfolding exec_shift_imm_def Let_def
  by (rule keeps_with_state) (auto intro!: keeps_update simp: even_pc_regs)

lemma keeps_even_hi: "\<not> (field i 8 0x3 = 0 \<or> field i 8 0x3 = 2) \<or> hi_rd i \<noteq> 15 \<Longrightarrow> keeps even_pc (exec_hi_reg_bx i)"
  unfolding exec_hi_reg_bx_def
  by (rule keeps_update) (auto simp: even_pc_regs Let_def case_prod_unfold)

lemma keeps_even_loads:
  "keeps even_pc (exec_ldr_pc i)" "keeps even_pc (exec_ldr_str_reg i)"
  "keeps even_pc (exec_ldr_str_imm i)" "keeps even_pc (exec_ldrh_strh_imm i)"
  "keeps even_pc (exec_ldr_str_sp i)"
  unfolding exec_ldr_pc_def exec_ldr_str_reg_def exec_ldr_str_imm_def exec_ldrh_strh_imm_def
    exec_ldr_str_sp_def Let_def
  by (rule keeps_with_state; simp add: keeps_bind keeps_even_set_rd)+

lemma keeps_even_regs:
  "keeps even_pc (push_reg r)" "r \<noteq> 15 \<Longrightarrow> keeps even_pc (pop_reg r)" "keeps even_pc pop_pc"
  unfolding push_reg_def pop_reg_def pop_pc_def Let_def
  by (auto intro!: keeps_seq keeps_with_state keeps_bind keeps_update simp: even_pc_regs)

lemma keeps_even_ldm_stm:
  "\<forall>r \<in> set is. r \<noteq> 15 \<Longrightarrow> rb \<noteq> 15 \<Longrightarrow> keeps even_pc (ldm_stm_loop L rb rl is addr)"
proof (induction "is" arbitrary: addr)
  case Nil
  then show ?case unfolding ldm_stm_loop.simps by (simp add: keeps_even_set_rd)
next
  case (Cons i "is")
  have "keeps even_pc (if L then bind_act (mem_read read32 addr) (set_rd i)
      else with_state (\<lambda>s. mem_write write32 addr (regs s i)))"
    using Cons.prems(1) by (simp add: keeps_bind keeps_even_set_rd keeps_with_state)
  moreover have "keeps even_pc (ldm_stm_loop L rb rl is a)" for a
    using Cons.prems by (intro Cons.IH) simp_all
  ultimately show ?case unfolding ldm_stm_loop.simps by (simp only: keeps_seq if_split) simp
qed

lemma keeps_even_transfer: "keeps even_pc (exec_push_pop i)" "keeps even_pc (exec_ldm_stm i)"
proof -
  show "keeps even_pc (exec_push_pop i)"
    unfolding exec_push_pop_def Let_def
    by (intro if_keeps keeps_seq keeps_for_each keeps_even_regs keeps_ret) auto
  show "keeps even_pc (exec_ldm_stm i)"
    unfolding exec_ldm_stm_def Let_def
    by (intro keeps_with_state keeps_even_ldm_stm) simp_all
qed

lemmas keeps_even = keeps_even_updates keeps_even_shift keeps_even_loads keeps_even_transfer

lemma keeps_even_execute: "\<not> writes_pc_raw i \<Longrightarrow> keeps even_pc (execute i)"
  by (auto simp: execute_def Let_def keeps_even writes_pc_raw_def intro!: keeps_even_hi)

lemma advance_pc_even: "even_pc s \<Longrightarrow> even_pc (advance_pc s)"
by (simp add: even_pc_iff advance_pc_def pc_def bit_0)

text \<open>The program counter is even after every step from a state where it is, except when the
  step executes an ADD or MOV of format 5 that writes it.\<close>

theorem pc_stays_even:
  assumes "even_pc s" and "\<And>i. read16 (mem s) (pc s) = Inr i \<Longrightarrow> \<not> writes_pc_raw i"
  shows "even_pc (snd (step s))"
proof (cases "halted s")
  case False
  show ?thesis
  proof (cases "read16 (mem s) (pc s)")
    case (Inl e)
    then show ?thesis
      using False assms(1) by (simp add: step_def fetch_def mem_read_def bind_act_def Let_def)
  next
    case (Inr i)
    let ?t = "call_trace (pc s) i (advance_pc s)"
    have f: "fetch s = (Inr i, advance_pc s)"
      by (simp add: fetch_def mem_read_def Inr bind_act_def Let_def)
    have "even_pc ?t"
      using advance_pc_even [OF assms(1)] by (simp add: call_trace_def split: option.splits)
    then have "even_pc (snd (execute i ?t))"
      using keeps_even_execute [OF assms(2) [OF Inr]] by (simp add: keeps_def)
    then show ?thesis
      using False f by (cases "execute i ?t") (auto simp: step_def bind_act_def seq_act_def split: sum.splits)
  qed
qed (use assms in \<open>simp add: step_def\<close>)

theorem pc_stays_even_witness:
  "even_pc (new_machine new_flat_mem) \<and> even_pc (snd (step (new_machine new_flat_mem)))"
proof -
  have e: "even_pc (new_machine new_flat_mem)"
    by (simp add: even_pc_def pc_def new_machine_def reset_def reg_index RESET_PC_def)
  have "read16 (mem (new_machine new_flat_mem)) (pc (new_machine new_flat_mem)) = Inr 0"
    by (simp add: pc_def new_machine_def reset_def reg_index RESET_PC_def read16_def translate_def
        mem_map new_flat_mem_def join16_def)
  then show ?thesis
    using e by (auto simp: writes_pc_raw_def field_def intro!: pc_stays_even)
qed

end
