(* ===== verification/Cpu_Run.thy ===== *)
theory Cpu_Run
  imports Cpu_Exec
begin

text \<open>
  What \<open>step\<close> and \<open>run\<close> do as a whole: how many instructions \<open>run\<close> executes and counts, that it
  can be cut into batches, and which exceptions leave it.
\<close>

section \<open>What instructions leave alone\<close>

text \<open>
  A condition on the machine that the registers, the flags, the memory, the halt flag and the BL
  register have no part in: no instruction changes it.
\<close>

locale frame =
  fixes P :: "machine \<Rightarrow> bool"
  assumes P_regs: "P (s\<lparr>regs := rs\<rparr>) = P s" and P_apsr: "P (s\<lparr>apsr := f\<rparr>) = P s"
    and P_mem: "P (s\<lparr>mem := m\<rparr>) = P s" and P_halted: "P (s\<lparr>halted := h\<rparr>) = P s"
    and P_bl: "P (s\<lparr>bl_offset := w\<rparr>) = P s"
begin

lemma P_frame [simp]:
  "P (s\<lparr>apsr := f\<rparr>) = P s" "P (s\<lparr>mem := m\<rparr>) = P s" "P (s\<lparr>halted := h\<rparr>) = P s"
  "P (s\<lparr>bl_offset := w\<rparr>) = P s" "P (s\<lparr>regs := rs\<rparr>) = P s"
  "P (set_reg r v s) = P s" "P (set_sp v s) = P s" "P (set_pc v s) = P s" "P (advance_pc s) = P s"
  by (simp_all add: P_regs P_apsr P_mem P_halted P_bl set_reg_def set_sp_def set_pc_def advance_pc_def)

lemma P_apsr_regs [simp]: "P (s\<lparr>regs := rs, apsr := f\<rparr>) = P s"
  using P_apsr [where s = "s\<lparr>regs := rs\<rparr>" and f = f] P_regs by simp

lemma keeps_mem_write [simp]: "keeps P (mem_write wr a v)"
  by (auto simp: keeps_def mem_write_def split: sum.splits)

lemma keeps_set_rd [simp]: "keeps P (set_rd r v)"
  by (simp add: set_rd_def keeps_update)

lemma keeps_updates:
  "keeps P (exec_add_sub i)" "keeps P (exec_imm8 i)" "keeps P (exec_alu i)" "keeps P (exec_add_sp_pc i)"
  "keeps P (exec_sp_ops i)" "keeps P (exec_branch_cond i)" "keeps P (exec_branch i)" "keeps P (exec_bl_upper i)"
  "keeps P (exec_bl_lower i)" "keeps P (exec_hi_reg_bx i)"
  unfolding exec_add_sub_def exec_imm8_def exec_alu_def exec_add_sp_pc_def exec_sp_ops_def
    exec_branch_cond_def exec_branch_def exec_bl_upper_def exec_bl_lower_def exec_hi_reg_bx_def
    exec_alu_shift_def exec_alu_arith_def
  by (rule keeps_update, simp add: Let_def case_prod_unfold)+

lemma keeps_shift: "keeps P (exec_shift_imm i)"
  unfolding exec_shift_imm_def Let_def
  by (intro keeps_with_state if_keeps keeps_update keeps_throw) simp_all

lemma keeps_loads:
  "keeps P (exec_ldr_pc i)" "keeps P (exec_ldr_str_reg i)" "keeps P (exec_ldr_str_imm i)"
  "keeps P (exec_ldrh_strh_imm i)" "keeps P (exec_ldr_str_sp i)"
  unfolding exec_ldr_pc_def exec_ldr_str_reg_def exec_ldr_str_imm_def exec_ldrh_strh_imm_def
    exec_ldr_str_sp_def Let_def
  by (rule keeps_with_state; simp add: keeps_bind)+

lemma keeps_regs [simp]: "keeps P (push_reg r)" "keeps P (pop_reg r)" "keeps P pop_pc"
  unfolding push_reg_def pop_reg_def pop_pc_def Let_def
  by (intro keeps_seq keeps_with_state keeps_bind keeps_update keeps_mem_read keeps_mem_write; simp)+

lemma keeps_ldm_stm_loop: "keeps P (ldm_stm_loop L rb rl is addr)"
proof (induction "is" arbitrary: addr)
  case (Cons i "is")
  show ?case
    unfolding ldm_stm_loop.simps
    by (intro if_keeps keeps_seq keeps_bind keeps_with_state keeps_mem_read keeps_mem_write
        keeps_set_rd Cons.IH)
qed (simp add: ldm_stm_loop.simps)

lemma keeps_transfer: "keeps P (exec_push_pop i)" "keeps P (exec_ldm_stm i)"
  unfolding exec_push_pop_def exec_ldm_stm_def Let_def
  by (intro if_keeps keeps_seq keeps_for_each keeps_regs keeps_ret keeps_with_state keeps_ldm_stm_loop)+

lemma keeps_execute: "keeps P (execute i)"
  unfolding execute_def Let_def
  by (intro if_keeps keeps_updates keeps_shift keeps_loads keeps_transfer keeps_ret keeps_throw)

lemma execute_frame: "P s \<Longrightarrow> execute i s = (r, t) \<Longrightarrow> P t"
  by (rule keepsD [OF keeps_execute])

end

text \<open>The cycle counter, which \<open>step\<close> advances after the instruction, and the trace.\<close>

definition same_cycles :: "u64 \<Rightarrow> machine \<Rightarrow> bool" where
  "same_cycles c s \<longleftrightarrow> cycles s = c"

definition same_trace :: "(u32 \<times> u16) list option \<Rightarrow> machine \<Rightarrow> bool" where
  "same_trace tr s \<longleftrightarrow> trace_cb s = tr"

interpretation counted: frame "same_cycles c" for c
  by unfold_locales (simp_all add: same_cycles_def)

interpretation traced: frame "same_trace tr" for tr
  by unfold_locales (simp_all add: same_trace_def)

section \<open>One step\<close>

lemma step_halted: "halted s \<Longrightarrow> step s = (Inr False, s)"
  by (simp add: step_def)

lemma step_fetched:
  assumes "\<not> halted s" "read16 (mem s) (pc s) = Inr i"
  shows "step s =
    (case execute i (call_trace (pc s) i (advance_pc s)) of
       (Inl e, t) \<Rightarrow> (Inl e, t)
     | (Inr _, t) \<Rightarrow> (Inr (\<not> halted t), t\<lparr>cycles := cycles t + 1\<rparr>))"
  using assms
  by (cases "execute i (call_trace (pc s) i (advance_pc s))")
    (auto simp: step_def fetch_def mem_read_def bind_act_def seq_act_def Let_def split: sum.splits)

lemma step_fetch_fault:
  assumes "\<not> halted s" "read16 (mem s) (pc s) = Inl e"
  shows "step s = (Inl e, s)"
  using assms by (simp add: step_def fetch_def mem_read_def bind_act_def Let_def)

lemma cycles_call_trace [simp]: "cycles (call_trace p i s) = cycles s"
  by (simp add: call_trace_def split: option.splits)

lemma step_cycles:
  "\<not> halted s \<Longrightarrow>
   (case step s of
      (Inl e, t) \<Rightarrow> cycles t = cycles s
    | (Inr go, t) \<Rightarrow> cycles t = cycles s + 1 \<and> go = (\<not> halted t))"
proof (cases "read16 (mem s) (pc s)")
  case (Inr i)
  assume "\<not> halted s"
  let ?u = "call_trace (pc s) i (advance_pc s)"
  obtain r t where x: "execute i ?u = (r, t)" by (cases "execute i ?u")
  have "same_cycles (cycles s) ?u" by (simp add: same_cycles_def advance_pc_def)
  then have "cycles t = cycles s"
    using counted.execute_frame [OF _ x] by (simp add: same_cycles_def)
  then show ?thesis
    using step_fetched [OF \<open>\<not> halted s\<close> Inr] x by (simp split: sum.splits)
qed (simp add: step_fetch_fault)

section \<open>Runs\<close>

text \<open>Adds \<open>c\<close> to the count of a run that returns.\<close>

definition plus_steps :: "nat \<Rightarrow> (exn + nat) \<times> machine \<Rightarrow> (exn + nat) \<times> machine" where
  "plus_steps c r = (case r of (Inl e, t) \<Rightarrow> (Inl e, t) | (Inr k, t) \<Rightarrow> (Inr (c + k), t))"

lemma plus_steps_simps [simp]:
  "plus_steps c (Inl e, t) = (Inl e, t)" "plus_steps c (Inr k, t) = (Inr (c + k), t)"
  "plus_steps 0 r = r" "plus_steps c (plus_steps d r) = plus_steps (c + d) r"
  by (auto simp: plus_steps_def split: prod.splits sum.splits)

lemma run_loop_plus: "run_loop n c s = plus_steps c (run n s)"
proof (induction n arbitrary: c s)
  case (Suc n)
  have "run (Suc n) s = bind_act step (\<lambda>go. if go then run_loop n (Suc 0) else ret 0) s"
    by (simp add: run_def)
  then show ?case
    by (cases "step s") (auto simp: bind_act_def Suc.IH split: sum.splits)
qed (simp add: run_def)

lemma run_0 [simp]: "run 0 s = (Inr 0, s)"
  by (simp add: run_def)

lemma run_Suc:
  "run (Suc n) s =
     (case step s of
        (Inl e, t) \<Rightarrow> (Inl e, t)
      | (Inr go, t) \<Rightarrow> if go then plus_steps 1 (run n t) else (Inr 0, t))"
proof -
  have "run (Suc n) s =
      bind_act step (\<lambda>go. if go then run_loop n (Suc 0) else ret 0) s"
    by (simp add: run_def)
  then show ?thesis
    by (cases "step s") (auto simp: bind_act_def run_loop_plus split: sum.splits)
qed

lemma run_halted: "halted s \<Longrightarrow> run n s = (Inr 0, s)"
  by (cases n) (simp_all add: run_Suc step_halted)

lemma run_count:
  "(case run n s of
      (Inr k, t) \<Rightarrow>
        if halted s then k = 0 \<and> t = s
        else k \<le> n \<and> halted t = (k < n) \<and> cycles t = cycles s + of_nat k + of_bool (halted t)
    | (Inl e, t) \<Rightarrow> \<not> halted s \<and> (\<exists>k < n. cycles t = cycles s + of_nat k))"
proof (cases "halted s")
  case False
  then show ?thesis
  proof (induction n arbitrary: s)
    case (Suc n)
    obtain r t where st: "step s = (r, t)" by (cases "step s")
    note sc = step_cycles [OF Suc.prems, unfolded st]
    show ?case
    proof (cases r)
      case (Inl e)
      with st sc Suc.prems show ?thesis by (auto simp: run_Suc intro!: exI [of _ 0])
    next
      case (Inr go)
      show ?thesis
      proof (cases go)
        case True
        with Inr sc have t: "\<not> halted t" "cycles t = cycles s + 1" by simp_all
        obtain q u where ru: "run n t = (q, u)" by (cases "run n t")
        show ?thesis
        proof (cases q)
          case (Inl e)
          with Suc.IH [OF t(1)] ru obtain k where "k < n" "cycles u = cycles t + of_nat k" by auto
          with Inl st True Inr ru Suc.prems t show ?thesis
            by (auto simp: run_Suc intro!: exI [of _ "Suc k"])
        next
          case (Inr k)
          with Suc.IH [OF t(1)] ru t show ?thesis
            using st True \<open>r = Inr go\<close> Suc.prems by (simp add: run_Suc)
        qed
      next
        case False
        with Inr sc st Suc.prems show ?thesis by (simp add: run_Suc)
      qed
    qed
  qed simp
qed (simp add: run_halted)

text \<open>What a run may raise.\<close>

lemma bus_only_raises: "bus_only m \<Longrightarrow> m s = (Inl e, t) \<Longrightarrow> cpu_exn e"
proof -
  assume "bus_only m" "m s = (Inl e, t)"
  then obtain a where "e = BusFaultException a" unfolding bus_only_def by blast
  then show ?thesis by (simp add: cpu_exn_def)
qed

lemma step_raises: "step s = (Inl e, t) \<Longrightarrow> cpu_exn e"
proof (cases "halted s")
  case False
  assume st: "step s = (Inl e, t)"
  show ?thesis
  proof (cases "read16 (mem s) (pc s)")
    case (Inl x)
    then have "mem_read read16 (pc s) s = (Inl x, s)" by (simp add: mem_read_def)
    then have "cpu_exn x" by (rule bus_only_raises [rotated]) simp
    then show ?thesis using step_fetch_fault [OF False Inl] st by simp
  next
    case (Inr i)
    let ?u = "call_trace (pc s) i (advance_pc s)"
    obtain r u where x: "execute i ?u = (r, u)" by (cases "execute i ?u")
    with step_fetched [OF False Inr] st have "r = Inl e" by (cases r) auto
    then show ?thesis
      using x execute_undefined [of i] bus_only_raises [OF bus_only_execute [of i]]
      by (cases "undefined_opcode i") (auto simp: cpu_exn_def)
  qed
qed (simp add: step_halted)

lemma run_raises: "run n s = (Inl e, t) \<Longrightarrow> cpu_exn e"
proof (induction n arbitrary: s)
  case (Suc n)
  obtain r u where st: "step s = (r, u)" by (cases "step s")
  show ?case
  proof (cases r)
    case (Inr go)
    obtain q v where q: "run n u = (q, v)" by (cases "run n u")
    with Suc st Inr show ?thesis by (cases q) (auto simp: run_Suc split: if_splits)
  qed (use Suc.prems st step_raises in \<open>auto simp: run_Suc\<close>)
qed simp

text \<open>C36. \<open>run\<close> on a machine that is not halted executes at most \<open>max_steps\<close> instructions and
  returns fewer exactly when the machine has halted; the count it returns leaves out the
  instruction that halts, which the cycle counter includes. When an instruction faults, the
  counter shows the instructions completed before it. On a halted machine it does nothing.\<close>

theorem run_counts:
  "(case run n s of
      (Inr k, t) \<Rightarrow>
        if halted s then k = 0 \<and> t = s
        else k \<le> n \<and> halted t = (k < n) \<and> cycles t = cycles s + of_nat k + of_bool (halted t)
    | (Inl e, t) \<Rightarrow> \<not> halted s \<and> (\<exists>k < n. cycles t = cycles s + of_nat k))"
  by (rule run_count)

lemma run_split:
  "run (m + n) s =
     (case run m s of
        (Inl e, t) \<Rightarrow> (Inl e, t)
      | (Inr k, t) \<Rightarrow> if k < m then (Inr k, t) else plus_steps k (run n t))"
proof (induction m arbitrary: s)
  case (Suc m)
  obtain r t where st: "step s = (r, t)" by (cases "step s")
  show ?case
  proof (cases r)
    case (Inr go)
    obtain q u where "run m t = (q, u)" by (cases "run m t")
    with st Inr Suc.IH [of t] show ?thesis by (cases q) (simp_all add: run_Suc)
  qed (simp add: run_Suc st)
qed simp

text \<open>A run can be cut into batches: running \<open>m + n\<close> steps is running \<open>m\<close> and then, if
  all of them were executed, \<open>n\<close> more, with the counts added, so the loop of a checkpointing
  caller sees the same machine as one uninterrupted run.\<close>

theorem run_batches:
  "run (m + n) s =
     (case run m s of
        (Inl e, t) \<Rightarrow> (Inl e, t)
      | (Inr k, t) \<Rightarrow> if k < m then (Inr k, t) else plus_steps k (run n t))"
  by (rule run_split)

end
