(* ===== verification/Cpu_Maps.thy ===== *)
theory Cpu_Maps
  imports Cpu_Run
begin

text \<open>
  Changes of a machine that no instruction notices: \<open>machine_map\<close> is the interface of such a change,
  and every instruction commutes with it. The theories Cpu_Bounds and Trace interpret it, with
  what lies outside the arrays and with the trace.
\<close>

section \<open>Actions that commute with a change\<close>

definition commutes :: "(machine \<Rightarrow> machine) \<Rightarrow> (machine, 'a) act \<Rightarrow> bool" where
  "commutes G m \<longleftrightarrow> (\<forall>s. m (G s) = apsnd G (m s))"

lemma commutesD: "commutes G m \<Longrightarrow> m (G s) = apsnd G (m s)"
  by (simp add: commutes_def)

lemma commutes_ret [simp]: "commutes G (ret a)"
  and commutes_throw [simp]: "commutes G (throw e)"
  by (simp_all add: commutes_def)

lemma commutes_update: "(\<And>s. h (G s) = G (h s)) \<Longrightarrow> commutes G (update h)"
  by (simp add: commutes_def)

lemma commutes_bind:
  assumes "commutes G m" "\<And>a. commutes G (k a)"
  shows "commutes G (bind_act m k)"
  unfolding commutes_def
proof
  fix s
  obtain r t where "m s = (r, t)" by (cases "m s")
  then show "bind_act m k (G s) = apsnd G (bind_act m k s)"
    using commutesD [OF assms(1)] commutesD [OF assms(2)]
    by (simp add: bind_act_def split: sum.splits)
qed

lemma commutes_seq: "commutes G m \<Longrightarrow> commutes G n \<Longrightarrow> commutes G (seq_act m n)"
  unfolding seq_act_def by (rule commutes_bind)

lemma commutes_if: "commutes G m \<Longrightarrow> commutes G n \<Longrightarrow> commutes G (if b then m else n)"
  by simp

lemma commutes_with_state:
  assumes "\<And>s. k (G s) = k s" "\<And>s. commutes G (k s)"
  shows "commutes G (with_state k)"
  using assms by (simp add: commutes_def)

lemma commutes_for_each: "(\<And>i. i \<in> set is \<Longrightarrow> commutes G (k i)) \<Longrightarrow> commutes G (for_each is k)"
  by (induction "is") (auto intro: commutes_seq)

section \<open>Register numbers\<close>

lemma field_in_regs [simp]: "field i k 0x7 < 16" "field i k 0xF < 16"
  using field_less(1) [of i k] by (linarith, simp add: field_mod)

lemma or_below: "unat x < 2 ^ k \<Longrightarrow> unat y < 2 ^ k \<Longrightarrow> unat (x OR y) < 2 ^ k" for x y :: u16
proof -
  assume "unat x < 2 ^ k" "unat y < 2 ^ k"
  then have "uint x < 2 ^ k" "uint y < 2 ^ k"
    by (simp_all only: unat_eq_nat_uint nat_less_iff uint_ge_0 of_nat_power of_nat_numeral)
  then have "uint (x OR y) < 2 ^ k"
    by (simp only: uint_or) (rule OR_upper; simp)
  then show ?thesis
    by (simp only: unat_eq_nat_uint nat_less_iff uint_ge_0 of_nat_power of_nat_numeral)
qed

lemma hi_rd_in_regs [simp]: "hi_rd i < 16"
proof -
  have "unat (push_bit 3 (w AND 1)) < 2 ^ 4" for w :: u16
  proof -
    have "unat (w AND 1) < 2" by (rule unat_and_less) simp
    then show ?thesis by (simp only: push_bit_eq_mult unat_word_ariths) simp
  qed
  moreover have "unat (i AND 0x7) < 2 ^ 4"
    by (rule unat_and_less) simp
  ultimately show ?thesis
    unfolding hi_rd_def using or_below [where k = 4] by simp
qed

section \<open>The interface\<close>

text \<open>
  The registers below 16, the flags, the halt flag and the BL register are the same; the memory
  is changed by \<open>M\<close>, which its accesses do not notice.
\<close>

locale machine_map =
  fixes G :: "machine \<Rightarrow> machine" and M :: "flat_mem \<Rightarrow> flat_mem"
  assumes map_regs [simp]: "r < 16 \<Longrightarrow> regs (G s) r = regs s r"
    and map_reads [simp]: "apsr (G s) = apsr s" "mem (G s) = M (mem s)" "halted (G s) = halted s" "bl_offset (G s) = bl_offset s"
    and map_writes [simp]: "G (s\<lparr>apsr := a\<rparr>) = (G s)\<lparr>apsr := a\<rparr>" "G (s\<lparr>mem := m\<rparr>) = (G s)\<lparr>mem := M m\<rparr>"
      "G (s\<lparr>halted := h\<rparr>) = (G s)\<lparr>halted := h\<rparr>" "G (s\<lparr>bl_offset := w\<rparr>) = (G s)\<lparr>bl_offset := w\<rparr>"
    and map_reg_write [simp]: "r < 16 \<Longrightarrow> G (s\<lparr>regs := (regs s)(r := v)\<rparr>) = (G s)\<lparr>regs := (regs (G s))(r := v)\<rparr>"
    and map_mem_reads [simp]: "read8 (M m) ad = read8 m ad" "read16 (M m) ad = read16 m ad" "read32 (M m) ad = read32 m ad"
    and map_mem_writes [simp]: "write8 (M m) ad b = map_sum id M (write8 m ad b)"
      "write16 (M m) ad hw = map_sum id M (write16 m ad hw)" "write32 (M m) ad w = map_sum id M (write32 m ad w)"
begin

lemma map_apsr_regs [simp]:
  "r < 16 \<Longrightarrow> G (s\<lparr>apsr := a, regs := (regs s)(r := v)\<rparr>) = (G s)\<lparr>apsr := a, regs := (regs (G s))(r := v)\<rparr>"
  using map_reg_write [where r = r and s = "s\<lparr>apsr := a\<rparr>" and v = v] by simp

lemma map_register_file [simp]:
  "r < 16 \<Longrightarrow> G (set_reg r v s) = set_reg r v (G s)"
  "G (set_sp v s) = set_sp v (G s)" "G (set_pc v s) = set_pc v (G s)" "G (advance_pc s) = advance_pc (G s)"
  "pc (G s) = pc s" "sp (G s) = sp s" "sp (set_reg r v (G s)) = sp (set_reg r v s)"
  by (simp_all add: set_reg_def set_sp_def set_pc_def advance_pc_def pc_def sp_def)

lemma commutes_reads [simp]:
  "commutes G (mem_read read8 x)" "commutes G (mem_read read16 x)" "commutes G (mem_read read32 x)"
  by (simp_all add: commutes_def mem_read_def)

lemma commutes_writes [simp]:
  "commutes G (mem_write write8 x b)" "commutes G (mem_write write16 x h)" "commutes G (mem_write write32 x w)"
  by (auto simp: commutes_def mem_write_def split: sum.splits)

lemma commutes_set_rd [simp]: "r < 16 \<Longrightarrow> commutes G (set_rd r v)"
  by (simp add: set_rd_def commutes_update)

lemma map_if: "G (if b then s else t) = (if b then G s else G t)"
  by simp

lemma map_alu_arith:
  "r < 16 \<Longrightarrow> exec_alu_arith op r a b (G s) = G (exec_alu_arith op r a b s)"
  unfolding exec_alu_arith_def Let_def case_prod_unfold map_if by simp

lemma map_alu_shift:
  "r < 16 \<Longrightarrow> exec_alu_shift op r a b (G s) = G (exec_alu_shift op r a b s)"
  unfolding exec_alu_shift_def Let_def case_prod_unfold by simp

lemma commutes_alu: "commutes G (exec_alu i)"
  unfolding exec_alu_def Let_def
  by (rule commutes_update) (simp add: map_alu_arith map_alu_shift map_if cong: if_cong)

lemma commutes_updates:
  "commutes G (exec_add_sub i)" "commutes G (exec_imm8 i)"
  "commutes G (exec_add_sp_pc i)" "commutes G (exec_sp_ops i)" "commutes G (exec_branch_cond i)"
  "commutes G (exec_branch i)" "commutes G (exec_bl_upper i)" "commutes G (exec_bl_lower i)"
  "commutes G (exec_hi_reg_bx i)"
  unfolding exec_add_sub_def exec_imm8_def exec_add_sp_pc_def exec_sp_ops_def
    exec_branch_cond_def exec_branch_def exec_bl_upper_def exec_bl_lower_def exec_hi_reg_bx_def
  by (rule commutes_update, simp add: Let_def case_prod_unfold map_if reg_index)+

lemma commutes_shift: "commutes G (exec_shift_imm i)"
  unfolding exec_shift_imm_def Let_def
  by (intro commutes_with_state commutes_if commutes_update commutes_throw) simp_all

lemma commutes_loads:
  "commutes G (exec_ldr_pc i)" "commutes G (exec_ldr_str_reg i)" "commutes G (exec_ldr_str_imm i)"
  "commutes G (exec_ldrh_strh_imm i)" "commutes G (exec_ldr_str_sp i)"
  unfolding exec_ldr_pc_def exec_ldr_str_reg_def exec_ldr_str_imm_def exec_ldrh_strh_imm_def
    exec_ldr_str_sp_def Let_def
  by (rule commutes_with_state; simp add: commutes_bind)+

lemma commutes_regs:
  "r < 16 \<Longrightarrow> commutes G (push_reg r)" "r < 16 \<Longrightarrow> commutes G (pop_reg r)" "commutes G pop_pc"
  unfolding push_reg_def pop_reg_def pop_pc_def Let_def
  by (intro commutes_seq commutes_with_state commutes_bind commutes_update commutes_reads
      commutes_writes; simp add: map_if)+

lemma commutes_ldm_stm:
  "\<forall>r \<in> set is. r < 16 \<Longrightarrow> rb < 16 \<Longrightarrow> commutes G (ldm_stm_loop L rb rl is addr)"
proof (induction "is" arbitrary: addr)
  case (Cons i "is")
  then show ?case
    unfolding ldm_stm_loop.simps
    by (intro commutes_if commutes_seq commutes_bind commutes_with_state commutes_reads
        commutes_writes commutes_set_rd) simp_all
qed (simp add: ldm_stm_loop.simps)

lemma commutes_transfer: "commutes G (exec_push_pop i)" "commutes G (exec_ldm_stm i)"
  unfolding exec_push_pop_def exec_ldm_stm_def Let_def
  by (intro commutes_if commutes_seq commutes_for_each commutes_regs commutes_ret
      commutes_with_state commutes_ldm_stm; auto)+

lemma commutes_execute: "commutes G (execute i)"
  unfolding execute_def Let_def
  by (intro commutes_if commutes_updates commutes_alu commutes_shift commutes_loads commutes_transfer
      commutes_ret commutes_throw)

end

end
