(* ===== verification/Cpu_Bounds.thy ===== *)
theory Cpu_Bounds
  imports Cpu_Maps
begin

text \<open>
  No access outside the arrays. \<open>regs\<close> and \<open>bytes\<close> are functions on all indices, the
  program's \<open>regs_\<close> has 16 elements and \<open>data_\<close> 64 Ki. \<open>pad f g\<close> replaces everything
  outside them by arbitrary values; an action that commutes with every such change neither
  reads nor writes outside the arrays.
\<close>

section \<open>Changing what is outside the arrays\<close>

definition pad_mem :: "(nat \<Rightarrow> u8) \<Rightarrow> flat_mem \<Rightarrow> flat_mem" where
  "pad_mem g m = m\<lparr>bytes := (\<lambda>i. if i < SIZE then bytes m i else g i)\<rparr>"

definition pad :: "(nat \<Rightarrow> u32) \<Rightarrow> (nat \<Rightarrow> u8) \<Rightarrow> machine \<Rightarrow> machine" where
  "pad f g s = s\<lparr>regs := (\<lambda>r. if r < 16 then regs s r else f r), mem := pad_mem g (mem s)\<rparr>"

lemma pad_reads [simp]:
  "r < 16 \<Longrightarrow> regs (pad f g s) r = regs s r"
  "apsr (pad f g s) = apsr s" "cycles (pad f g s) = cycles s" "mem (pad f g s) = pad_mem g (mem s)"
  "trace_cb (pad f g s) = trace_cb s" "halted (pad f g s) = halted s"
  "bl_offset (pad f g s) = bl_offset s"
  by (simp_all add: pad_def)

lemma pad_writes [simp]:
  "pad f g (s\<lparr>apsr := a\<rparr>) = (pad f g s)\<lparr>apsr := a\<rparr>"
  "pad f g (s\<lparr>cycles := c\<rparr>) = (pad f g s)\<lparr>cycles := c\<rparr>"
  "pad f g (s\<lparr>mem := m\<rparr>) = (pad f g s)\<lparr>mem := pad_mem g m\<rparr>"
  "pad f g (s\<lparr>trace_cb := t\<rparr>) = (pad f g s)\<lparr>trace_cb := t\<rparr>"
  "pad f g (s\<lparr>halted := h\<rparr>) = (pad f g s)\<lparr>halted := h\<rparr>"
  "pad f g (s\<lparr>bl_offset := w\<rparr>) = (pad f g s)\<lparr>bl_offset := w\<rparr>"
  by (simp_all add: pad_def cong: if_cong)

lemma pad_reg_write [simp]:
  "r < 16 \<Longrightarrow> pad f g (s\<lparr>regs := (regs s)(r := v)\<rparr>) =
     (pad f g s)\<lparr>regs := (regs (pad f g s))(r := v)\<rparr>"
  "r < 16 \<Longrightarrow> pad f g (s\<lparr>apsr := a, regs := (regs s)(r := v)\<rparr>) =
     (pad f g s)\<lparr>apsr := a, regs := (regs (pad f g s))(r := v)\<rparr>"
  by (auto simp: pad_def fun_eq_iff intro!: machine.equality)

section \<open>Memory accesses\<close>

lemma pad_mem_bytes [simp]: "i < SIZE \<Longrightarrow> bytes (pad_mem g m) i = bytes m i"
  by (simp add: pad_mem_def)

lemma pad_reads_mem [simp]:
  "read8 (pad_mem g m) a = read8 m a" "read16 (pad_mem g m) a = read16 m a"
  "read32 (pad_mem g m) a = read32 m a"
  by (auto simp: read8_def read16_def read32_def dest!: translate_bound split: sum.splits)

lemma pad_copy:
  "i + length bs \<le> SIZE \<Longrightarrow>
   copy_bytes (bytes (pad_mem g m)) i bs = bytes (pad_mem g (m\<lparr>bytes := copy_bytes (bytes m) i bs\<rparr>))"
  by (auto simp: pad_mem_def copy_bytes_apply fun_eq_iff)

lemma flat_mem_ext: "m\<lparr>bytes := x\<rparr> = (m' :: flat_mem) \<longleftrightarrow> bytes m' = x"
  by (cases m, cases m') auto

lemma pad_writes_mem [simp]:
  "write8 (pad_mem g m) a b = map_sum id (pad_mem g) (write8 m a b)"
  "write16 (pad_mem g m) a h = map_sum id (pad_mem g) (write16 m a h)"
  "write32 (pad_mem g m) a w = map_sum id (pad_mem g) (write32 m a w)"
  by (auto simp: write8_def write16_def write32_def flat_mem_ext pad_copy pad_mem_def fun_eq_iff
      copy_bytes_apply dest!: translate_bound split: sum.splits)

section \<open>Every instruction\<close>

interpretation padded: machine_map "pad f g" "pad_mem g" for f g
  by unfold_locales simp_all

lemma step_pad: "commutes (pad f g) step"
  unfolding step_def fetch_def Let_def
  by (intro commutes_with_state commutes_if commutes_bind commutes_seq commutes_update
      padded.commutes_reads commutes_ret padded.commutes_execute)
    (simp_all add: call_trace_def split: option.splits)

text \<open>C35. No step reads or writes outside the register file of 16 words and the memory array of
  64 KiB, whatever instruction it executes and wherever the program counter, the stack pointer
  and the address registers point: changing everything outside the arrays commutes with the
  step.\<close>

theorem step_in_bounds: "step (pad f g s) = apsnd (pad f g) (step s)"
  by (rule commutesD [OF step_pad])

end
