(* ===== verification/Cpu_Shifts.thy ===== *)
theory Cpu_Shifts
  imports Cpu_Exec
begin

text \<open>
  The shift instructions (format 1, and LSL, LSR, ASR and ROR of format 4) against arithmetic:
  a shift is a multiplication or division by a power of two, the carry is the last bit that
  leaves the word, for every amount from 0 to 255.
\<close>

section \<open>Bits as remainders\<close>

lemma test_bit_u32: "(drop_bit n a AND 1 \<noteq> 0) = bit a n" for a :: u32
  by (auto simp: and_one_eq bit_iff_odd_drop_bit mod_2_eq_odd)

lemma top_bit_bit: "top_bit a = bit a 31"
  by (simp add: top_bit_def MSB_POS_def test_bit_u32)

lemma bit_odd_unat: "bit a n \<longleftrightarrow> odd (unat a div 2 ^ n)" for a :: u32
  by (simp add: bit_unsigned_iff flip: bit_iff_odd)

lemma sint_bits: "odd (sint a div 2 ^ n) \<longleftrightarrow> bit a (min n 31)" for a :: u32
proof (cases "n \<le> 31")
  case True
  then show ?thesis by (auto simp: bit_sint_iff min_def simp flip: bit_iff_odd)
next
  case False
  then show ?thesis
    by (auto simp: bit_sint_iff min_def dest: bit_imp_le_length simp flip: bit_iff_odd)
qed

definition shift_spec :: "nat \<Rightarrow> u32 \<Rightarrow> nat \<Rightarrow> u32 \<times> bool" where
  "shift_spec op a sh =
     (if op = 2 then (of_nat (unat a * 2 ^ sh), odd (unat a * 2 ^ sh div 2 ^ 32))
      else if op = 3 then (of_nat (unat a div 2 ^ sh), odd (unat a div 2 ^ (sh - 1)))
      else if op = 4 then (of_int (sint a div 2 ^ sh), odd (sint a div 2 ^ (sh - 1)))
      else (word_rotr sh a, bit (word_rotr sh a) 31))"

lemma shl_word: "of_nat (unat a * 2 ^ sh) = push_bit sh a" for a :: u32
  by (simp add: push_bit_eq_mult)

lemma shr_word: "of_nat (unat a div 2 ^ sh) = drop_bit sh a" for a :: u32
proof -
  have "unat (drop_bit sh a) = unat a div 2 ^ sh"
    unfolding unat_drop_bit_eq by (simp only: drop_bit_eq_div)
  moreover have "of_nat (unat (drop_bit sh a)) = drop_bit sh a" by simp
  ultimately show ?thesis by (simp only:)
qed

lemma asr_word: "of_int (sint a div 2 ^ sh) = signed_drop_bit sh a" for a :: u32
proof -
  have "sint (signed_drop_bit sh a) = sint a div 2 ^ sh"
    by (simp add: sint_signed_drop_bit_eq drop_bit_eq_div)
  moreover have "of_int (sint (signed_drop_bit sh a)) = signed_drop_bit sh a" by simp
  ultimately show ?thesis by (simp only:)
qed

lemma out_left: "odd (unat a * 2 ^ sh div 2 ^ 32) \<longleftrightarrow> sh \<le> 32 \<and> bit a (32 - sh)" for a :: u32
proof (cases "sh \<le> 32")
  case True
  then have "(2 :: nat) ^ 32 = 2 ^ (32 - sh) * 2 ^ sh" by (simp flip: power_add)
  then have "unat a * 2 ^ sh div 2 ^ 32 = unat a div 2 ^ (32 - sh)" 
    by (simp only:) (rule div_mult_mult2, simp)
  with True show ?thesis by (simp add: bit_odd_unat)
next
  case False
  then have "(2 :: nat) ^ sh = 2 ^ (sh - 32) * 2 ^ 32"
    by (subst power_add [symmetric]) simp
  then have "unat a * 2 ^ sh div 2 ^ 32 = unat a * 2 ^ (sh - 32)" by (simp only: mult.assoc [symmetric]) simp
  with False show ?thesis by simp
qed

text \<open>The rotation of the code, by parts, for amounts from 1 to 31.\<close>

lemma rotation_parts:
  "0 < r \<Longrightarrow> r < 32 \<Longrightarrow> drop_bit r a OR push_bit (32 - r) a = word_rotr r a" for a :: u32
proof (rule bit_word_eqI)
  fix n assume "0 < r" "r < 32" "n < LENGTH(32)"
  then show "bit (drop_bit r a OR push_bit (32 - r) a) n = bit (word_rotr r a) n"
    by (auto simp: bit_word_rotr_iff bit_simps mod_if add.commute [of n r]
        dest: bit_imp_le_length)
qed

lemma rotation_mod: "word_rotr (sh mod 32) a = word_rotr sh a" for a :: u32
  by (rule bit_word_eqI) (simp add: bit_word_rotr_iff mod_add_right_eq)

lemma rotation_0: "word_rotr 0 a = a" for a :: u32
  by (rule bit_word_eqI) (simp add: bit_word_rotr_iff)

lemma rotation_top: "bit (word_rotr sh a) 31 = bit a ((31 + sh) mod 32)" for a :: u32
  by (simp add: bit_word_rotr_iff)

lemma small_amount: "unat ((of_nat n :: u8) AND 0x1F) = n mod 32"
proof -
  have "unat ((of_nat n :: u8) AND mask 5) = unat (of_nat n :: u8) mod 32"
    by (simp only: take_bit_eq_mask [symmetric] unsigned_take_bit_eq) (simp add: take_bit_eq_mod)
  also have "\<dots> = n mod 256 mod 32" by (simp add: unat_of_nat)
  finally show ?thesis by (simp add: mask_eq_exp_minus_1 mod_mod_cancel)
qed

lemma shifted_state:
  "s\<lparr>apsr := update_nz r ((apsr s)\<lparr>C := c\<rparr>), regs := R\<rparr> =
   s\<lparr>apsr := \<lparr>N = bit r 31, Z = r = 0, C = c, V = V (apsr s)\<rparr>, regs := R\<rparr>"
  by (simp add: update_nz_def test_bit_u32)

lemma shift_spec_words:
  "shift_spec 2 a sh = (push_bit sh a, sh \<le> 32 \<and> bit a (32 - sh))"
  "shift_spec 3 a sh = (drop_bit sh a, bit a (sh - 1))"
  "shift_spec 4 a sh = (signed_drop_bit sh a, bit a (min (sh - 1) 31))"
  unfolding shift_spec_def shl_word shr_word asr_word out_left sint_bits
  by (simp_all add: bit_odd_unat)

lemma shift_spec_ror:
  "op \<noteq> 2 \<Longrightarrow> op \<noteq> 3 \<Longrightarrow> op \<noteq> 4 \<Longrightarrow> shift_spec op a sh = (word_rotr sh a, bit a ((31 + sh) mod 32))"
  by (simp add: shift_spec_def rotation_top)

lemma zeros_out: "32 \<le> sh \<Longrightarrow> push_bit sh a = 0" "32 \<le> sh \<Longrightarrow> drop_bit sh a = 0" for a :: u32
  by (rule bit_word_eqI; auto simp: bit_simps dest: bit_imp_le_length)+

lemma signs_out: "31 < sh \<Longrightarrow> signed_drop_bit sh a = signed_drop_bit 31 a" for a :: u32
proof (rule bit_word_eqI)
  fix n assume "31 < sh" "n < LENGTH(32)"
  then show "bit (signed_drop_bit sh a) n = bit (signed_drop_bit 31 a) n"
    by (cases "n = 0"; cases "sh = 31") (auto simp: bit_signed_drop_bit_iff)
qed

lemmas shifted_out = zeros_out signs_out

lemma test_bit_0: "(a AND 1 \<noteq> 0) = bit a 0" for a :: u32
  using test_bit_u32 [of 0 a] by simp

lemma bit_beyond: "32 \<le> n \<Longrightarrow> \<not> bit a n" for a :: u32
  using bit_imp_le_length [of a n] by auto

lemma ror_cases:
  fixes a :: u32
  assumes "0 < sh"
  shows "sh mod 32 = 0 \<Longrightarrow> word_rotr sh a = a" "sh mod 32 = 0 \<Longrightarrow> (31 + sh) mod 32 = 31"
    "sh mod 32 \<noteq> 0 \<Longrightarrow> word_rotr sh a = drop_bit (sh mod 32) a OR push_bit (32 - sh mod 32) a"
    "sh mod 32 \<noteq> 0 \<Longrightarrow> (31 + sh) mod 32 = sh mod 32 - 1"
proof -
  show "sh mod 32 = 0 \<Longrightarrow> word_rotr sh a = a"
    using rotation_mod [of sh a] rotation_0 [of a] by (simp only:)
  have m: "(31 + sh) mod 32 = (31 + sh mod 32) mod 32"
    by (simp only: mod_add_right_eq)
  then show "sh mod 32 = 0 \<Longrightarrow> (31 + sh) mod 32 = 31" by simp
  have l: "sh mod 32 < 32" by simp
  assume "sh mod 32 \<noteq> 0"
  with l have "(31 + sh mod 32) mod 32 = sh mod 32 - 1"
    by (simp add: le_mod_geq [of 32 "31 + sh mod 32"])
  with m show "(31 + sh) mod 32 = sh mod 32 - 1" by (simp only:)
next
  show "sh mod 32 \<noteq> 0 \<Longrightarrow> word_rotr sh a = drop_bit (sh mod 32) a OR push_bit (32 - sh mod 32) a"
    using rotation_mod [of sh a] rotation_parts [of "sh mod 32" a] mod_less_divisor [of 32 sh]
    by (simp only: neq0_conv zero_less_numeral)
qed

lemma exec_alu_shift_spec:
  "exec_alu_shift op rd a b s =
     (let sh = unat (b AND 0xFF); (r, c) = shift_spec op a sh
      in s\<lparr>apsr := \<lparr>N = bit r 31, Z = r = 0, C = if sh = 0 then C (apsr s) else c,
                       V = V (apsr s)\<rparr>,
           regs := (regs s)(rd := r)\<rparr>)"
proof -
  obtain sh where sh: "unat (b AND 0xFF) = sh" by blast
  consider (none) "sh = 0" | (some) "0 < sh" "sh < 32" | (all) "sh = 32" | (beyond) "32 < sh" by linarith
  note amount = this
  consider "op = 2" | "op = 3" | "op = 4" | "op \<noteq> 2" "op \<noteq> 3" "op \<noteq> 4" by blast
  then show ?thesis
  proof cases
    case 1
    then show ?thesis
      unfolding exec_alu_shift_def sh Let_def test_bit_u32 test_bit_0 top_bit_bit shifted_state
      by (cases rule: amount) (simp_all add: shift_spec_words shifted_out bit_drop_bit_eq del: bit_0)
  next
    case 2
    then show ?thesis
      unfolding exec_alu_shift_def sh Let_def test_bit_u32 top_bit_bit shifted_state
      by (cases rule: amount) (simp_all add: shift_spec_words shifted_out bit_beyond)
  next
    case 3
    then show ?thesis
      unfolding exec_alu_shift_def sh Let_def test_bit_u32 top_bit_bit shifted_state
      by (cases rule: amount) (simp_all add: shift_spec_words signs_out MSB_POS_def)
  next
    case 4
    obtain r where r: "sh mod 32 = r" by blast
    let ?f = "\<lambda>c result. s\<lparr>apsr := \<lparr>N = bit result 31, Z = result = 0, C = c, V = V (apsr s)\<rparr>,
      regs := (regs s)(rd := result)\<rparr>"
    have code: "exec_alu_shift op rd a b s =
        (if sh = 0 then ?f (C (apsr s)) a else if r = 0 then ?f (bit a 31) a
         else ?f (bit a (r - 1)) (drop_bit r a OR push_bit (32 - r) a))"
      unfolding exec_alu_shift_def sh Let_def test_bit_u32 top_bit_bit shifted_state small_amount r
      using 4 by simp
    have spec: "word_rotr sh a = (if r = 0 then a else drop_bit r a OR push_bit (32 - r) a)"
      "(31 + sh) mod 32 = (if r = 0 then 31 else r - 1)" if "sh \<noteq> 0"
      using ror_cases(1,3) [of sh a] ror_cases(2,4) [of sh] that unfolding r by simp_all
    show ?thesis
      unfolding code sh Let_def shift_spec_ror [OF 4]
      by (cases "sh = 0") (simp_all add: spec rotation_0)
  qed
qed

section \<open>Format 1\<close>

lemma imm5_less: "field i 6 0x1F < 32"
  by (simp add: field_mod)

lemma small_word: "n < 256 \<Longrightarrow> unat ((of_nat n :: u32) AND 0xFF) = n"
proof -
  assume n: "n < 256"
  have "unat ((of_nat n :: u32) AND mask 8) = unat (of_nat n :: u32) mod 256"
    by (simp only: take_bit_eq_mask [symmetric] unsigned_take_bit_eq) (simp add: take_bit_eq_mod)
  with n show ?thesis by (simp add: mask_eq_exp_minus_1 unat_of_nat)
qed

text \<open>C33. The shifts are arithmetic. LSL, LSR, ASR and ROR by register compute, for every amount
  from 0 to 255, the product or quotient by the power of two (the rotation for ROR), with the
  last bit shifted out in C, C kept for the amount 0, V kept, N and Z of the result; and the
  immediate forms of format 1 are the register forms, with the amount 0 of LSR and ASR read as
  32.\<close>

theorem shifts_are_arithmetic:
  "exec_alu_shift op rd a b s =
     (let sh = unat (b AND 0xFF); (r, c) = shift_spec op a sh
      in s\<lparr>apsr := \<lparr>N = bit r 31, Z = r = 0, C = if sh = 0 then C (apsr s) else c,
                       V = V (apsr s)\<rparr>,
           regs := (regs s)(rd := r)\<rparr>) \<and>
   exec_shift_imm i s =
     (let op = field i 11 0x3; n = field i 6 0x1F
      in if op = 3 then (Inl (UndefinedInstructionException i), s)
         else (Inr (), exec_alu_shift (op + 2) (field i 0 0x7) (regs s (field i 3 0x7))
                         (of_nat (if 0 < op \<and> n = 0 then 32 else n)) s))"
proof
  obtain n where n: "field i 6 0x1F = n" "n < 32" using imm5_less by blast
  obtain op' where op': "field i 11 0x3 = op'" "op' < 4" using field_less(2) by blast
  then consider "op' = 0" | "op' = 1" | "op' = 2" | "op' = 3" by linarith
  then show "exec_shift_imm i s =
     (let op = field i 11 0x3; n = field i 6 0x1F
      in if op = 3 then (Inl (UndefinedInstructionException i), s)
         else (Inr (), exec_alu_shift (op + 2) (field i 0 0x7) (regs s (field i 3 0x7))
                         (of_nat (if 0 < op \<and> n = 0 then 32 else n)) s))"
    using n(2) small_word [of n] small_word [of 32]
    by cases (simp_all add: exec_shift_imm_def exec_alu_shift_def n(1) op'(1) Let_def MSB_POS_def)
qed (rule exec_alu_shift_spec)

end
