(* ===== verification/Cpu_Memory.thy ===== *)
theory Cpu_Memory
  imports Cpu_Exec
begin

text \<open>
  The loads and stores of single registers (formats 6 to 11 of src/src/cpu.cpp) against a reference
  on bytes and numbers: which instruction accesses how many bytes at which address, and the value
  of these bytes in little-endian order. On it the round trip from any store to any load.
\<close>

section \<open>Bytes and numbers\<close>

text \<open>The value of bytes in little-endian order, and the bytes of a value.\<close>

definition le_value :: "u8 list \<Rightarrow> nat" where
  "le_value bs = foldr (\<lambda>b v. unat b + 256 * v) bs 0"

definition le_byte :: "nat \<Rightarrow> nat \<Rightarrow> u8" where
  "le_byte v j = of_nat (v div 256 ^ j)"

lemma le_value_simps [simp]: "le_value [] = 0" "le_value (b # bs) = unat b + 256 * le_value bs"
  by (simp_all add: le_value_def)

lemma unat_le_byte: "unat (le_byte v j) = v div 256 ^ j mod 256"
  by (simp add: le_byte_def unat_of_nat)

lemma le_value_bytes: "le_value (map (le_byte v) [0 ..< n]) = v mod 256 ^ n"
proof -
  have "le_value (map (\<lambda>j. le_byte v (i + j)) [0 ..< n]) = v div 256 ^ i mod 256 ^ n" for i
  proof (induction n arbitrary: i)
    case (Suc n)
    have "le_value (map (\<lambda>j. le_byte v (i + j)) [0 ..< Suc n]) =
        v div 256 ^ i mod 256 + 256 * (v div 256 ^ Suc i mod 256 ^ n)"
      unfolding map_upt_Suc le_value_simps unat_le_byte using Suc.IH [of "Suc i"] by simp
    also have "\<dots> = v div 256 ^ i mod 256 ^ Suc n"
      by (simp add: mod_mult2_eq div_mult2_eq [symmetric] mult.commute)
    finally show ?case .
  qed simp
  from this [of 0] show ?thesis by simp
qed

lemma byte_le: "byte k w = le_byte (unat w) k" for w :: "'a::len word"
  by (rule word_unat_eq_iff [THEN iffD2])
    (simp add: byte_def unat_le_byte unsigned_ucast_eq take_bit_eq_mod unat_drop_bit_eq drop_bit_eq_div [where 'a = nat] power_mult)

lemma upt_few: "[0 ..< 2] = [0, 1]" "[0 ..< 4] = [0, 1, 2, 3]"
  "[k ..< k + 1] = [k]" "[k ..< k + 2] = [k, k + 1]" "[k ..< k + 4] = [k, k + 1, k + 2, k + 3]"
  "[k ..< Suc k] = [k]" "[k ..< Suc (Suc k)] = [k, Suc k]"
  by (simp_all add: upt_rec)

lemma byte_ucast: "8 * k + 8 \<le> LENGTH('b) \<Longrightarrow> byte k (ucast w :: 'b::len word) = byte k w" for w :: "'a::len word"
  by (rule bit_word_eqI) (auto simp: bit_byte bit_simps)

lemma le_value_word:
  "bs = map (\<lambda>j. byte j w) [0 ..< n] \<Longrightarrow> 8 * n = LENGTH('a) \<Longrightarrow> le_value bs = unat w" for w :: "'a::len word"
proof -
  assume bs: "bs = map (\<lambda>j. byte j w) [0 ..< n]" and n: "8 * n = LENGTH('a)"
  have "(256 :: nat) ^ n = 2 ^ LENGTH('a)" unfolding n [symmetric] power_mult by simp
  moreover have "unat w < 2 ^ LENGTH('a)" by (rule unsigned_less)
  ultimately show ?thesis unfolding bs byte_le le_value_bytes by simp
qed

lemma join_le:
  "ucast b0 = (of_nat (le_value [b0]) :: u32)"
  "ucast (join16 b0 b1) = (of_nat (le_value [b0, b1]) :: u32)"
  "join32 b0 b1 b2 b3 = of_nat (le_value [b0, b1, b2, b3])"
proof -
  have "le_value [b0, b1] = unat (join16 b0 b1)"
    by (rule le_value_word [where n = 2]) (simp_all add: upt_few)
  then show "ucast (join16 b0 b1) = (of_nat (le_value [b0, b1]) :: u32)" by (simp only: of_nat_unat)
  have "le_value [b0, b1, b2, b3] = unat (join32 b0 b1 b2 b3)"
    by (rule le_value_word [where n = 4]) (simp_all add: upt_few)
  then show "join32 b0 b1 b2 b3 = of_nat (le_value [b0, b1, b2, b3])" by (simp only: of_nat_unat) simp
qed simp

section \<open>The reference\<close>

text \<open>
  What an instruction transfers: the number of bytes, the register, the address. The table is that
  of the architecture manual; the register 15 holds the address of the next instruction.
\<close>

datatype transfer = Load nat nat u32 | Store nat nat u32

definition transfer_of :: "u16 \<Rightarrow> (nat \<Rightarrow> u32) \<Rightarrow> transfer option" where
  "transfer_of i r =
     (let n = unat i; rd = n mod 8; indexed = r (n div 8 mod 8) + r (n div 64 mod 8);
          plus = (\<lambda>size. r (n div 8 mod 8) + of_nat (size * (n div 64 mod 32)));
          rt = n div 256 mod 8; imm = of_nat (4 * (n mod 256))
      in if n div 2048 = 0x09 then Some (Load 4 rt (of_nat (unat (r 15 + 2) div 4 * 4) + imm))
         else if n div 512 = 0x28 then Some (Store 4 rd indexed)
         else if n div 512 = 0x2A then Some (Store 1 rd indexed)
         else if n div 512 = 0x2C then Some (Load 4 rd indexed)
         else if n div 512 = 0x2E then Some (Load 1 rd indexed)
         else if n div 2048 = 0x0C then Some (Store 4 rd (plus 4))
         else if n div 2048 = 0x0D then Some (Load 4 rd (plus 4))
         else if n div 2048 = 0x0E then Some (Store 1 rd (plus 1))
         else if n div 2048 = 0x0F then Some (Load 1 rd (plus 1))
         else if n div 2048 = 0x10 then Some (Store 2 rd (plus 2))
         else if n div 2048 = 0x11 then Some (Load 2 rd (plus 2))
         else if n div 2048 = 0x12 then Some (Store 4 rt (r 13 + imm))
         else if n div 2048 = 0x13 then Some (Load 4 rt (r 13 + imm))
         else None)"

text \<open>The cells of \<open>n\<close> bytes at an address, if they lie in the array.\<close>

definition cells_at :: "u32 \<Rightarrow> nat \<Rightarrow> nat option" where
  "cells_at a n = (case flat_index a of None \<Rightarrow> None | Some k \<Rightarrow> if k + n \<le> SIZE then Some k else None)"

definition do_transfer :: "transfer \<Rightarrow> machine \<Rightarrow> (exn + unit) \<times> machine" where
  "do_transfer x s =
     (case x of
        Load n rd a \<Rightarrow>
          (case cells_at a n of
             None \<Rightarrow> (Inl (BusFaultException a), s)
           | Some k \<Rightarrow> (Inr (), s\<lparr>regs := (regs s)(rd := of_nat (le_value (map (bytes (mem s)) [k ..< k + n])))\<rparr>))
      | Store n rd a \<Rightarrow>
          (case cells_at a n of
             None \<Rightarrow> (Inl (BusFaultException a), s)
           | Some k \<Rightarrow> (Inr (), s\<lparr>mem := \<lparr>bytes = \<lambda>j. if k \<le> j \<and> j < k + n then le_byte (unat (regs s rd)) (j - k)
                                                   else bytes (mem s) j\<rparr>\<rparr>)))"

section \<open>Reads and writes\<close>

lemma translate_index:
  "(case translate a of Inl e \<Rightarrow> Inl e | Inr f \<Rightarrow> if unat f + n > SIZE then Inl (BusFaultException a) else Inr (g (unat f))) =
   (case cells_at a n of None \<Rightarrow> Inl (BusFaultException a) | Some k \<Rightarrow> Inr (g k))"
  by (auto simp: cells_at_def flat_index_def dest: translate_Inl split: sum.splits)

lemma index_below: "flat_index a = Some k \<Longrightarrow> k < SIZE"
  by (auto simp: flat_index_def dest: translate_bound split: sum.splits)

lemma accesses:
  "read8 m a = (case cells_at a 1 of None \<Rightarrow> Inl (BusFaultException a) | Some k \<Rightarrow> Inr (bytes m k))"
  "read16 m a = (case cells_at a 2 of None \<Rightarrow> Inl (BusFaultException a) | Some k \<Rightarrow> Inr (join16 (bytes m k) (bytes m (k + 1))))"
  "read32 m a = (case cells_at a 4 of None \<Rightarrow> Inl (BusFaultException a)
     | Some k \<Rightarrow> Inr (join32 (bytes m k) (bytes m (k + 1)) (bytes m (k + 2)) (bytes m (k + 3))))"
  "write8 m a b = (case cells_at a 1 of None \<Rightarrow> Inl (BusFaultException a) | Some k \<Rightarrow> Inr (m\<lparr>bytes := copy_bytes (bytes m) k [b]\<rparr>))"
  "write16 m a h = (case cells_at a 2 of None \<Rightarrow> Inl (BusFaultException a)
     | Some k \<Rightarrow> Inr (m\<lparr>bytes := copy_bytes (bytes m) k (map (\<lambda>j. byte j h) [0 ..< 2])\<rparr>))"
  "write32 m a w = (case cells_at a 4 of None \<Rightarrow> Inl (BusFaultException a)
     | Some k \<Rightarrow> Inr (m\<lparr>bytes := copy_bytes (bytes m) k (map (\<lambda>j. byte j w) [0 ..< 4])\<rparr>))"
  by (auto simp: read8_def read16_def read32_def write8_def write16_def write32_def cells_at_def flat_index_def
      upt_few dest: translate_Inl translate_bound split: sum.splits)

lemma reads_cells:
  "bind_act (mem_read read8 a) (\<lambda>v. set_rd rd (ucast v)) s = do_transfer (Load 1 rd a) s"
  "bind_act (mem_read read16 a) (\<lambda>v. set_rd rd (ucast v)) s = do_transfer (Load 2 rd a) s"
  "bind_act (mem_read read32 a) (set_rd rd) s = do_transfer (Load 4 rd a) s"
  by (simp_all add: do_transfer_def bind_act_def mem_read_def set_rd_def update_def set_reg_def accesses join_le
      upt_few del: le_value_simps upt_Suc split: option.split)

lemma copy_le:
  "(\<And>j. j < n \<Longrightarrow> byte j w = le_byte v j) \<Longrightarrow>
   copy_bytes d k (map (\<lambda>j. byte j w) [0 ..< n]) = (\<lambda>j. if k \<le> j \<and> j < k + n then le_byte v (j - k) else d j)"
  for w :: "'a::len word"
  by (rule ext) (simp add: copy_bytes_apply less_diff_conv2)

lemma low_bytes:
  "byte j (ucast (w AND 0xFF) :: u8) = le_byte (unat w) j" if "j < 1" for w :: u32
proof -
  have "(0xFF :: u32) = mask 8" by (simp add: mask_eq_exp_minus_1)
  then have "byte 0 (ucast (w AND 0xFF) :: u8) = byte 0 w"
    by (simp only: \<open>0xFF = mask 8\<close>) (rule bit_word_eqI, auto simp: bit_byte bit_simps)
  with that show ?thesis by (simp add: byte_le)
qed

lemma low_halves:
  "byte j (ucast (w AND 0xFFFF) :: u16) = le_byte (unat w) j" if "j < 2" for w :: u32
proof -
  have "(0xFFFF :: u32) = mask 16" by (simp add: mask_eq_exp_minus_1)
  then have "byte j (ucast (w AND 0xFFFF) :: u16) = byte j w"
    by (simp only: \<open>0xFFFF = mask 16\<close>) (rule bit_word_eqI, use that in \<open>auto simp: bit_byte bit_simps\<close>)
  then show ?thesis by (simp add: byte_le)
qed

lemma writes_cells:
  "mem_write write8 a (ucast (regs s rd AND 0xFF)) s = do_transfer (Store 1 rd a) s"
  "mem_write write16 a (ucast (regs s rd AND 0xFFFF)) s = do_transfer (Store 2 rd a) s"
  "mem_write write32 a (regs s rd) s = do_transfer (Store 4 rd a) s"
proof -
  have b: "[b] = map (\<lambda>j. byte j b) [0 ..< 1]" for b :: u8 by (simp add: byte_def)
  have m: "m\<lparr>bytes := f\<rparr> = \<lparr>bytes = f\<rparr>" for m :: flat_mem and f by (cases m) simp
  have c: "copy_bytes d k [ucast (w AND 0xFF)] = (\<lambda>j. if k \<le> j \<and> j < k + 1 then le_byte (unat w) (j - k) else d j)"
    "copy_bytes d k (map (\<lambda>j. byte j (ucast (w AND 0xFFFF) :: u16)) [0 ..< 2]) =
       (\<lambda>j. if k \<le> j \<and> j < k + 2 then le_byte (unat w) (j - k) else d j)"
    "copy_bytes d k (map (\<lambda>j. byte j w) [0 ..< 4]) =
       (\<lambda>j. if k \<le> j \<and> j < k + 4 then le_byte (unat w) (j - k) else d j)" for d k and w :: u32
    by (subst b, rule copy_le, erule low_bytes, rule copy_le, erule low_halves, rule copy_le, rule byte_le)
  show "mem_write write8 a (ucast (regs s rd AND 0xFF)) s = do_transfer (Store 1 rd a) s"
    "mem_write write16 a (ucast (regs s rd AND 0xFFFF)) s = do_transfer (Store 2 rd a) s"
    "mem_write write32 a (regs s rd) s = do_transfer (Store 4 rd a) s"
    unfolding mem_write_def do_transfer_def accesses m transfer.case
    by (simp_all only: sum.case c option.case split: option.split) simp_all
qed

section \<open>Decoding\<close>

lemma unat_u16: "unat i < 65536" for i :: u16
  using unsigned_less [where w = i and 'a = nat] by simp

lemma top_fields:
  "field i 11 0x1F = unat i div 2048" "field i 12 0xF = unat i div 4096" "field i 10 0x3F = unat i div 1024"
  using unat_u16 [of i] by (simp_all add: field_mod less_mult_imp_div_less)

lemma align: "(w AND NOT 3) = of_nat (unat w div 4 * 4)" for w :: u32
proof -
  have "w AND NOT 3 = push_bit 2 (drop_bit 2 w)"
  proof -
    have "(3 :: u32) = mask 2" by (simp add: mask_eq_exp_minus_1)
    then show ?thesis by (simp only: \<open>3 = mask 2\<close>) (rule bit_word_eqI, auto simp: bit_simps simp flip: add_2_eq_Suc)
  qed
  also have "\<dots> = of_nat (unat w div 4 * 4)"
    by (rule word_unat_eq_iff [THEN iffD2])
      (simp add: push_bit_eq_mult unat_word_ariths unat_drop_bit_eq drop_bit_eq_div [where 'a = nat] unat_of_nat mod_mult_left_eq)
  finally show ?thesis .
qed

lemma imm8_offset: "push_bit 2 (ucast (i AND 0xFF)) = (of_nat (4 * (unat i mod 256)) :: u32)" for i :: u16
proof -
  have "(0xFF :: u16) = mask 8" by (simp add: mask_eq_exp_minus_1)
  then have "unat (i AND 0xFF) = unat i mod 256"
    using unat_field [of 0 i 8] by simp
  then have "(ucast (i AND 0xFF) :: u32) = of_nat (unat i mod 256)"
    by (metis of_nat_unat)
  then show ?thesis by (simp add: push_bit_eq_mult)
qed

lemma imm5_offset:
  "push_bit 2 (of_nat (field i 6 0x1F)) = (of_nat (4 * (unat i div 64 mod 32)) :: u32)"
  "push_bit 1 (of_nat (field i 6 0x1F)) = (of_nat (2 * (unat i div 64 mod 32)) :: u32)"
  by (simp_all add: field_mod push_bit_eq_mult)

lemmas fields = field_mod [where s = 0, simplified] field_mod [where s = 3, simplified]
  field_mod [where s = 6, simplified] field_mod [where s = 8, simplified]

text \<open>The transfers of the five formats.\<close>

lemma ldr_pc_transfer:
  "exec_ldr_pc i s = do_transfer (Load 4 (unat i div 256 mod 8) (of_nat (unat (regs s 15 + 2) div 4 * 4) + of_nat (4 * (unat i mod 256)))) s"
  unfolding exec_ldr_pc_def with_state_def Let_def reads_cells(3) imm8_offset align pc_def by (simp add: field_mod)

lemma ldr_str_reg_transfer:
  "exec_ldr_str_reg i s =
     (let a = regs s (unat i div 8 mod 8) + regs s (unat i div 64 mod 8); n = if flag i 10 then 1 else 4; rd = unat i mod 8
      in do_transfer (if flag i 11 then Load n rd a else Store n rd a) s)"
  unfolding exec_ldr_str_reg_def with_state_def Let_def
  by (simp only: reads_cells writes_cells field_mod if_distrib [of "\<lambda>f. f s"] split: if_split) simp

lemma ldr_str_imm_transfer:
  "exec_ldr_str_imm i s =
     (let n = if flag i 12 then 1 else 4; a = regs s (unat i div 8 mod 8) + of_nat (n * (unat i div 64 mod 32)); rd = unat i mod 8
      in do_transfer (if flag i 11 then Load n rd a else Store n rd a) s)"
  unfolding exec_ldr_str_imm_def with_state_def Let_def
  by (simp only: reads_cells writes_cells imm5_offset if_distrib [of "\<lambda>f. f s"] split: if_split) (simp add: field_mod)

lemma ldrh_strh_imm_transfer:
  "exec_ldrh_strh_imm i s =
     (let a = regs s (unat i div 8 mod 8) + of_nat (2 * (unat i div 64 mod 32)); rd = unat i mod 8
      in do_transfer (if flag i 11 then Load 2 rd a else Store 2 rd a) s)"
  unfolding exec_ldrh_strh_imm_def with_state_def Let_def
  by (simp only: reads_cells writes_cells imm5_offset if_distrib [of "\<lambda>f. f s"] split: if_split) (simp add: field_mod)

lemma ldr_str_sp_transfer:
  "exec_ldr_str_sp i s =
     (let a = regs s 13 + of_nat (4 * (unat i mod 256)); rd = unat i div 256 mod 8
      in do_transfer (if flag i 11 then Load 4 rd a else Store 4 rd a) s)"
  unfolding exec_ldr_str_sp_def with_state_def Let_def
  by (simp only: reads_cells writes_cells imm8_offset if_distrib [of "\<lambda>f. f s"] split: if_split) (simp add: field_mod)

text \<open>The selection of the format by the first seven bits.\<close>

lemma execute_transfer:
  "transfer_of i (regs s) = Some x \<Longrightarrow> execute i s = do_transfer x s"
proof -
  define t where "t = unat i div 512"
  have d: "unat i div 2048 = t div 4" "unat i div 4096 = t div 8" "unat i div 1024 = t div 2"
    by (simp_all add: t_def flip: div_mult2_eq)
  have f: "flag i 9 \<longleftrightarrow> t mod 2 = 1" "flag i 10 \<longleftrightarrow> t div 2 mod 2 = 1" "flag i 11 \<longleftrightarrow> t div 4 mod 2 = 1"
    "flag i 12 \<longleftrightarrow> t div 8 mod 2 = 1"
    by (simp_all add: flag_mod t_def flip: div_mult2_eq)
  have e: "t div 8 = t div 4 div 2" "t div 2 div 2 = t div 4" by (simp_all flip: div_mult2_eq)
  assume x: "transfer_of i (regs s) = Some x"
  consider "t div 4 = 9" | "t = 0x28" | "t = 0x2A" | "t = 0x2C" | "t = 0x2E" | "t div 4 = 0xC" | "t div 4 = 0xD"
    | "t div 4 = 0xE" | "t div 4 = 0xF" | "t div 4 = 0x10" | "t div 4 = 0x11" | "t div 4 = 0x12" | "t div 4 = 0x13"
    using x by (auto simp: transfer_of_def Let_def d t_def [symmetric] split: if_splits)
  moreover from this have "9 \<le> t div 4" by (cases; simp)
  then have "18 \<le> t div 2" by presburger
  then have "t div 2 \<noteq> 16" "t div 2 \<noteq> 17" by linarith+
  ultimately show ?thesis
    using x unfolding execute_def transfer_of_def Let_def top_fields d t_def [symmetric]
    by cases (auto simp: f e ldr_pc_transfer ldr_str_reg_transfer ldr_str_imm_transfer ldrh_strh_imm_transfer
      ldr_str_sp_transfer simp del: of_nat_mult split: if_splits)
qed

section \<open>Properties\<close>


text \<open>STRH R0, [R1, #2]\<close>

definition demo_regs :: "nat \<Rightarrow> u32" where
  "demo_regs = (\<lambda>_. 0)(0 := 0x12345678, 1 := 0x100)"

lemma demo_store: "transfer_of 0x8048 demo_regs = Some (Store 2 0 0x102)"
  by (simp add: transfer_of_def Let_def demo_regs_def)

lemma demo_cells: "cells_at 0x102 2 = Some 0x102"
  by (simp add: cells_at_def flat_index_def translate_def mem_map)


text \<open>C20. What a store writes a load reads: after any store that does not fault, any load of the same
  or a smaller width from the same address, by whatever addressing, into whatever register, gives
  the low bytes of the register that was stored, extended by zeros, and changes nothing else.\<close>

theorem store_then_load:
  assumes "transfer_of i (regs s) = Some (Store n rd a)" "execute i s = (Inr (), t)"
    and "transfer_of j (regs u) = Some (Load k rt a)" "mem u = mem t" "k \<le> n"
  shows "execute j u = (Inr (), u\<lparr>regs := (regs u)(rt := of_nat (unat (regs s rd) mod 256 ^ k))\<rparr>)"
proof -
  obtain c where c: "cells_at a n = Some c"
    and t: "mem t = \<lparr>bytes = \<lambda>j. if c \<le> j \<and> j < c + n then le_byte (unat (regs s rd)) (j - c) else bytes (mem s) j\<rparr>"
    using assms(2) unfolding execute_transfer [OF assms(1)] by (auto simp: do_transfer_def split: option.splits)
  have "cells_at a k = Some c" using c assms(5) by (auto simp: cells_at_def split: option.splits if_splits)
  moreover have "map (bytes (mem u)) [c ..< c + k] = map (le_byte (unat (regs s rd))) [0 ..< k]"
    using assms(5) by (intro nth_equalityI) (simp_all add: assms(4) t)
  ultimately show ?thesis
    unfolding execute_transfer [OF assms(3)] by (simp add: do_transfer_def le_value_bytes del: of_nat_mod)
qed

text \<open>LDRB R2, [R1, #2] after it\<close>

theorem store_then_load_witness:
  "let s = (new_machine new_flat_mem)\<lparr>regs := demo_regs\<rparr>; t = snd (execute 0x8048 s)
   in execute 0x788A t = (Inr (), t\<lparr>regs := demo_regs(2 := 0x78)\<rparr>)"
proof -
  let ?s = "(new_machine new_flat_mem)\<lparr>regs := demo_regs\<rparr>"
  let ?t = "snd (execute 0x8048 ?s)"
  have st: "transfer_of 0x8048 (regs ?s) = Some (Store 2 0 0x102)" by (simp add: demo_store)
  have x: "execute 0x8048 ?s = (Inr (), ?t)" "regs ?t = demo_regs"
    unfolding execute_transfer [OF st] by (simp_all add: do_transfer_def demo_cells)
  have ld: "transfer_of 0x788A (regs ?t) = Some (Load 1 2 0x102)"
    unfolding x(2) by (simp add: transfer_of_def Let_def demo_regs_def)
  have "execute 0x788A ?t = (Inr (), ?t\<lparr>regs := (regs ?t)(2 := of_nat (unat (regs ?s 0) mod 256 ^ 1))\<rparr>)"
    by (rule store_then_load [OF st x(1) ld]) simp_all
  then show ?thesis unfolding x(2) Let_def by (simp add: demo_regs_def)
qed

end
