(* ===== verification/Cpu_Stack.thy ===== *)
theory Cpu_Stack
  imports Cpu_Run
begin

text \<open>
  PUSH, POP, LDM and STM: a frame that is pushed is popped to the registers it came from, and
  what is stored by STM is loaded by LDM, with the base register as the code leaves it. The
  transfers are runs of accesses of the locale \<open>memory_bus\<close>.
\<close>

section \<open>Frames\<close>

text \<open>Words at descending addresses below \<open>a\<close>, and at ascending addresses from \<open>a\<close>.\<close>

primrec frame :: "u32 \<Rightarrow> u32 list \<Rightarrow> (u32 \<times> u32) list" where
  "frame a [] = []"
| "frame a (v # vs) = (a - 4, v) # frame (a - 4) vs"

primrec ascend :: "u32 \<Rightarrow> u32 list \<Rightarrow> (u32 \<times> u32) list" where
  "ascend a [] = []"
| "ascend a (v # vs) = (a, v) # ascend (a + 4) vs"

lemma frame_addresses:
  "x \<in> set (frame a vs) \<Longrightarrow> \<exists>k. 1 \<le> k \<and> k \<le> length vs \<and> fst x = a - of_nat (4 * k)"
proof (induction vs arbitrary: a)
  case (Cons v vs)
  show ?case
  proof (cases "x = (a - 4, v)")
    case True
    then show ?thesis by (intro exI [of _ 1]) simp
  next
    case False
    with Cons obtain k where "1 \<le> k" "k \<le> length vs" "fst x = a - 4 - of_nat (4 * k)" by auto
    then show ?thesis by (intro exI [of _ "Suc k"]) (simp add: algebra_simps)
  qed
qed simp

lemma frame_apart: "length vs \<le> 1024 \<Longrightarrow> sorted_wrt (\<lambda>x y. apart32 (fst x) (fst y)) (frame a vs)"
proof (induction vs arbitrary: a)
  case (Cons v vs)
  have "apart32 (a - 4) (fst y)" if y: "y \<in> set (frame (a - 4) vs)" for y
  proof -
    obtain k where "1 \<le> k" "k \<le> length vs" "fst y = a - 4 - of_nat (4 * k)"
      using frame_addresses [OF y] by blast
    with Cons.prems show ?thesis using apart32_near [of k "a - 4"] by simp
  qed
  with Cons show ?case by simp
qed simp

lemma frame_append: "frame a (vs @ ws) = frame a vs @ frame (a - of_nat (4 * length vs)) ws"
  by (induction vs arbitrary: a) (simp_all add: algebra_simps)

lemma length_frame [simp]: "length (frame a vs) = length vs"
  by (induction vs arbitrary: a) simp_all

lemma values_frame [simp]: "map snd (frame a vs) = vs"
  by (induction vs arbitrary: a) simp_all

lemma ascend_append: "ascend a (vs @ ws) = ascend a vs @ ascend (a + of_nat (4 * length vs)) ws"
  by (induction vs arbitrary: a) (simp_all add: algebra_simps)

text \<open>A frame read upwards.\<close>

lemma rev_frame: "rev (frame a vs) = ascend (a - of_nat (4 * length vs)) (rev vs)"
proof (induction vs arbitrary: a)
  case (Cons v vs)
  have "ascend (a - of_nat (4 * length (v # vs))) (rev vs @ [v]) =
      ascend (a - 4 - of_nat (4 * length vs)) (rev vs) @ [(a - 4, v)]"
    by (simp add: ascend_append algebra_simps)
  with Cons show ?case by simp
qed simp

text \<open>Apartness of ascending words, from that of a frame.\<close>

lemma ascend_frame: "ascend a vs = rev (frame (a + of_nat (4 * length vs)) (rev vs))"
  by (simp add: rev_frame)

lemma ascend_apart:
  "length vs \<le> 1024 \<Longrightarrow> sorted_wrt (\<lambda>x y. apart32 (fst x) (fst y)) (ascend a vs)"
  using frame_apart [of "rev vs" "a + of_nat (4 * length vs)"]
  by (simp add: ascend_frame sorted_wrt_rev apart32_sym)

lemma addresses_ascend: "map fst (ascend a vs) = map fst (ascend a ws)" if "length vs = length ws"
  using that by (induction vs ws arbitrary: a rule: list_induct2) simp_all

section \<open>Register lists\<close>

lemma seq_ret: "seq_act (ret a) n = n"
  by (rule ext) simp

lemma for_each_filter:
  "for_each is (\<lambda>i. if p i then f i else ret ()) = for_each (filter p is) f"
  by (induction "is") (auto simp: seq_ret)

lemma for_each_first:
  "seq_act (if b then f x else ret ()) (for_each is f) = for_each ((if b then [x] else []) @ is) f"
  by (auto simp: fun_eq_iff)

lemma seq_Inr: "seq_act m n s = (Inr a, t) \<longleftrightarrow> (\<exists>b u. m s = (Inr b, u) \<and> n u = (Inr a, t))"
  by (auto simp: seq_act_def bind_act_def split: prod.splits sum.splits)

section \<open>PUSH\<close>

lemma push_reg_Inr:
  "r \<noteq> 13 \<Longrightarrow> push_reg r s = (Inr (), t) \<longleftrightarrow>
     (\<exists>m. write32 (mem s) (sp s - 4) (regs s r) = Inr m \<and> t = (set_sp (sp s - 4) s)\<lparr>mem := m\<rparr>)"
  by (auto simp: push_reg_def mem_write_def sp_def set_sp_def split: sum.splits)

lemma push_run:
  "13 \<notin> set rs \<Longrightarrow> for_each rs push_reg s = (Inr (), t) \<Longrightarrow>
   store_all write32 (mem s) (frame (sp s) (map (regs s) rs)) = Inr (mem t) \<and>
   t = s\<lparr>regs := (regs s)(13 := sp s - of_nat (4 * length rs)), mem := mem t\<rparr>"
proof (induction rs arbitrary: s)
  case Nil
  then show ?case by (simp add: sp_def)
next
  case (Cons r rs)
  then have r: "r \<noteq> 13" "13 \<notin> set rs" by auto
  from Cons.prems(2) obtain m where m: "write32 (mem s) (sp s - 4) (regs s r) = Inr m"
    and rest: "for_each rs push_reg ((set_sp (sp s - 4) s)\<lparr>mem := m\<rparr>) = (Inr (), t)"
    using r by (auto simp: seq_Inr push_reg_Inr)
  let ?u = "(set_sp (sp s - 4) s)\<lparr>mem := m\<rparr>"
  have u: "sp ?u = sp s - 4" "regs ?u = (regs s)(13 := sp s - 4)" "mem ?u = m"
    by (simp_all add: set_sp_def sp_def)
  have same: "map ((regs s)(13 := sp s - 4)) rs = map (regs s) rs"
    using r(2) by auto
  have "store_all write32 m (frame (sp s - 4) (map (regs s) rs)) = Inr (mem t)"
    and t: "t = ?u\<lparr>regs := (regs s)(13 := sp s - 4, 13 := sp s - 4 - of_nat (4 * length rs)), mem := mem t\<rparr>"
    using Cons.IH [OF r(2) rest] unfolding u same by blast+
  with m have "store_all write32 (mem s) (frame (sp s) (map (regs s) (r # rs))) = Inr (mem t)"
    by simp
  moreover have "t = s\<lparr>regs := (regs s)(13 := sp s - of_nat (4 * length (r # rs))), mem := mem t\<rparr>"
    by (subst t) (simp add: set_sp_def diff_diff_eq algebra_simps)
  ultimately show ?case by blast
qed

section \<open>POP\<close>

lemma pop_reg_Inr:
  "read32 (mem s) (sp s) = Inr v \<Longrightarrow> r \<noteq> 13 \<Longrightarrow>
   pop_reg r s = (Inr (), s\<lparr>regs := (regs s)(r := v, 13 := sp s + 4)\<rparr>)"
  by (simp add: pop_reg_def mem_read_def bind_act_def set_reg_def set_sp_def sp_def Let_def)

lemma pop_run:
  "13 \<notin> set rs \<Longrightarrow> \<forall>x \<in> set (ascend (sp s) (map g rs)). read32 (mem s) (fst x) = Inr (snd x) \<Longrightarrow>
   for_each rs pop_reg s =
     (Inr (), s\<lparr>regs := (\<lambda>r. if r = 13 then sp s + of_nat (4 * length rs)
                           else if r \<in> set rs then g r else regs s r)\<rparr>)"
proof (induction rs arbitrary: s)
  case Nil
  have "(\<lambda>r. if r = 13 then sp s else regs s r) = regs s" by (auto simp: sp_def)
  then show ?case by (simp cong: if_cong)
next
  case (Cons r rs)
  then have r: "r \<noteq> 13" "13 \<notin> set rs" by auto
  let ?t = "s\<lparr>regs := (regs s)(r := g r, 13 := sp s + 4)\<rparr>"
  have v: "read32 (mem s) (sp s) = Inr (g r)"
    and rest: "\<forall>x \<in> set (ascend (sp s + 4) (map g rs)). read32 (mem s) (fst x) = Inr (snd x)"
    using Cons.prems(2) by simp_all
  have "sp ?t = sp s + 4" by (simp add: sp_def)
  then have "for_each rs pop_reg ?t =
     (Inr (), ?t\<lparr>regs := (\<lambda>q. if q = 13 then sp s + 4 + of_nat (4 * length rs)
                           else if q \<in> set rs then g q else regs ?t q)\<rparr>)"
    using Cons.IH [of ?t] r(2) rest by (simp cong: if_cong)
  moreover have "(\<lambda>q. if q = 13 then sp s + 4 + of_nat (4 * length rs)
      else if q \<in> set rs then g q else regs ?t q) =
    (\<lambda>q. if q = 13 then sp s + of_nat (4 * length (r # rs))
      else if q \<in> set (r # rs) then g q else regs s q)"
    using r by (auto simp: fun_eq_iff algebra_simps)
  ultimately show ?case
    using pop_reg_Inr [OF v r(1)] by (simp add: seq_act_Inr)
qed

section \<open>PUSH and POP\<close>

definition low_list :: "u16 \<Rightarrow> nat list" where
  "low_list i = filter (in_rlist (ucast (i AND 0xFF))) [0, 1, 2, 3, 4, 5, 6, 7]"

definition push_list :: "u16 \<Rightarrow> nat list" where
  "push_list i = (if flag i 8 then [14] else []) @ rev (low_list i)"

lemma low_list_set: "r \<in> set (low_list i) \<longleftrightarrow> r \<le> 7 \<and> in_rlist (ucast (i AND 0xFF)) r"
proof -
  have "r \<in> set [0, 1, 2, 3, 4, 5, 6, 7] \<longleftrightarrow> r \<le> 7" by simp presburger
  then show ?thesis unfolding low_list_def set_filter by blast
qed

lemma low_list_bounds: "r \<in> set (low_list i) \<Longrightarrow> r \<le> 7"
  by (simp add: low_list_set)

lemma low_list_length: "length (low_list i) \<le> 8"
  unfolding low_list_def by (rule order_trans [OF length_filter_le]) simp

lemma push_list_ok: "13 \<notin> set (push_list i)" "13 \<notin> set (low_list i)" "14 \<notin> set (low_list i)"
    "15 \<notin> set (low_list i)" "length (push_list i) \<le> 9"
  using low_list_bounds [of _ i] low_list_length [of i] by (fastforce simp: push_list_def)+

lemma exec_push: "\<not> flag i 11 \<Longrightarrow> exec_push_pop i = for_each (push_list i) push_reg"
  by (simp add: exec_push_pop_def Let_def for_each_filter for_each_first push_list_def low_list_def
      rev_filter)

lemma exec_pop:
  "flag i 11 \<Longrightarrow>
   exec_push_pop i = seq_act (for_each (low_list i) pop_reg) (if flag i 8 then pop_pc else ret ())"
  by (simp add: exec_push_pop_def Let_def for_each_filter low_list_def)

lemma pop_pc_Inr:
  "read32 (mem s) (sp s) = Inr v \<Longrightarrow>
   pop_pc s = (Inr (), (set_pc (v AND NOT 1) (set_sp (sp s + 4) s))\<lparr>halted := halted s \<or> v AND 1 = 0\<rparr>)"
  by (simp add: pop_pc_def mem_read_def bind_act_def set_pc_def set_sp_def Let_def)

text \<open>What a push leaves in memory, read upwards from the new stack pointer.\<close>

lemma pushed_words:
  assumes "\<not> flag i 11" "exec_push_pop i s = (Inr (), t)"
  shows "\<forall>x \<in> set (ascend (sp t) (map (regs s) (rev (push_list i)))). read32 (mem t) (fst x) = Inr (snd x)"
    and "sp t = sp s - of_nat (4 * length (push_list i))"
proof -
  let ?f = "frame (sp s) (map (regs s) (push_list i))"
  have "for_each (push_list i) push_reg s = (Inr (), t)"
    using assms exec_push by simp
  then have st: "store_all write32 (mem s) ?f = Inr (mem t)"
    and t: "t = s\<lparr>regs := (regs s)(13 := sp s - of_nat (4 * length (push_list i))), mem := mem t\<rparr>"
    using push_run [OF push_list_ok(1)] by blast+
  show sp: "sp t = sp s - of_nat (4 * length (push_list i))"
    by (subst t) (simp add: sp_def)
  have "sorted_wrt (\<lambda>x y. apart32 (fst x) (fst y)) ?f"
    by (rule frame_apart) (use push_list_ok(5) [of i] in simp)
  then have "\<forall>x \<in> set (rev ?f). read32 (mem t) (fst x) = Inr (snd x)"
    using flat.rd_store_all [OF st] by simp
  then show "\<forall>x \<in> set (ascend (sp t) (map (regs s) (rev (push_list i)))). read32 (mem t) (fst x) = Inr (snd x)"
    unfolding rev_frame sp by (simp add: rev_map)
qed

text \<open>The low registers of a frame, popped from any state that still has it.\<close>

lemma pop_low_run:
  assumes "\<forall>x \<in> set (ascend (sp u) (map g (low_list i))). read32 (mem u) (fst x) = Inr (snd x)"
  shows "for_each (low_list i) pop_reg u =
    (Inr (), u\<lparr>regs := (\<lambda>r. if r = 13 then sp u + of_nat (4 * length (low_list i))
                          else if r \<le> 7 \<and> in_rlist (ucast (i AND 0xFF)) r then g r else regs u r)\<rparr>)"
  using pop_run [OF push_list_ok(2) assms] by (simp only: low_list_set)

text \<open>C19. A frame survives: when a PUSH returns, a POP of the same registers from any later state
  with the same memory and stack pointer returns too, puts the pushed values back into the low
  registers of the list and leaves the others, moves the stack pointer back to where it was
  before the PUSH, and, if LR was pushed, continues at the pushed address, halted exactly if its
  Thumb bit is clear (or the machine was halted before).\<close>

theorem push_pop_frame:
  assumes "\<not> flag i 11" "exec_push_pop i s = (Inr (), t)"
    and "flag j 11" "flag j 8 = flag i 8" "j AND 0xFF = i AND 0xFF"
    and "mem u = mem t" "sp u = sp t"
  shows "\<exists>v. exec_push_pop j u = (Inr (), v) \<and> sp v = sp s \<and> mem v = mem u \<and>
    (\<forall>r \<le> 12. regs v r = (if r \<le> 7 \<and> in_rlist (ucast (i AND 0xFF)) r then regs s r else regs u r)) \<and>
    pc v = (if flag i 8 then regs s 14 AND NOT 1 else pc u) \<and>
    halted v = (halted u \<or> flag i 8 \<and> regs s 14 AND 1 = 0)"
proof -
  have same: "low_list j = low_list i" by (simp add: low_list_def assms(5))
  let ?n = "of_nat (4 * length (low_list i)) :: u32"
  let ?w = "u\<lparr>regs := (\<lambda>r. if r = 13 then sp u + ?n
              else if r \<le> 7 \<and> in_rlist (ucast (i AND 0xFF)) r then regs s r else regs u r)\<rparr>"
  note words = pushed_words [OF assms(1,2)]
  have split: "rev (push_list i) = low_list i @ (if flag i 8 then [14] else [])"
    by (simp add: push_list_def)
  have w1: "\<forall>x \<in> set (ascend (sp u) (map (regs s) (low_list i))). read32 (mem u) (fst x) = Inr (snd x)"
    using words(1) unfolding split assms(6,7) by (simp add: ascend_append)
  have low: "for_each (low_list j) pop_reg u = (Inr (), ?w)"
    unfolding same by (rule pop_low_run [OF w1])
  show ?thesis
  proof (cases "flag i 8")
    case False
    then have "exec_push_pop j u = (Inr (), ?w)"
      using exec_pop [OF assms(3)] assms(4) low by (simp add: seq_act_Inr cong: if_cong)
    moreover have "sp u + ?n = sp s"
      using words(2) assms(7) False by (simp add: push_list_def)
    ultimately show ?thesis
      using False by (intro exI [of _ ?w]) (simp add: sp_def pc_def)
  next
    case True
    have "read32 (mem u) (sp u + ?n) = Inr (regs s 14)"
      using words(1) True unfolding split assms(6,7) by (simp add: ascend_append)
    moreover have "sp ?w = sp u + ?n" by (simp add: sp_def)
    ultimately have "pop_pc ?w = (Inr (), (set_pc (regs s 14 AND NOT 1) (set_sp (sp u + ?n + 4) ?w))
        \<lparr>halted := halted ?w \<or> regs s 14 AND 1 = 0\<rparr>)" (is "_ = (_, ?v)")
      using pop_pc_Inr [of ?w "regs s 14"] by (simp cong: if_cong)
    then have "exec_push_pop j u = (Inr (), ?v)"
      using exec_pop [OF assms(3)] assms(4) low True by (simp add: seq_act_Inr cong: if_cong)
    moreover have "sp u + ?n + 4 = sp s"
      using words(2) assms(7) True by (simp add: push_list_def algebra_simps)
    ultimately show ?thesis
      using True by (intro exI [of _ ?v]) (simp add: sp_def pc_def set_pc_def set_sp_def and.assoc)
  qed
qed

theorem push_pop_frame_witness:
  "let s = new_machine new_flat_mem; t = snd (exec_push_pop 0xB501 s)
   in \<exists>v. exec_push_pop 0xBD01 t = (Inr (), v) \<and> sp v = 0x2000 \<and> regs v 0 = regs s 0 \<and> halted v"
proof -
  let ?s = "new_machine new_flat_mem"
  have sp: "sp ?s = 0x2000" "regs ?s 14 = 0"
    by (simp_all add: new_machine_def reset_def sp_def reg_index RESET_SP_def)
  have f: "\<not> flag 0xB501 11" "flag 0xBD01 11" "flag 0xBD01 8 = flag 0xB501 8"
    "(0xBD01 :: u16) AND 0xFF = 0xB501 AND 0xFF" "flag 0xB501 8" "push_list 0xB501 = [14, 0]"
    by (simp_all add: flag_def push_list_def low_list_def in_rlist_def)
  have ok: "ok32 0x1FFC" "ok32 0x1FF8"
    by (simp_all add: ok32_def flat_index_def translate_def SIZE_def)
  obtain m1 where m1: "write32 (mem ?s) 0x1FFC (regs ?s 14) = Inr m1"
    using write32_ok [OF ok(1)] by blast
  let ?t = "(set_sp 0x1FFC ?s)\<lparr>mem := m1\<rparr>"
  obtain m2 where m2: "write32 m1 0x1FF8 (regs ?t 0) = Inr m2"
    using write32_ok [OF ok(2)] by blast
  have "push_reg 14 ?s = (Inr (), ?t)"
    using m1 sp by (simp add: push_reg_Inr)
  moreover have "sp ?t = 0x1FFC" by (simp add: sp_def set_sp_def)
  then have "push_reg 0 ?t = (Inr (), (set_sp 0x1FF8 ?t)\<lparr>mem := m2\<rparr>)"
    using m2 by (simp add: push_reg_Inr)
  ultimately have "for_each [14, 0] push_reg ?s = (Inr (), (set_sp 0x1FF8 ?t)\<lparr>mem := m2\<rparr>)"
    by (simp only: for_each.simps seq_Inr) simp
  then obtain t where t: "exec_push_pop 0xB501 ?s = (Inr (), t)"
    unfolding exec_push [OF f(1)] f(6) by blast
  show ?thesis
    using push_pop_frame [OF f(1) t f(2,3,4) refl refl] t sp f(5)
    by (auto simp: Let_def in_rlist_def)
qed

text \<open>The decoder takes every halfword from 0xB000 to 0xBFFF that is not an adjustment of the
  stack pointer, a hint or a breakpoint for a PUSH or POP: the byte extension UXTB R0,R0 (0xB2C0)
  pushes R7 and R6 and the byte reversal REV R1,R2 (0xBA11) pops R0 and R4.\<close>

theorem misc_runs_as_push:
  "execute 0xB2C0 = for_each [7, 6] push_reg \<and> execute 0xBA11 = for_each [0, 4] pop_reg"
proof
  have e: "execute 0xB2C0 = exec_push_pop 0xB2C0" "execute 0xBA11 = exec_push_pop 0xBA11"
    by (simp_all add: execute_def Let_def field_def)
  have f: "\<not> flag 0xB2C0 11" "push_list 0xB2C0 = [7, 6]" "flag 0xBA11 11" "\<not> flag 0xBA11 8"
    "low_list 0xBA11 = [0, 4]"
    by (simp_all add: flag_def push_list_def low_list_def in_rlist_def)
  show "execute 0xB2C0 = for_each [7, 6] push_reg"
    by (simp only: e exec_push [OF f(1)] f(2))
  have "seq_act m (ret ()) = m" for m :: "(machine, unit) act"
    by (rule ext) (auto simp: seq_act_def bind_act_def split: prod.splits sum.splits)
  then show "execute 0xBA11 = for_each [0, 4] pop_reg"
    by (simp only: e exec_pop [OF f(3)] f(4,5) if_False)
qed

section \<open>STM and LDM\<close>

lemma stm_run:
  "ldm_stm_loop False rb rl is addr s = (Inr (), t) \<Longrightarrow>
   store_all write32 (mem s) (ascend addr (map (regs s) (filter (in_rlist rl) is))) = Inr (mem t) \<and>
   t = s\<lparr>regs := (if in_rlist rl rb then regs s
                  else (regs s)(rb := addr + of_nat (4 * length (filter (in_rlist rl) is)))),
         mem := mem t\<rparr>"
proof (induction "is" arbitrary: addr s)
  case Nil
  then show ?case by (auto simp: set_rd_def set_reg_def fun_upd_def)
next
  case (Cons i "is")
  show ?case
  proof (cases "in_rlist rl i")
    case False
    with Cons show ?thesis by (simp only: ldm_stm_loop.simps filter.simps if_False)
  next
    case True
    with Cons.prems obtain m where m: "write32 (mem s) addr (regs s i) = Inr m"
      and rest: "ldm_stm_loop False rb rl is (addr + 4) (s\<lparr>mem := m\<rparr>) = (Inr (), t)"
      by (auto simp: seq_Inr mem_write_def split: sum.splits)
    let ?a = "addr + 4 + of_nat (4 * length (filter (in_rlist rl) is))"
    have "store_all write32 m (ascend (addr + 4) (map (regs s) (filter (in_rlist rl) is))) = Inr (mem t)"
      and t: "t = s\<lparr>mem := m, regs := (if in_rlist rl rb then regs s else (regs s)(rb := ?a)), mem := mem t\<rparr>"
      using Cons.IH [OF rest] by auto
    with m True have "store_all write32 (mem s)
        (ascend addr (map (regs s) (filter (in_rlist rl) (i # is)))) = Inr (mem t)" by simp
    moreover have "?a = addr + of_nat (4 * length (filter (in_rlist rl) (i # is)))"
      using True by (simp add: algebra_simps)
    moreover have "t = s\<lparr>regs := (if in_rlist rl rb then regs s else (regs s)(rb := ?a)), mem := mem t\<rparr>"
      by (subst t) simp
    ultimately show ?thesis by metis
  qed
qed

lemma ldm_run:
  "\<forall>x \<in> set (ascend addr (map g (filter (in_rlist rl) is))). read32 (mem u) (fst x) = Inr (snd x) \<Longrightarrow>
   ldm_stm_loop True rb rl is addr u =
     (Inr (), u\<lparr>regs := (\<lambda>r. if r \<in> set (filter (in_rlist rl) is) then g r else regs u r)
        (rb := addr + of_nat (4 * length (filter (in_rlist rl) is)))\<rparr>)"
proof (induction "is" arbitrary: addr u)
  case Nil
  then show ?case by (simp add: set_rd_def set_reg_def fun_upd_def)
next
  case (Cons i "is")
  show ?case
  proof (cases "in_rlist rl i")
    case False
    with Cons show ?thesis by (simp cong: if_cong)
  next
    case True
    let ?u = "u\<lparr>regs := (regs u)(i := g i)\<rparr>" and ?F = "filter (in_rlist rl) is"
    have "read32 (mem u) addr = Inr (g i)" using Cons.prems True by simp
    then have "ldm_stm_loop True rb rl (i # is) addr u = ldm_stm_loop True rb rl is (addr + 4) ?u"
      using True by (simp add: seq_act_def bind_act_def mem_read_def set_rd_def set_reg_def)
    also have "\<dots> = (Inr (), ?u\<lparr>regs := (\<lambda>r. if r \<in> set ?F then g r else regs ?u r)
        (rb := addr + 4 + of_nat (4 * length ?F))\<rparr>)"
      using Cons.prems True by (intro Cons.IH) simp
    also have "(\<lambda>r. if r \<in> set ?F then g r else regs ?u r) =
        (\<lambda>r. if r \<in> set (filter (in_rlist rl) (i # is)) then g r else regs u r)"
      using True by auto
    finally show ?thesis using True by (simp add: algebra_simps cong: if_cong)
  qed
qed

lemma exec_ldm_stm_loop:
  "exec_ldm_stm i s =
     ldm_stm_loop (flag i 11) (field i 8 0x7) (ucast (i AND 0xFF)) [0, 1, 2, 3, 4, 5, 6, 7]
       (regs s (field i 8 0x7)) s"
  by (simp add: exec_ldm_stm_def Let_def)

text \<open>A block survives: when an STM returns, an LDM of the same registers through a base
  register with the same address, from any later state with the same memory, returns too and
  puts the stored values into the registers of the list and leaves the others, except the base
  register, which holds the address behind the block even if the list contains it: the value
  loaded for it is overwritten. The STM has written the base register back only if the list does
  not contain it.\<close>

theorem stm_ldm_block:
  fixes i j :: u16
  defines "rl \<equiv> ucast (i AND 0xFF)" and "rb \<equiv> field i 8 0x7"
  assumes "\<not> flag i 11" "exec_ldm_stm i s = (Inr (), t)"
    and "flag j 11" "field j 8 0x7 = rb" "j AND 0xFF = i AND 0xFF"
    and "mem u = mem t" "regs u rb = regs s rb"
  shows "(let behind = regs s rb + of_nat (4 * length (low_list i))
    in exec_ldm_stm j u = (Inr (), u\<lparr>regs := (\<lambda>r. if r = rb then behind
           else if r \<le> 7 \<and> in_rlist rl r then regs s r else regs u r)\<rparr>) \<and>
       regs t = (if in_rlist rl rb then regs s else (regs s)(rb := behind)))"
proof -
  let ?a = "regs s rb" and ?n = "of_nat (4 * length (low_list i)) :: u32"
  have "ldm_stm_loop False rb rl [0, 1, 2, 3, 4, 5, 6, 7] ?a s = (Inr (), t)"
    using assms(3,4) by (simp only: exec_ldm_stm_loop rl_def rb_def)
  from stm_run [OF this]
  have st: "store_all write32 (mem s) (ascend ?a (map (regs s) (low_list i))) = Inr (mem t)"
    and t: "t = s\<lparr>regs := (if in_rlist rl rb then regs s else (regs s)(rb := ?a + ?n)), mem := mem t\<rparr>"
    unfolding low_list_def rl_def by blast+
  have "sorted_wrt (\<lambda>x y. apart32 (fst x) (fst y)) (ascend ?a (map (regs s) (low_list i)))"
    by (rule ascend_apart) (use low_list_length [of i] in simp)
  then have "\<forall>x \<in> set (ascend ?a (map (regs s) (low_list i))). read32 (mem u) (fst x) = Inr (snd x)"
    using flat.rd_store_all [OF st] unfolding assms(8) by blast
  then have "ldm_stm_loop True rb rl [0, 1, 2, 3, 4, 5, 6, 7] ?a u =
     (Inr (), u\<lparr>regs := (\<lambda>r. if r \<in> set (low_list i) then regs s r else regs u r)(rb := ?a + ?n)\<rparr>)"
    unfolding low_list_def rl_def by (rule ldm_run)
  moreover have "(\<lambda>r. if r \<in> set (low_list i) then regs s r else regs u r)(rb := ?a + ?n) =
      (\<lambda>r. if r = rb then ?a + ?n else if r \<le> 7 \<and> in_rlist rl r then regs s r else regs u r)"
    unfolding low_list_set rl_def by auto
  moreover have "exec_ldm_stm j u = ldm_stm_loop True rb rl [0, 1, 2, 3, 4, 5, 6, 7] ?a u"
    unfolding exec_ldm_stm_loop assms(6,7,9) using assms(5) by (simp add: rl_def)
  moreover have "regs t = (if in_rlist rl rb then regs s else (regs s)(rb := ?a + ?n))"
    by (subst t) simp
  ultimately show ?thesis by (simp only: Let_def simp_thms)
qed

theorem stm_ldm_block_witness:
  "let s = new_machine new_flat_mem; t = snd (exec_ldm_stm 0xC003 s)
   in regs s 0 = 0 \<and> read32 (mem t) 0 = Inr 0 \<and> regs t 0 = 0 \<and>
      (\<exists>v. exec_ldm_stm 0xC803 t = (Inr (), v) \<and> regs v 0 = 8 \<and> regs v 1 = 0)"
proof -
  let ?s = "new_machine new_flat_mem"
  have r: "regs ?s 0 = 0" "regs ?s 1 = 0" "mem ?s = new_flat_mem"
    by (simp_all add: new_machine_def reset_def reg_index)
  have f: "\<not> flag 0xC003 11" "flag 0xC803 11" "field 0xC803 8 0x7 = field 0xC003 8 0x7"
    "(0xC803 :: u16) AND 0xFF = 0xC003 AND 0xFF" "field 0xC003 8 0x7 = 0" "low_list 0xC003 = [0, 1]"
    by (simp_all add: flag_def field_def low_list_def in_rlist_def)
  have l: "in_rlist 3 0" "in_rlist 3 (Suc 0)" "\<not> in_rlist 3 2" "\<not> in_rlist 3 3" "\<not> in_rlist 3 4"
    "\<not> in_rlist 3 5" "\<not> in_rlist 3 6" "\<not> in_rlist 3 7" "(ucast (0xC003 AND 0xFF :: u16) :: u8) = 3"
    by (simp_all add: in_rlist_def)
  have ok: "ok32 0" "ok32 4"
    by (simp_all add: ok32_def flat_index_def translate_def SIZE_def)
  obtain m1 where m1: "write32 (mem ?s) 0 (regs ?s 0) = Inr m1"
    using write32_ok [OF ok(1)] by blast
  obtain m2 where m2: "write32 m1 4 (regs ?s 1) = Inr m2"
    using write32_ok [OF ok(2)] by blast
  have w: "mem_write write32 0 (regs ?s 0) ?s = (Inr (), ?s\<lparr>mem := m1\<rparr>)"
    "mem_write write32 4 (regs ?s 1) (?s\<lparr>mem := m1\<rparr>) = (Inr (), ?s\<lparr>mem := m2\<rparr>)"
    using m1 m2 by (simp_all add: mem_write_def)
  have t: "exec_ldm_stm 0xC003 ?s = (Inr (), ?s\<lparr>mem := m2\<rparr>)"
    unfolding exec_ldm_stm_loop f(5) l(9)
    using f(1) w r(1) by (simp add: l seq_Inr [THEN iffD2] seq_act_def bind_act_def)
  have "apart32 4 (4 - of_nat (4 * 1))" by (rule apart32_near) simp_all
  then have "read32 m2 0 = Inr 0"
    using read32_write32 [OF m1] read32_write32_apart [OF m2, of 0] r(1) by simp
  then show ?thesis
    using stm_ldm_block [OF f(1) t f(2,3,4), of "?s\<lparr>mem := m2\<rparr>"] t r f(5,6) l
    by (simp add: Let_def)
qed

end
