(* ===== verification/Cpu_Branch.thy ===== *)
theory Cpu_Branch
  imports Cpu_Run
begin

text \<open>
  Branches and calls: the offsets the encodings stand for, and that the pair of BL instructions
  calls its target with a link register from which BX returns to the instruction after the pair.
\<close>

section \<open>Offsets\<close>

lemma low8: "ucast (i AND 0xFF) = (ucast i :: u8)" for i :: u16
proof -
  have "(0xFF :: u16) = mask 8" by (simp add: mask_eq_exp_minus_1)
  then show ?thesis
    by (simp only: take_bit_eq_mask [symmetric]) (rule bit_word_eqI, simp add: bit_simps)
qed

lemma low11: "i AND 0x7FF = take_bit 11 i" for i :: u16
proof -
  have "(0x7FF :: u16) = mask 11" by (simp add: mask_eq_exp_minus_1)
  then show ?thesis by (simp only: take_bit_eq_mask [symmetric])
qed

lemma push_scast: "push_bit k (scast w :: u32) = of_int (sint w * 2 ^ k)" for w :: "'a::len word"
proof -
  have "(scast w :: u32) = of_int (sint w)"
    by (rule bit_word_eqI) (simp add: bit_simps)
  then show ?thesis by (simp only: push_bit_eq_mult of_int_mult of_int_power of_int_numeral)
qed

text \<open>Sign extension of an 11-bit field by shifting left to the top and right again.\<close>

lemma sign_extend11:
  fixes i :: u16
  assumes "k \<le> 20"
  shows "signed_drop_bit k (push_bit 21 (ucast (i AND 0x7FF) :: u32)) =
    push_bit (21 - k) (scast (ucast i :: 11 word) :: u32)"
proof (rule bit_word_eqI)
  fix n assume "n < LENGTH(32)"
  with assms show "bit (signed_drop_bit k (push_bit 21 (ucast (i AND 0x7FF) :: u32))) n =
      bit (push_bit (21 - k) (scast (ucast i :: 11 word) :: u32)) n"
    by (cases "k + n = 31")
      (auto simp: low11 bit_simps bit_signed_drop_bit_iff min_def add.commute [of n k])
qed

lemma offsets:
  fixes i :: u16
  shows "push_bit 1 (scast (ucast (i AND 0xFF) :: u8) :: u32) = of_int (2 * sint (ucast i :: 8 word))"
    "signed_drop_bit 20 (push_bit BL_SIGN_SHIFT (ucast (i AND 0x7FF) :: u32)) =
       of_int (2 * sint (ucast i :: 11 word))"
    "signed_drop_bit 9 (push_bit BL_SIGN_SHIFT (ucast (i AND 0x7FF) :: u32)) =
       of_int (4096 * sint (ucast i :: 11 word))"
    "push_bit 1 (ucast (i AND 0x7FF) :: u32) = of_int (2 * uint (ucast i :: 11 word))"
proof -
  show "push_bit 1 (scast (ucast (i AND 0xFF) :: u8) :: u32) = of_int (2 * sint (ucast i :: 8 word))"
    unfolding low8 push_scast by (simp add: mult.commute)
  show "signed_drop_bit 20 (push_bit BL_SIGN_SHIFT (ucast (i AND 0x7FF) :: u32)) =
       of_int (2 * sint (ucast i :: 11 word))"
    unfolding BL_SIGN_SHIFT_def using sign_extend11 [of 20 i] unfolding push_scast
    by (simp add: mult.commute)
  show "signed_drop_bit 9 (push_bit BL_SIGN_SHIFT (ucast (i AND 0x7FF) :: u32)) =
       of_int (4096 * sint (ucast i :: 11 word))"
    unfolding BL_SIGN_SHIFT_def using sign_extend11 [of 9 i] unfolding push_scast
    by (simp add: mult.commute)
  have "(ucast (i AND 0x7FF) :: u32) = ucast (ucast i :: 11 word)"
    unfolding low11 by (rule bit_word_eqI) (auto simp: bit_simps)
  also have "\<dots> = of_int (uint (ucast i :: 11 word))" by simp
  finally show "push_bit 1 (ucast (i AND 0x7FF) :: u32) = of_int (2 * uint (ucast i :: 11 word))"
    by (simp only: push_bit_eq_mult of_int_mult power_one_right of_int_numeral mult.commute)
qed

section \<open>Branches\<close>

text \<open>Branch offsets are the signed fields of the encodings. With the program counter already
  moved past the instruction (so \<open>pc + 2\<close> is the architecture's value of PC), B goes to PC plus
  twice its signed 11-bit field, the conditional branch to PC plus twice its signed 8-bit field
  if its condition holds and nowhere otherwise, and the first half of BL keeps PC plus 4096 times
  its signed 11-bit field, to which the second half adds twice its unsigned one.\<close>

theorem branch_targets:
  "exec_branch i s = (Inr (), set_pc (pc s + 2 + of_int (2 * sint (ucast i :: 11 word))) s) \<and>
   exec_branch_cond i s =
     (Inr (), if condition_passes (field i 8 0xF) (apsr s)
              then set_pc (pc s + 2 + of_int (2 * sint (ucast i :: 8 word))) s else s) \<and>
   bl_offset (snd (exec_bl_upper i s)) = pc s + 2 + of_int (4096 * sint (ucast i :: 11 word)) \<and>
   pc (snd (exec_bl_lower i s)) = (bl_offset s + of_int (2 * uint (ucast i :: 11 word))) AND NOT 1 \<and>
   regs (snd (exec_bl_lower i s)) 14 = pc s OR 1"
  unfolding exec_branch_def exec_branch_cond_def exec_bl_upper_def exec_bl_lower_def Let_def offsets
  by (simp add: set_pc_def pc_def)

section \<open>Calls\<close>

lemma call_trace_frame [simp]:
  "regs (call_trace p i s) = regs s" "apsr (call_trace p i s) = apsr s"
  "mem (call_trace p i s) = mem s" "halted (call_trace p i s) = halted s"
  "bl_offset (call_trace p i s) = bl_offset s" "pc (call_trace p i s) = pc s"
  by (simp_all add: call_trace_def pc_def split: option.splits)

lemma advance_pc_frame [simp]:
  "apsr (advance_pc s) = apsr s" "mem (advance_pc s) = mem s" "halted (advance_pc s) = halted s"
  "bl_offset (advance_pc s) = bl_offset s" "pc (advance_pc s) = pc s + 2"
  "regs (advance_pc s) = (regs s)(15 := pc s + 2)"
  by (simp_all add: advance_pc_def pc_def)

text \<open>A step whose instruction is a plain update.\<close>

lemma step_update:
  assumes "\<not> halted s" "read16 (mem s) (pc s) = Inr i" "execute i = update f"
  shows "step s =
    (let t = f (call_trace (pc s) i (advance_pc s))
     in (Inr (\<not> halted t), t\<lparr>cycles := cycles t + 1\<rparr>))"
  by (simp add: step_fetched [OF assms(1,2)] assms(3) Let_def)

lemma execute_bl:
  "field i 11 0x1F = 0x1E \<Longrightarrow> execute i = exec_bl_upper i"
  "field i 11 0x1F = 0x1F \<Longrightarrow> execute i = exec_bl_lower i"
proof -
  note f = fields_top [of i]
  show "field i 11 0x1F = 0x1E \<Longrightarrow> execute i = exec_bl_upper i"
    using f by (auto simp: execute_def Let_def)
  show "field i 11 0x1F = 0x1F \<Longrightarrow> execute i = exec_bl_lower i"
    using f by (auto simp: execute_def Let_def)
qed

definition call_target :: "u32 \<Rightarrow> u16 \<Rightarrow> u16 \<Rightarrow> u32" where
  "call_target a hi lo =
     a + 4 + of_int (4096 * sint (ucast hi :: 11 word) + 2 * uint (ucast lo :: 11 word))"

lemma clear_even: "\<not> bit v 0 \<Longrightarrow> v AND - 2 = v" for v :: u32
proof (rule bit_word_eqI)
  fix n assume "\<not> bit v 0"
  moreover have "bit (- 2 :: u32) n \<longleftrightarrow> n \<noteq> 0 \<and> n < 32"
    by (auto simp: bit_minus_2_iff)
  ultimately show "bit (v AND - 2) n = bit v n"
    by (auto simp: bit_and_iff dest: bit_imp_le_length simp del: bit_0 intro: gr0I)
qed

lemma call_target_even: "\<not> bit a 0 \<Longrightarrow> \<not> bit (call_target a hi lo) 0"
proof -
  have "call_target a hi lo =
      a + 2 * (2 + of_int (2048 * sint (ucast hi :: 11 word) + uint (ucast lo :: 11 word)))"
    by (simp add: call_target_def algebra_simps)
  then show "\<not> bit a 0 \<Longrightarrow> \<not> bit (call_target a hi lo) 0"
    by (simp only: bit_0) simp
qed

lemma step_bl_upper:
  assumes "\<not> halted s" "read16 (mem s) (pc s) = Inr hi" "field hi 11 0x1F = 0x1E"
  obtains t where "step s = (Inr True, t)" "\<not> halted t" "regs t = (regs s)(15 := pc s + 2)"
    "mem t = mem s" "apsr t = apsr s"
    "bl_offset t = pc s + 4 + of_int (4096 * sint (ucast hi :: 11 word))"
  using step_update [OF assms(1,2) execute_bl(1) [OF assms(3), unfolded exec_bl_upper_def]]
    assms(1) that unfolding Let_def offsets by (simp add: add.assoc)

lemma step_bl_lower:
  assumes "\<not> halted s" "read16 (mem s) (pc s) = Inr lo" "field lo 11 0x1F = 0x1F"
    and "\<not> bit (bl_offset s + of_int (2 * uint (ucast lo :: 11 word))) 0"
  obtains t where "step s = (Inr True, t)" "\<not> halted t" "mem t = mem s" "apsr t = apsr s"
    "regs t = (regs s)(14 := (pc s + 2) OR 1,
                       15 := bl_offset s + of_int (2 * uint (ucast lo :: 11 word)))"
  using step_update [OF assms(1,2) execute_bl(2) [OF assms(3), unfolded exec_bl_lower_def]]
    assms(1) that clear_even [OF assms(4)] unfolding Let_def offsets
  by (simp add: set_pc_def fun_upd_twist)

text \<open>\<open>BX LR\<close>.\<close>

lemma step_bx_lr:
  assumes "\<not> halted s" "read16 (mem s) (pc s) = Inr 0x4770" "regs s 14 = a OR 1" "\<not> bit a 0"
  obtains t where "step s = (Inr True, t)" "\<not> halted t" "mem t = mem s" "apsr t = apsr s"
    "regs t = (regs s)(15 := a)"
proof -
  have "execute 0x4770 = exec_hi_reg_bx 0x4770"
    by (simp add: execute_def Let_def field_def)
  note st = step_update [OF assms(1,2) this [unfolded exec_hi_reg_bx_def]]
  have f: "field 0x4770 8 0x3 = 3" "field 0x4770 3 0xF = 14" "\<not> flag 0x4770 7"
    by (simp_all add: field_def flag_def)
  have "bit ((a OR 1) AND 1) 0" by (simp add: bit_and_iff bit_or_iff bit_1_iff del: bit_0)
  then have odd: "(a OR 1) AND 1 \<noteq> 0" by (auto simp only: bit_0_eq bot_apply bot_bool_def)
  have "(a OR 1) AND - 2 = a AND - 2"
    by (rule bit_word_eqI) (auto simp: bit_simps bit_minus_2_iff)
  then have bx_to: "(a OR 1) AND - 2 = a" using clear_even [OF assms(4)] by simp
  have "step s = (Inr True, snd (step s))" "\<not> halted (snd (step s))" "mem (snd (step s)) = mem s"
    "apsr (snd (step s)) = apsr s" "regs (snd (step s)) = (regs s)(15 := a)"
    using st assms(1) odd unfolding Let_def f
    by (simp_all add: f set_pc_def assms(3) bx_to and.assoc clear_even [OF assms(4)])
  then show ?thesis by (rule that)
qed

text \<open>C21. BL calls and BX LR returns: the two halves of BL at an even address set the program
  counter to the target of their offsets and LR to the address behind them with the Thumb bit,
  and change no other register, flag or byte of memory; and BX LR at the target continues
  behind the call, not halted.\<close>

theorem call_and_return:
  assumes "\<not> halted s" "even_pc s"
    and "read16 (mem s) (pc s) = Inr hi" "field hi 11 0x1F = 0x1E"
    and "read16 (mem s) (pc s + 2) = Inr lo" "field lo 11 0x1F = 0x1F"
    and "read16 (mem s) (call_target (pc s) hi lo) = Inr 0x4770"
  shows "\<exists>t u. run 2 s = (Inr 2, t) \<and> run 3 s = (Inr 3, u) \<and>
    regs t = (regs s)(14 := (pc s + 4) OR 1, 15 := call_target (pc s) hi lo) \<and>
    mem t = mem s \<and> apsr t = apsr s \<and> \<not> halted t \<and>
    regs u = (regs s)(14 := (pc s + 4) OR 1, 15 := pc s + 4) \<and>
    mem u = mem s \<and> apsr u = apsr s \<and> \<not> halted u"
proof -
  have e: "\<not> bit (pc s) 0" using assms(2) by (simp only: even_pc_iff not_False_eq_True)
  then have e4: "\<not> bit (pc s + 4) 0" by (simp add: bit_0)
  obtain t1 where t1: "step s = (Inr True, t1)" "\<not> halted t1" "regs t1 = (regs s)(15 := pc s + 2)"
    "mem t1 = mem s" "apsr t1 = apsr s"
    "bl_offset t1 = pc s + 4 + of_int (4096 * sint (ucast hi :: 11 word))"
    using step_bl_upper [OF assms(1,3,4)] by blast
  then have p1: "pc t1 = pc s + 2" by (simp add: pc_def)
  have ct: "call_target (pc s) hi lo = bl_offset t1 + of_int (2 * uint (ucast lo :: 11 word))"
    by (simp add: t1(6) call_target_def)
  obtain t2 where t2: "step t1 = (Inr True, t2)" "\<not> halted t2" "mem t2 = mem t1" "apsr t2 = apsr t1"
    "regs t2 = (regs t1)(14 := (pc t1 + 2) OR 1, 15 := call_target (pc s) hi lo)"
    using step_bl_lower [OF t1(2) _ assms(6)] call_target_even [OF e, of hi lo] assms(5) t1(4) p1 ct
    by metis
  have p2: "pc t2 = call_target (pc s) hi lo" "regs t2 14 = (pc s + 4) OR 1"
    by (simp_all add: pc_def t2(5) p1 [unfolded pc_def] add.commute)
  obtain t3 where t3: "step t2 = (Inr True, t3)" "\<not> halted t3" "mem t3 = mem t2" "apsr t3 = apsr t2"
    "regs t3 = (regs t2)(15 := pc s + 4)"
    using step_bx_lr [OF t2(2) _ p2(2) e4] assms(7) p2(1) t1(4) t2(3) by metis
  have "run 2 s = (Inr 2, t2)" "run 3 s = (Inr 3, t3)"
    using t1(1) t2(1) t3(1) by (simp_all add: numeral_2_eq_2 numeral_3_eq_3 run_Suc)
  moreover have "regs t2 = (regs s)(14 := (pc s + 4) OR 1, 15 := call_target (pc s) hi lo)"
    by (simp add: t2(5) t1(3) p1 fun_upd_twist add.assoc)
  moreover from this have "regs t3 = (regs s)(14 := (pc s + 4) OR 1, 15 := pc s + 4)"
    by (simp add: t3(5))
  ultimately show ?thesis
    using t1 t2 t3 by (intro exI [of _ t2] exI [of _ t3]) simp
qed

text \<open>The program counter as an operand of format 5: MOV PC,R0 and ADD PC,R0 write it as it is, so
  an odd value makes every later fetch odd, where the branches and BX clear bit 0; and MOV R0,PC
  reads the address of the instruction plus 2, not plus 4 as the PC-relative load, ADR and the
  branches do.\<close>

theorem pc_as_operand:
  "pc (snd (exec_hi_reg_bx 0x4687 s)) = regs s 0 \<and>
   pc (snd (exec_hi_reg_bx 0x4487 s)) = pc s + regs s 0 \<and>
   regs (snd (exec_hi_reg_bx 0x4678 s)) 0 = pc s \<and>
   regs (snd (exec_add_sp_pc 0xA000 s)) 0 = (pc s + 2) AND NOT 3"
  by (simp add: exec_hi_reg_bx_def exec_add_sp_pc_def hi_rd_def field_def flag_def pc_def Let_def)

text \<open>A memory with \<open>BL 4\<close> at 0 and \<open>BX LR\<close> at 4.\<close>

definition call_memory :: flat_mem where
  "call_memory = \<lparr>bytes = (\<lambda>i. if i < 6 then [0x00, 0xF0, 0x00, 0xF8, 0x70, 0x47] ! i else 0)\<rparr>"

theorem call_and_return_witness:
  "\<exists>u. run 3 (new_machine call_memory) = (Inr 3, u) \<and> pc u = 4 \<and> \<not> halted u"
proof -
  let ?s = "new_machine call_memory"
  have s: "pc ?s = 0" "mem ?s = call_memory" "\<not> halted ?s"
    by (simp_all add: new_machine_def reset_def pc_def reg_index RESET_PC_def)
  have m: "read16 call_memory 0 = Inr 0xF000" "read16 call_memory 2 = Inr 0xF800"
    "read16 call_memory 4 = Inr 0x4770"
    by (simp_all add: read16_def call_memory_def translate_def mem_map join16_def)
  have t: "call_target 0 0xF000 0xF800 = 4"
    by (simp add: call_target_def)
  have f: "field 0xF000 11 0x1F = 0x1E" "field 0xF800 11 0x1F = 0x1F"
    by (simp_all add: field_def)
  from call_and_return [of ?s "0xF000" "0xF800"] show ?thesis
    using s m t f by (fastforce simp: even_pc_def pc_def)
qed

end
