(* ===== verification/Cpu_Programs.thy ===== *)
theory Cpu_Programs
  imports Cpu_Branch
begin

text \<open>
  A program run by the model: the factorial program of src/programs/factorial.bin, with the
  operand of its first instruction as a parameter.
\<close>

section \<open>The program\<close>

text \<open>
  MOV R0,#n; MOV R1,#1; loop: MUL R1,R0; SUB R0,#1; CMP R0,#1; BGT loop; BX LR.
\<close>

definition factorial_image :: "nat \<Rightarrow> u8 list" where
  "factorial_image n =
     [of_nat n, 0x20, 0x01, 0x21, 0x41, 0x43, 0x01, 0x38, 0x01, 0x28, 0xFB, 0xDC, 0x70, 0x47]"

text \<open>A memory that holds the part of the program behind its first instruction.\<close>

definition holds_loop :: "flat_mem \<Rightarrow> bool" where
  "holds_loop m \<longleftrightarrow>
     read16 m 2 = Inr 0x2101 \<and> read16 m 4 = Inr 0x4341 \<and> read16 m 6 = Inr 0x3801 \<and>
     read16 m 8 = Inr 0x2801 \<and> read16 m 10 = Inr 0xDCFB \<and> read16 m 12 = Inr 0x4770"

section \<open>Its instructions\<close>

lemma update_nz_frame [simp]: "C (update_nz r f) = C f" "V (update_nz r f) = V f"
  by (simp_all add: update_nz_def)

definition fetched :: "machine \<Rightarrow> u16 \<Rightarrow> machine" where
  "fetched s i = call_trace (pc s) i (advance_pc s)"

lemma fetched_frame [simp]:
  "regs (fetched s i) = (regs s)(15 := pc s + 2)" "apsr (fetched s i) = apsr s"
  "mem (fetched s i) = mem s" "halted (fetched s i) = halted s" "pc (fetched s i) = pc s + 2"
  by (simp_all add: fetched_def)

lemma step_total:
  assumes "\<not> halted s" "read16 (mem s) (pc s) = Inr i" "\<And>u. execute i u = (Inr (), f u)"
    and "halted (f (fetched s i)) = h"
  obtains t where "step s = (Inr (\<not> h), t)" "halted t = h" "mem t = mem (f (fetched s i))"
    "regs t = regs (f (fetched s i))" "apsr t = apsr (f (fetched s i))"
  using step_fetched [OF assms(1,2)] assms(3,4) that
  by (simp add: fetched_def)

lemma gt_after_sub: "condition_passes 0xC (awc_flags x (NOT z) True) \<longleftrightarrow> sint x > sint z"
proof -
  have "x = z \<longleftrightarrow> sint x = sint z" by (rule word_eq_iff_signed)
  then show ?thesis
    using signed_ge_flags [of x z] by (auto simp: awc_flags_sub condition_passes_def Let_def)
qed

lemma dispatch:
  "execute 0x2101 = exec_imm8 0x2101" "execute 0x4341 = exec_alu 0x4341"
  "execute 0x3801 = exec_imm8 0x3801" "execute 0x2801 = exec_imm8 0x2801"
  "execute 0xDCFB = exec_branch_cond 0xDCFB" "execute 0x4770 = exec_hi_reg_bx 0x4770"
  by (simp_all add: execute_def Let_def field_def)

lemma loop_mov: "exec_imm8 0x2101 s = (Inr (), s\<lparr>apsr := update_nz 1 (apsr s), regs := (regs s)(1 := 1)\<rparr>)"
  by (simp add: exec_imm8_def field_def Let_def)

lemma loop_mul:
  "exec_alu 0x4341 s = (Inr (), s\<lparr>apsr := update_nz (regs s 1 * regs s 0) (apsr s),
     regs := (regs s)(1 := regs s 1 * regs s 0)\<rparr>)"
  by (simp add: exec_alu_def field_def Let_def)

lemma loop_sub:
  "exec_imm8 0x3801 s = (Inr (), s\<lparr>apsr := awc_flags (regs s 0) (NOT 1) True,
     regs := (regs s)(0 := regs s 0 - 1)\<rparr>)"
proof -
  have "awc_result x (NOT 1) True = x - 1" for x
    using sub32_eq [of x 1] by (simp add: awc_result_def AddWithCarry_eq sub32_def)
  then show ?thesis using exec_imm8_awc [of "0x3801" s] by (simp add: field_def Let_def)
qed

lemma loop_cmp: "exec_imm8 0x2801 s = (Inr (), s\<lparr>apsr := awc_flags (regs s 0) (NOT 1) True\<rparr>)"
  using exec_imm8_awc [of "0x2801" s] by (simp add: field_def Let_def)

lemma loop_bgt:
  "exec_branch_cond 0xDCFB s =
     (Inr (), if condition_passes 0xC (apsr s) then set_pc (pc s - 8) s else s)"
  by (simp add: exec_branch_cond_def field_def Let_def)

section \<open>The loop\<close>

text \<open>What the steps keep: not halted, the program in memory, LR as at the start.\<close>

definition looping :: "flat_mem \<Rightarrow> machine \<Rightarrow> bool" where
  "looping m s \<longleftrightarrow> \<not> halted s \<and> mem s = m \<and> holds_loop m \<and> regs s 14 = 0"

lemma of_nat_minus_1: "1 \<le> k \<Longrightarrow> (of_nat k - 1 :: u32) = of_nat (k - 1)"
  by (simp add: of_nat_diff)

lemma sint_small: "j < 2147483648 \<Longrightarrow> sint (of_nat j :: u32) = int j"
  by (simp add: sint_uint_u32 uint_nat unat_of_nat)

lemma one_iteration:
  assumes "looping m s" "pc s = 4" "regs s 0 = of_nat k" "1 \<le> k" "k \<le> 255"
  shows "\<exists>t. run 4 s = (Inr 4, t) \<and> looping m t \<and> pc t = (if 2 < k then 4 else 12) \<and>
    regs t 0 = of_nat (k - 1) \<and> regs t 1 = regs s 1 * of_nat k"
proof -
  have m: "\<not> halted s" "mem s = m" "regs s 14 = 0" and h: "holds_loop m"
    using assms(1) by (auto simp: looping_def)
  note p = assms(2)
  obtain s1 where s1: "step s = (Inr True, s1)" "\<not> halted s1" "mem s1 = m"
    "regs s1 = (regs s)(15 := 6, 1 := regs s 1 * of_nat k)"
    using step_total [of s "0x4341" _ False, OF m(1) _ loop_mul [folded dispatch]] m h p assms(3)
    by (auto simp: holds_loop_def)
  have p1: "pc s1 = 6" by (simp add: pc_def s1(4))
  obtain s2 where s2: "step s1 = (Inr True, s2)" "\<not> halted s2" "mem s2 = m"
    "regs s2 = (regs s1)(15 := 8, 0 := of_nat k - 1)"
    using step_total [of s1 "0x3801" _ False, OF s1(2) _ loop_sub [folded dispatch]] s1 h p1 assms(3)
    by (auto simp: holds_loop_def)
  have p2: "pc s2 = 8" by (simp add: pc_def s2(4))
  obtain s3 where s3: "step s2 = (Inr True, s3)" "\<not> halted s3" "mem s3 = m"
    "regs s3 = (regs s2)(15 := 10)" "apsr s3 = awc_flags (of_nat k - 1) (NOT 1) True"
    using step_total [of s2 "0x2801" _ False, OF s2(2) _ loop_cmp [folded dispatch]] s2 h p2
    by (auto simp: holds_loop_def)
  have p3: "pc s3 = 10" by (simp add: pc_def s3(4))
  have gt: "condition_passes 0xC (apsr s3) \<longleftrightarrow> 2 < k"
    unfolding s3(5) gt_after_sub of_nat_minus_1 [OF assms(4)] using assms(4,5)
    by (simp add: sint_small del: of_nat_diff) arith
  let ?u = "fetched s3 0xDCFB"
  let ?b = "if condition_passes 0xC (apsr ?u) then set_pc (pc ?u - 8) ?u else ?u"
  have rd: "read16 (mem s3) (pc s3) = Inr 0xDCFB" using h s3(3) p3 by (simp add: holds_loop_def)
  have hf: "halted ?b = False" using s3(2) by (simp add: set_pc_def)
  obtain s4 where st4: "step s3 = (Inr (\<not> False), s4)" "halted s4 = False" "mem s4 = mem ?b" "regs s4 = regs ?b"
    by (rule step_total [OF s3(2) rd loop_bgt [folded dispatch] hf])
  have s4: "step s3 = (Inr True, s4)" "\<not> halted s4" "mem s4 = m"
    "regs s4 = (regs s3)(15 := if 2 < k then 4 else 12)"
    using st4 gt p3 s3(3) by (simp_all add: set_pc_def)
  have "run 4 s = (Inr 4, s4)"
    using s1(1) s2(1) s3(1) s4(1) by (simp add: eval_nat_numeral run_Suc)
  moreover have "looping m s4" using s4(2,3) m(3) h
    by (simp add: looping_def s4(4) s3(4) s2(4) s1(4))
  ultimately show ?thesis
    using assms(4) by (intro exI [of _ s4])
      (simp add: pc_def s4(4) s3(4) s2(4) s1(4))
qed

text \<open>\<open>n - 1\<close> rounds for \<open>n \<ge> 2\<close>, one round for 1.\<close>

definition rounds :: "nat \<Rightarrow> nat" where
  "rounds k = (if k \<le> 2 then 1 else k - 1)"

lemma run_append:
  "run a s = (Inr a, t) \<Longrightarrow> run b t = (Inr b, u) \<Longrightarrow> run (a + b) s = (Inr (a + b), u)"
  by (simp add: run_split)

lemma factorial_loop:
  "looping m s \<Longrightarrow> pc s = 4 \<Longrightarrow> regs s 0 = of_nat k \<Longrightarrow> 1 \<le> k \<Longrightarrow> k \<le> 255 \<Longrightarrow>
   \<exists>t. run (4 * rounds k) s = (Inr (4 * rounds k), t) \<and> looping m t \<and> pc t = 12 \<and>
     regs t 1 = regs s 1 * of_nat (fact k)"
proof (induction k arbitrary: s)
  case (Suc k)
  then obtain t where t: "run 4 s = (Inr 4, t)" "looping m t" "pc t = (if 2 < Suc k then 4 else 12)"
    "regs t 0 = of_nat k" "regs t 1 = regs s 1 * of_nat (Suc k)"
    using one_iteration [of m s "Suc k"] by auto
  show ?case
  proof (cases "2 < Suc k")
    case True
    then obtain u where u: "run (4 * rounds k) t = (Inr (4 * rounds k), u)" "looping m u" "pc u = 12"
      "regs u 1 = regs t 1 * of_nat (fact k)"
      using Suc.IH [OF t(2) _ t(4)] t(3) Suc.prems by auto
    have r: "4 * rounds (Suc k) = 4 + 4 * rounds k" using True by (auto simp: rounds_def)
    show ?thesis
      unfolding r using run_append [OF t(1) u(1)] u t(5) by (auto simp: algebra_simps)
  next
    case False
    then have "k = 0 \<or> k = 1" by linarith
    then have r: "4 * rounds (Suc k) = 4" "regs t 1 = regs s 1 * of_nat (fact (Suc k))"
      using t(5) by (auto simp: rounds_def)
    show ?thesis unfolding r(1) using t False r(2) by auto
  qed
qed simp

section \<open>The whole run\<close>

lemma factorial_memory:
  assumes "load new_flat_mem 0 (factorial_image n) = Inr m" "n \<le> 255"
  shows "holds_loop m" "read16 m 0 = Inr (0x2000 OR of_nat n)"
proof -
  have m: "m = new_flat_mem\<lparr>bytes := copy_bytes (\<lambda>_. 0) 0 (factorial_image n)\<rparr>"
    using assms(1) by (simp add: load_def translate_def SIZE_def new_flat_mem_def split: if_splits)
  show "holds_loop m"
    unfolding holds_loop_def m
    by (simp add: read16_def translate_def SIZE_def new_flat_mem_def factorial_image_def join16_def)
  have "ucast (of_nat n :: u8) = (of_nat n :: u16)"
    using assms(2) by (simp add: word_unat_eq_iff unat_of_nat unsigned_ucast_eq take_bit_nat_eq_self)
  then show "read16 m 0 = Inr (0x2000 OR of_nat n)"
    unfolding m
    by (simp add: read16_def translate_def SIZE_def new_flat_mem_def factorial_image_def join16_def or.commute)
qed

lemma mov_operand:
  assumes "n \<le> 255"
  shows "exec_imm8 (0x2000 OR of_nat n) s =
    (Inr (), s\<lparr>apsr := update_nz (of_nat n) (apsr s), regs := (regs s)(0 := of_nat n)\<rparr>)"
    and "execute (0x2000 OR of_nat n) = exec_imm8 (0x2000 OR of_nat n)"
proof -
  let ?i = "0x2000 OR of_nat n :: u16"
  have n: "unat (of_nat n :: u16) = n" using assms by (simp add: unat_of_nat)
  have "(of_nat n :: u16) = take_bit 8 (of_nat n)"
    using assms by (intro word_unat_eq_iff [THEN iffD2]) (simp add: unsigned_take_bit_eq n take_bit_nat_eq_self)
  then have b: "bit (of_nat n :: u16) k \<Longrightarrow> k < 8" for k
    by (metis bit_take_bit_iff)
  have "bit (0x2000 :: u16) k \<longleftrightarrow> k = 13" for k
    using bit_push_bit_iff [of 13 "1 :: u16" k] by (auto simp: bit_1_iff)
  with b have "\<not> bit (0x2000 :: u16) k \<or> \<not> bit (of_nat n :: u16) k" for k
    by fastforce
  then have "?i = 0x2000 + of_nat n"
    by (intro disjunctive_add_eq_or [symmetric] bit_word_eqI) (simp only: bit_and_iff bit_0_eq bot_apply bot_bool_def, blast)
  then have i: "unat ?i = 8192 + n"
    using assms by (simp add: unat_word_ariths n)
  have "(8192 + n) div 2048 = 4" "(8192 + n) div 256 = 32"
    using assms by (auto intro!: div_nat_eqI)
  then have f: "field ?i 11 0x3 = 0" "field ?i 8 0x7 = 0" "field ?i 11 0x1F = 4"
    by (simp_all add: field_mod i)
  have "unat (?i AND mask 8) = n"
    unfolding take_bit_eq_mask [symmetric] unsigned_take_bit_eq i using assms
    by (simp add: take_bit_eq_mod mod_if)
  then have low: "(ucast (?i AND 0xFF) :: u32) = of_nat n"
    using assms
    by (simp add: word_unat_eq_iff unat_of_nat unsigned_ucast_eq mask_eq_exp_minus_1 take_bit_nat_eq_self)
  show "exec_imm8 ?i s =
    (Inr (), s\<lparr>apsr := update_nz (of_nat n) (apsr s), regs := (regs s)(0 := of_nat n)\<rparr>)"
    using exec_imm8_mov [OF f(1)] by (simp add: f(2) low Let_def)
  show "execute ?i = exec_imm8 ?i"
    by (simp add: execute_def Let_def f(3))
qed

text \<open>C9. The factorial program computes the factorial: loaded at address 0 with the operand \<open>n\<close>
  from 1 to 255, the machine after reset halts with \<open>n!\<close> modulo 2 to the 32 in R1, after 4
  instructions per round, 2 before and 1 behind the loop; for 5 these are 19 cycles. \<open>run\<close> returns
  the number of instructions before the one that halts.\<close>

theorem factorial_program:
  assumes "load new_flat_mem 0 (factorial_image n) = Inr m" "1 \<le> n" "n \<le> 255"
    and "4 * rounds n + 2 < max_steps"
  shows "\<exists>t. run max_steps (new_machine m) = (Inr (4 * rounds n + 2), t) \<and> halted t \<and>
    regs t 1 = of_nat (fact n) \<and> cycles t = of_nat (4 * rounds n + 3)"
proof -
  let ?s = "new_machine m" and ?i = "0x2000 OR of_nat n :: u16"
  note mem = factorial_memory [OF assms(1,3)]
  have h: "read16 m 2 = Inr 0x2101" "read16 m 12 = Inr 0x4770"
    using mem(1) by (simp_all add: holds_loop_def)
  have s: "pc ?s = 0" "\<not> halted ?s" "mem ?s = m" "regs ?s 14 = 0" "cycles ?s = 0" "regs ?s 15 = 0"
    by (simp_all add: new_machine_def reset_def pc_def reg_index RESET_PC_def)
  obtain s1 where s1: "step ?s = (Inr True, s1)" "\<not> halted s1" "mem s1 = m"
    "regs s1 = (regs ?s)(15 := 2, 0 := of_nat n)"
    using step_total [of ?s ?i _ False, OF s(2) _ mov_operand(1) [OF assms(3), folded mov_operand(2) [OF assms(3)]]]
      s mem(2) by auto
  have p1: "pc s1 = 2" by (simp add: pc_def s1(4))
  obtain s2 where s2: "step s1 = (Inr True, s2)" "\<not> halted s2" "mem s2 = m"
    "regs s2 = (regs s1)(15 := 4, 1 := 1)"
    using step_total [of s1 "0x2101" _ False, OF s1(2) _ loop_mov [folded dispatch]] s1 h(1) p1 by auto
  have r2: "run 2 ?s = (Inr 2, s2)"
    using s1(1) s2(1) by (simp add: eval_nat_numeral run_Suc)
  have "looping m s2" "pc s2 = 4" "regs s2 0 = of_nat n" "regs s2 1 = 1"
    using s2 s1(4) s(4) mem(1) by (simp_all add: looping_def pc_def)
  from factorial_loop [OF this(1-3) assms(2,3)] this(4)
  obtain u where u: "run (4 * rounds n) s2 = (Inr (4 * rounds n), u)" "looping m u" "pc u = 12"
    "regs u 1 = of_nat (fact n)" by auto
  have lr: "regs u 14 = 0" "\<not> halted u" "mem u = m" using u(2) by (auto simp: looping_def)
  let ?x = "fetched u 0x4770"
  have bx: "exec_hi_reg_bx 0x4770 w = (Inr (), (set_pc (regs w 14 AND NOT 1) w)
      \<lparr>halted := halted w \<or> regs w 14 AND 1 = 0\<rparr>)" for w
    by (simp add: exec_hi_reg_bx_def field_def flag_def Let_def set_pc_def)
  have rd: "read16 (mem u) (pc u) = Inr 0x4770" using h(2) lr(3) u(3) by simp
  let ?w = "(set_pc (regs ?x 14 AND NOT 1) ?x)\<lparr>halted := halted ?x \<or> regs ?x 14 AND 1 = 0\<rparr>"
  have hw: "halted ?w = True" using lr(1) by simp
  obtain t where t: "step u = (Inr (\<not> True), t)" "halted t = True" "regs t = regs ?w"
    by (rule step_total [OF lr(2) rd bx [folded dispatch] hw])
  then have t: "step u = (Inr False, t)" "halted t" "regs t 1 = of_nat (fact n)"
    using u(4) by (simp_all add: set_pc_def)
  have total: "run (2 + 4 * rounds n) ?s = (Inr (2 + 4 * rounds n), u)"
    by (rule run_append [OF r2 u(1)])
  obtain rest where rest: "max_steps = 2 + 4 * rounds n + Suc rest"
    using assms(4) less_natE by (metis add.commute add_Suc_right)
  have r: "run max_steps ?s = (Inr (4 * rounds n + 2), t)"
    unfolding rest run_split [of "2 + 4 * rounds n"] total using t(1) by (simp add: run_Suc)
  have "cycles t = of_nat (4 * rounds n + 3)"
    using run_count [where n = max_steps and s = ?s] s(2,5) t(2) unfolding r by (simp add: algebra_simps)
  with r t show ?thesis by blast
qed

theorem factorial_program_witness:
  "\<exists>m t. load new_flat_mem 0 (factorial_image 5) = Inr m \<and>
     run 100000 (new_machine m) = (Inr 18, t) \<and> halted t \<and> regs t 1 = 120 \<and> cycles t = 19"
proof -
  obtain m where m: "load new_flat_mem 0 (factorial_image 5) = Inr m"
    by (simp add: load_def translate_def SIZE_def factorial_image_def)
  have r: "rounds 5 = 4" by (simp add: rounds_def)
  from factorial_program [OF m, of 100000] m show ?thesis
    by (auto simp: r fact_numeral)
qed

end
