(* ===== verification/Fifo.thy ===== *)
theory Fifo
  imports Prelude
begin

text \<open>
  Bounded queues in circular arrays. The UART (src/peripherals/uart.cpp), the CAN controller
  (src/peripherals/can.cpp) and the RTOS queue (src/rtos/queue.h) each keep an array, a head, a
  tail and a count and update them in the same way: \<open>ring_push\<close> and \<open>ring_pop\<close>. The locale
  \<open>fifo\<close> is the contract of a bounded queue; what a client may rely on is proved in it once.
\<close>

section \<open>The contract\<close>

datatype 'a fifo_op = Push 'a | Pop

text \<open>What a bounded queue answers: whether a push was accepted, and what a pop returned.\<close>

datatype 'a fifo_answer = Accepted bool | Popped "'a option"

text \<open>The queue as a list: the specification.\<close>

fun queue_op :: "nat \<Rightarrow> 'a fifo_op \<Rightarrow> 'a list \<Rightarrow> 'a fifo_answer \<times> 'a list" where
  "queue_op cap (Push x) q = (if length q < cap then (Accepted True, q @ [x]) else (Accepted False, q))"
| "queue_op cap Pop [] = (Popped None, [])"
| "queue_op cap Pop (x # q) = (Popped (Some x), q)"

primrec queue_run :: "nat \<Rightarrow> 'a fifo_op list \<Rightarrow> 'a list \<Rightarrow> 'a fifo_answer list \<times> 'a list" where
  "queue_run cap [] q = ([], q)"
| "queue_run cap (x # xs) q =
     (let (a, q1) = queue_op cap x q; (as, q2) = queue_run cap xs q1 in (a # as, q2))"

text \<open>An implementation run on the same operations.\<close>

primrec fifo_run ::
  "('a \<Rightarrow> 's \<Rightarrow> bool \<times> 's) \<Rightarrow> ('s \<Rightarrow> 'a option \<times> 's) \<Rightarrow> 'a fifo_op list \<Rightarrow> 's \<Rightarrow>
     'a fifo_answer list \<times> 's" where
  "fifo_run push pop [] s = ([], s)"
| "fifo_run push pop (x # xs) s =
     (let (a, s1) = (case x of Push b \<Rightarrow> apfst Accepted (push b s) | Pop \<Rightarrow> apfst Popped (pop s));
          (as, s2) = fifo_run push pop xs s1
      in (a # as, s2))"

text \<open>Pushing a list, and popping until the queue is empty or the fuel is used up.\<close>

primrec push_all :: "('a \<Rightarrow> 's \<Rightarrow> bool \<times> 's) \<Rightarrow> 'a list \<Rightarrow> 's \<Rightarrow> 's" where
  "push_all push [] s = s"
| "push_all push (x # xs) s = push_all push xs (snd (push x s))"

locale fifo =
  fixes push :: "'a \<Rightarrow> 's \<Rightarrow> bool \<times> 's"
    and pop :: "'s \<Rightarrow> 'a option \<times> 's"
    and content :: "'s \<Rightarrow> 'a list"
    and ok :: "'s \<Rightarrow> bool"
    and cap :: nat
  assumes bound: "ok s \<Longrightarrow> length (content s) \<le> cap"
    and push_room: "ok s \<Longrightarrow> length (content s) < cap \<Longrightarrow>
      \<exists>t. push x s = (True, t) \<and> ok t \<and> content t = content s @ [x]"
    and push_full: "ok s \<Longrightarrow> length (content s) = cap \<Longrightarrow> push x s = (False, s)"
    and pop_empty: "ok s \<Longrightarrow> content s = [] \<Longrightarrow> pop s = (None, s)"
    and pop_first: "ok s \<Longrightarrow> content s = x # xs \<Longrightarrow> \<exists>t. pop s = (Some x, t) \<and> ok t \<and> content t = xs"
begin

lemma one_op:
  assumes "ok s"
  shows "\<exists>a t. (case x of Push b \<Rightarrow> apfst Accepted (push b s) | Pop \<Rightarrow> apfst Popped (pop s)) = (a, t) \<and>
    ok t \<and> queue_op cap x (content s) = (a, content t)"
proof (cases x)
  case (Push b)
  show ?thesis
  proof (cases "length (content s) < cap")
    case True
    then show ?thesis using push_room [OF assms True, of b] Push by auto
  next
    case False
    then have "length (content s) = cap" using bound [OF assms] by simp
    then show ?thesis using push_full [OF assms, of b] Push assms by auto
  qed
next
  case Pop
  then show ?thesis
    using pop_empty [OF assms] pop_first [OF assms] assms by (cases "content s") fastforce+
qed

theorem simulates_queue:
  "ok s \<Longrightarrow> fifo_run push pop xs s = (as, t) \<Longrightarrow>
   ok t \<and> queue_run cap xs (content s) = (as, content t)"
proof (induction xs arbitrary: s as t)
  case (Cons x xs)
  from one_op [OF Cons.prems(1), of x] obtain a u where
    u: "(case x of Push b \<Rightarrow> apfst Accepted (push b s) | Pop \<Rightarrow> apfst Popped (pop s)) = (a, u)"
      "ok u" "queue_op cap x (content s) = (a, content u)" by blast
  obtain bs v where v: "fifo_run push pop xs u = (bs, v)" by fastforce
  with Cons.prems(2) u(1) have "as = a # bs" "t = v" by auto
  with Cons.IH [OF u(2) v] u(3) show ?case by simp
qed simp

lemma push_all_ok:
  "ok s \<Longrightarrow> length (content s) + length xs \<le> cap \<Longrightarrow>
   ok (push_all push xs s) \<and> content (push_all push xs s) = content s @ xs"
proof (induction xs arbitrary: s)
  case (Cons x xs)
  then obtain t where "push x s = (True, t)" "ok t" "content t = content s @ [x]"
    using push_room [of s x] by auto
  with Cons show ?case by simp
qed simp

end

section \<open>Circular arrays\<close>

record 'a ring =
  buf :: "'a list"
  head :: nat
  tail :: nat
  count :: nat

definition ring_empty :: "nat \<Rightarrow> 'a \<Rightarrow> 'a ring" where
  "ring_empty cap x = \<lparr>buf = replicate cap x, head = 0, tail = 0, count = 0\<rparr>"

definition ring_push :: "nat \<Rightarrow> 'a \<Rightarrow> 'a ring \<Rightarrow> bool \<times> 'a ring" where
  "ring_push cap b r =
     (if count r = cap then (False, r)
      else (True, r\<lparr>buf := (buf r)[tail r := b], tail := (tail r + 1) mod cap, count := count r + 1\<rparr>))"

definition ring_pop :: "nat \<Rightarrow> 'a ring \<Rightarrow> 'a option \<times> 'a ring" where
  "ring_pop cap r =
     (if count r = 0 then (None, r)
      else (Some (buf r ! head r), r\<lparr>head := (head r + 1) mod cap, count := count r - 1\<rparr>))"

text \<open>The elements, oldest first, and the invariant that keeps all indices in the array.\<close>

definition ring_list :: "nat \<Rightarrow> 'a ring \<Rightarrow> 'a list" where
  "ring_list cap r = map (\<lambda>k. buf r ! ((head r + k) mod cap)) [0 ..< count r]"

definition ring_inv :: "nat \<Rightarrow> 'a ring \<Rightarrow> bool" where
  "ring_inv cap r \<longleftrightarrow> 0 < cap \<and> length (buf r) = cap \<and> head r < cap \<and> count r \<le> cap \<and>
     tail r = (head r + count r) mod cap"

lemma ring_empty_inv: "0 < cap \<Longrightarrow> ring_inv cap (ring_empty cap x)"
  and ring_empty_list: "ring_list cap (ring_empty cap x) = []"
  by (simp_all add: ring_inv_def ring_empty_def ring_list_def)

lemma ring_length [simp]: "length (ring_list cap r) = count r"
  by (simp add: ring_list_def)

lemma slot_neq: "k < n \<Longrightarrow> n < cap \<Longrightarrow> (h + k) mod cap \<noteq> (h + n) mod cap" for h :: nat
proof
  assume k: "k < n" "n < cap" and "(h + k) mod cap = (h + n) mod cap"
  then have "(h + n - (h + k)) mod cap = 0" by (metis mod_eq_dvd_iff_nat add_le_cancel_left less_imp_le dvd_imp_mod_0)
  with k show False by simp
qed

lemma ring_push_room:
  assumes "ring_inv cap r" "count r < cap"
  shows "\<exists>t. ring_push cap b r = (True, t) \<and> ring_inv cap t \<and> ring_list cap t = ring_list cap r @ [b]"
proof -
  let ?t = "r\<lparr>buf := (buf r)[tail r := b], tail := (tail r + 1) mod cap, count := count r + 1\<rparr>"
  have t: "tail r = (head r + count r) mod cap" "length (buf r) = cap" "0 < cap"
    using assms by (auto simp: ring_inv_def)
  have "ring_inv cap ?t"
    using assms by (simp add: ring_inv_def mod_Suc_eq)
  moreover have "(buf r)[tail r := b] ! ((head r + k) mod cap) = buf r ! ((head r + k) mod cap)"
    if "k < count r" for k
    using slot_neq [OF that assms(2), of "head r"] t by (simp add: nth_list_update)
  then have "ring_list cap ?t = ring_list cap r @ [b]"
    using t by (simp add: ring_list_def)
  ultimately show ?thesis using assms(2) by (simp add: ring_push_def)
qed

lemma ring_pop_first:
  assumes "ring_inv cap r" "ring_list cap r = x # xs"
  shows "\<exists>t. ring_pop cap r = (Some x, t) \<and> ring_inv cap t \<and> ring_list cap t = xs"
proof -
  let ?t = "r\<lparr>head := (head r + 1) mod cap, count := count r - 1\<rparr>"
  have c: "count r = Suc (length xs)" using assms(2) ring_length [of cap r] by simp
  have h: "head r < cap" using assms(1) by (simp add: ring_inv_def)
  have l: "ring_list cap r = buf r ! head r # map (\<lambda>k. buf r ! ((head r + Suc k) mod cap)) [0 ..< length xs]"
    unfolding ring_list_def c upt_conv_Cons [OF zero_less_Suc] map_Suc_upt [symmetric] using h
    by (simp add: comp_def)
  have "ring_inv cap ?t"
    using assms(1) c by (simp add: ring_inv_def mod_Suc_eq mod_add_left_eq)
  moreover have "ring_list cap ?t = xs"
    using l assms(2) c by (simp add: ring_list_def mod_add_left_eq)
  moreover have "buf r ! head r = x" using l assms(2) by simp
  ultimately show ?thesis using c by (simp add: ring_pop_def)
qed

lemma ring_rest:
  "ring_inv cap r \<Longrightarrow> length (ring_list cap r) \<le> cap"
  "ring_inv cap r \<Longrightarrow> length (ring_list cap r) = cap \<Longrightarrow> ring_push cap x r = (False, r)"
  "ring_inv cap r \<Longrightarrow> ring_list cap r = [] \<Longrightarrow> ring_pop cap r = (None, r)"
  using ring_length [of cap r] by (simp_all add: ring_inv_def ring_push_def ring_pop_def)

interpretation ring: fifo "ring_push cap" "ring_pop cap" "ring_list cap" "ring_inv cap" cap for cap
  by unfold_locales (fact ring_rest | simp only: ring_length ring_push_room ring_pop_first)+

lemma ring_pop_count: "ring_pop cap r = (Some x, t) \<Longrightarrow> count t < count r"
  by (auto simp: ring_pop_def split: if_splits)

section \<open>A circular array as a member of a larger state\<close>

definition field_push :: "('s \<Rightarrow> 'a ring) \<Rightarrow> ('a ring \<Rightarrow> 's \<Rightarrow> 's) \<Rightarrow> nat \<Rightarrow> 'a \<Rightarrow> 's \<Rightarrow> bool \<times> 's" where
  "field_push get put cap b s = (let (r, f) = ring_push cap b (get s) in (r, put f s))"

definition field_pop :: "('s \<Rightarrow> 'a ring) \<Rightarrow> ('a ring \<Rightarrow> 's \<Rightarrow> 's) \<Rightarrow> nat \<Rightarrow> 's \<Rightarrow> 'a option \<times> 's" where
  "field_pop get put cap s = (let (r, f) = ring_pop cap (get s) in (r, put f s))"

locale ring_field =
  fixes get :: "'s \<Rightarrow> 'a ring"
    and put :: "'a ring \<Rightarrow> 's \<Rightarrow> 's"
    and good :: "'s \<Rightarrow> bool"
    and room :: nat
  assumes get_put: "get (put f s) = f"
    and put_get: "put (get s) s = s"
    and ring_good: "good s \<Longrightarrow> ring_inv room (get s)"
    and put_good: "good s \<Longrightarrow> ring_inv room f \<Longrightarrow> good (put f s)"

sublocale ring_field \<subseteq> fifo "field_push get put room" "field_pop get put room"
  "\<lambda>s. ring_list room (get s)" good room
proof
  fix s :: 's and x :: 'a and xs assume good: "good s"
  note i = ring_good [OF good]
  show "length (ring_list room (get s)) \<le> room" by (rule ring.bound [OF i])
  show "length (ring_list room (get s)) < room \<Longrightarrow>
      \<exists>t. field_push get put room x s = (True, t) \<and> good t \<and>
        ring_list room (get t) = ring_list room (get s) @ [x]"
    using ring.push_room [OF i, of x] put_good [OF good] by (auto simp: field_push_def get_put)
  show "length (ring_list room (get s)) = room \<Longrightarrow> field_push get put room x s = (False, s)"
    using ring.push_full [OF i, of x] by (simp add: field_push_def put_get)
  show "ring_list room (get s) = [] \<Longrightarrow> field_pop get put room s = (None, s)"
    using ring.pop_empty [OF i] by (simp add: field_pop_def put_get)
  show "ring_list room (get s) = x # xs \<Longrightarrow>
      \<exists>t. field_pop get put room s = (Some x, t) \<and> good t \<and> ring_list room (get t) = xs"
    using ring.pop_first [OF i] put_good [OF good] by (fastforce simp: field_pop_def get_put)
qed

end
