(* ===== verification/Uart.thy ===== *)
theory Uart
  imports Fifo
begin

text \<open>
  The UART: src/peripherals/uart.h and src/peripherals/uart.cpp. Its two FIFOs are circular
  arrays of 256 bytes; \<open>read_reg\<close> and \<open>write_reg\<close> are its register interface, \<open>inject_rx\<close>,
  \<open>consume_tx\<close> and \<open>drain_tx\<close> the side of the line. Both FIFOs are interpretations of \<open>fifo\<close>.
\<close>

section \<open>State\<close>

definition FIFO_SIZE :: nat where "FIFO_SIZE = 256"

definition REG_DR :: u32 where "REG_DR = 0x00"
definition REG_SR :: u32 where "REG_SR = 0x04"
definition REG_CR :: u32 where "REG_CR = 0x08"
definition REG_IRQ_THR :: u32 where "REG_IRQ_THR = 0x0C"
definition REG_FIFO_LVL :: u32 where "REG_FIFO_LVL = 0x10"

definition SR_TX_EMPTY :: u32 where "SR_TX_EMPTY = push_bit 0 1"
definition SR_RX_READY :: u32 where "SR_RX_READY = push_bit 1 1"
definition SR_RX_FULL :: u32 where "SR_RX_FULL = push_bit 2 1"
definition SR_TX_FULL :: u32 where "SR_TX_FULL = push_bit 3 1"
definition SR_RX_IRQ :: u32 where "SR_RX_IRQ = push_bit 4 1"

definition CR_ENABLE :: u32 where "CR_ENABLE = push_bit 0 1"
definition CR_RX_IRQ_EN :: u32 where "CR_RX_IRQ_EN = push_bit 1 1"
definition CR_LOOPBACK :: u32 where "CR_LOOPBACK = push_bit 2 1"

lemmas uart_regs = REG_DR_def REG_SR_def REG_CR_def REG_IRQ_THR_def REG_FIFO_LVL_def
lemmas uart_bits = SR_TX_EMPTY_def SR_RX_READY_def SR_RX_FULL_def SR_TX_FULL_def SR_RX_IRQ_def
  CR_ENABLE_def CR_RX_IRQ_EN_def CR_LOOPBACK_def

text \<open>
  \<open>tx_fifo\<close> stands for the members \<open>tx_fifo_\<close>, \<open>tx_head_\<close>, \<open>tx_tail_\<close> and \<open>tx_count_\<close>,
  \<open>rx_fifo\<close> for those of the receiver. The name is not modelled.
\<close>

record uart =
  tx_fifo :: "u8 ring"
  rx_fifo :: "u8 ring"
  cr :: u32
  irq_thr :: u32

definition new_uart :: uart where
  "new_uart = \<lparr>tx_fifo = ring_empty FIFO_SIZE 0, rx_fifo = ring_empty FIFO_SIZE 0,
               cr = CR_ENABLE, irq_thr = 1\<rparr>"

section \<open>Operations\<close>

definition tx_push :: "u8 \<Rightarrow> uart \<Rightarrow> bool \<times> uart" where
  "tx_push b u = (let (r, f) = ring_push FIFO_SIZE b (tx_fifo u) in (r, u\<lparr>tx_fifo := f\<rparr>))"

definition tx_pop :: "uart \<Rightarrow> u8 option \<times> uart" where
  "tx_pop u = (let (r, f) = ring_pop FIFO_SIZE (tx_fifo u) in (r, u\<lparr>tx_fifo := f\<rparr>))"

definition rx_push :: "u8 \<Rightarrow> uart \<Rightarrow> bool \<times> uart" where
  "rx_push b u = (let (r, f) = ring_push FIFO_SIZE b (rx_fifo u) in (r, u\<lparr>rx_fifo := f\<rparr>))"

definition rx_pop :: "uart \<Rightarrow> u8 option \<times> uart" where
  "rx_pop u = (let (r, f) = ring_pop FIFO_SIZE (rx_fifo u) in (r, u\<lparr>rx_fifo := f\<rparr>))"

definition rx_irq_pending :: "uart \<Rightarrow> bool" where
  "rx_irq_pending u = (count (rx_fifo u) \<ge> unat (irq_thr u))"

definition build_sr :: "uart \<Rightarrow> u32" where
  "build_sr u =
     (let sr = 0;
          sr = (if count (tx_fifo u) < FIFO_SIZE then sr OR SR_TX_EMPTY else sr);
          sr = (if count (rx_fifo u) > 0 then sr OR SR_RX_READY else sr);
          sr = (if count (rx_fifo u) = FIFO_SIZE then sr OR SR_RX_FULL else sr);
          sr = (if count (tx_fifo u) = FIFO_SIZE then sr OR SR_TX_FULL else sr)
      in if cr u AND CR_RX_IRQ_EN \<noteq> 0 \<and> rx_irq_pending u then sr OR SR_RX_IRQ else sr)"

text \<open>Reading DR pops the receive FIFO although the function is \<open>const\<close> (the members are mutable).\<close>

definition uart_read_reg :: "u32 \<Rightarrow> uart \<Rightarrow> u32 \<times> uart" where
  "uart_read_reg offset u =
     (if offset = REG_DR then
        (case rx_pop u of (None, t) \<Rightarrow> (0, t) | (Some b, t) \<Rightarrow> (ucast b, t))
      else if offset = REG_SR then (build_sr u, u)
      else if offset = REG_CR then (cr u, u)
      else if offset = REG_IRQ_THR then (irq_thr u, u)
      else if offset = REG_FIFO_LVL then
        (push_bit 8 (of_nat (count (tx_fifo u))) OR of_nat (count (rx_fifo u)), u)
      else (0, u))"

definition uart_write_reg :: "u32 \<Rightarrow> u32 \<Rightarrow> uart \<Rightarrow> uart" where
  "uart_write_reg offset val u =
     (if offset = REG_DR then
        (let b = ucast (val AND 0xFF)
         in if cr u AND CR_LOOPBACK \<noteq> 0 then snd (rx_push b u) else snd (tx_push b u))
      else if offset = REG_CR then u\<lparr>cr := val AND 0x07\<rparr>
      else if offset = REG_IRQ_THR then
        u\<lparr>irq_thr := if val = 0 \<or> unat val > FIFO_SIZE then 1 else val\<rparr>
      else u)"

definition inject_rx :: "u8 \<Rightarrow> uart \<Rightarrow> bool \<times> uart" where
  "inject_rx b u = rx_push b u"

definition consume_tx :: "uart \<Rightarrow> u8 option \<times> uart" where
  "consume_tx u = tx_pop u"

lemma tx_pop_count: "tx_pop u = (Some b, t) \<Longrightarrow> count (tx_fifo t) < count (tx_fifo u)"
  by (auto simp: tx_pop_def dest: ring_pop_count split: prod.splits)

function drain_tx :: "uart \<Rightarrow> u8 list \<times> uart" where
  "drain_tx u =
     (case tx_pop u of
        (None, t) \<Rightarrow> ([], t)
      | (Some b, t) \<Rightarrow> (let (bs, v) = drain_tx t in (b # bs, v)))"
  by pat_completeness auto
termination
  by (relation "measure (\<lambda>u. count (tx_fifo u))") (auto dest: tx_pop_count [OF sym])

declare drain_tx.simps [simp del]

definition uart_reset :: "uart \<Rightarrow> uart" where
  "uart_reset u =
     u\<lparr>tx_fifo := (tx_fifo u)\<lparr>head := 0, tail := 0, count := 0\<rparr>,
       rx_fifo := (rx_fifo u)\<lparr>head := 0, tail := 0, count := 0\<rparr>,
       cr := CR_ENABLE, irq_thr := 1\<rparr>"

section \<open>Invariant\<close>

definition uart_ok :: "uart \<Rightarrow> bool" where
  "uart_ok u \<longleftrightarrow> ring_inv FIFO_SIZE (tx_fifo u) \<and> ring_inv FIFO_SIZE (rx_fifo u) \<and>
     1 \<le> unat (irq_thr u) \<and> unat (irq_thr u) \<le> FIFO_SIZE \<and> unat (cr u) \<le> 7"

definition tx_bytes :: "uart \<Rightarrow> u8 list" where
  "tx_bytes u = ring_list FIFO_SIZE (tx_fifo u)"

definition rx_bytes :: "uart \<Rightarrow> u8 list" where
  "rx_bytes u = ring_list FIFO_SIZE (rx_fifo u)"

lemma count_bytes: "count (tx_fifo u) = length (tx_bytes u)" "count (rx_fifo u) = length (rx_bytes u)"
  by (simp_all add: tx_bytes_def rx_bytes_def)

lemma new_uart_ok: "uart_ok new_uart"
  by (simp add: uart_ok_def new_uart_def ring_empty_inv FIFO_SIZE_def uart_bits)

interpretation tx: ring_field tx_fifo "\<lambda>f u. u\<lparr>tx_fifo := f\<rparr>" uart_ok FIFO_SIZE
  rewrites "field_push tx_fifo (\<lambda>f u. u\<lparr>tx_fifo := f\<rparr>) FIFO_SIZE = tx_push"
    and "field_pop tx_fifo (\<lambda>f u. u\<lparr>tx_fifo := f\<rparr>) FIFO_SIZE = tx_pop"
    and "\<And>u. ring_list FIFO_SIZE (tx_fifo u) = tx_bytes u"
  by unfold_locales (simp_all add: uart_ok_def fun_eq_iff field_push_def field_pop_def tx_push_def
      tx_pop_def tx_bytes_def)

interpretation rx: ring_field rx_fifo "\<lambda>f u. u\<lparr>rx_fifo := f\<rparr>" uart_ok FIFO_SIZE
  rewrites "field_push rx_fifo (\<lambda>f u. u\<lparr>rx_fifo := f\<rparr>) FIFO_SIZE = rx_push"
    and "field_pop rx_fifo (\<lambda>f u. u\<lparr>rx_fifo := f\<rparr>) FIFO_SIZE = rx_pop"
    and "\<And>u. ring_list FIFO_SIZE (rx_fifo u) = rx_bytes u"
  by unfold_locales (simp_all add: uart_ok_def fun_eq_iff field_push_def field_pop_def rx_push_def
      rx_pop_def rx_bytes_def)

section \<open>The UART as two queues\<close>

text \<open>What the host (registers) and the line do with the UART, and what they get back.\<close>

datatype uart_event = HostWrite u8 | HostRead | HostControl u32 | LineSend u8 | LineTake | LineDrain

datatype uart_answer = Silent | Word u32 | Taken bool | Byte "u8 option" | Bytes "u8 list"

definition uart_event :: "uart_event \<Rightarrow> uart \<Rightarrow> uart_answer \<times> uart" where
  "uart_event e u =
     (case e of
        HostWrite b \<Rightarrow> (Silent, uart_write_reg REG_DR (ucast b) u)
      | HostRead \<Rightarrow> apfst Word (uart_read_reg REG_DR u)
      | HostControl v \<Rightarrow> (Silent, uart_write_reg REG_CR v u)
      | LineSend b \<Rightarrow> apfst Taken (inject_rx b u)
      | LineTake \<Rightarrow> apfst Byte (consume_tx u)
      | LineDrain \<Rightarrow> apfst Bytes (drain_tx u))"

text \<open>The specification: the bytes on the way out and in, and whether the loop is closed.\<close>

record uart_spec =
  outgoing :: "u8 list"
  incoming :: "u8 list"
  looped :: bool

definition enqueue :: "u8 \<Rightarrow> u8 list \<Rightarrow> u8 list" where
  "enqueue b q = (if length q < FIFO_SIZE then q @ [b] else q)"

definition spec_event :: "uart_event \<Rightarrow> uart_spec \<Rightarrow> uart_answer \<times> uart_spec" where
  "spec_event e q =
     (case e of
        HostWrite b \<Rightarrow> (Silent, if looped q then q\<lparr>incoming := enqueue b (incoming q)\<rparr>
                                else q\<lparr>outgoing := enqueue b (outgoing q)\<rparr>)
      | HostRead \<Rightarrow> (case incoming q of [] \<Rightarrow> (Word 0, q) | b # bs \<Rightarrow> (Word (ucast b), q\<lparr>incoming := bs\<rparr>))
      | HostControl v \<Rightarrow> (Silent, q\<lparr>looped := bit v 2\<rparr>)
      | LineSend b \<Rightarrow> (Taken (length (incoming q) < FIFO_SIZE), q\<lparr>incoming := enqueue b (incoming q)\<rparr>)
      | LineTake \<Rightarrow> (case outgoing q of [] \<Rightarrow> (Byte None, q) | b # bs \<Rightarrow> (Byte (Some b), q\<lparr>outgoing := bs\<rparr>))
      | LineDrain \<Rightarrow> (Bytes (outgoing q), q\<lparr>outgoing := []\<rparr>))"

primrec uart_run :: "uart_event list \<Rightarrow> uart \<Rightarrow> uart_answer list \<times> uart" where
  "uart_run [] u = ([], u)"
| "uart_run (e # es) u = (let (a, v) = uart_event e u; (as, w) = uart_run es v in (a # as, w))"

primrec spec_run :: "uart_event list \<Rightarrow> uart_spec \<Rightarrow> uart_answer list \<times> uart_spec" where
  "spec_run [] q = ([], q)"
| "spec_run (e # es) q = (let (a, r) = spec_event e q; (as, t) = spec_run es r in (a # as, t))"

definition uart_abs :: "uart \<Rightarrow> uart_spec" where
  "uart_abs u = \<lparr>outgoing = tx_bytes u, incoming = rx_bytes u, looped = bit (cr u) 2\<rparr>"

lemma tx_frame [simp]:
  "cr (snd (tx_push b u)) = cr u" "rx_bytes (snd (tx_push b u)) = rx_bytes u"
  "cr (snd (tx_pop u)) = cr u" "rx_bytes (snd (tx_pop u)) = rx_bytes u"
  "cr (snd (rx_push b u)) = cr u" "tx_bytes (snd (rx_push b u)) = tx_bytes u"
  "cr (snd (rx_pop u)) = cr u" "tx_bytes (snd (rx_pop u)) = tx_bytes u"
  by (simp_all add: tx_push_def tx_pop_def rx_push_def rx_pop_def tx_bytes_def rx_bytes_def split: prod.splits)

lemma tx_push_queue:
  "uart_ok u \<Longrightarrow> uart_ok (snd (tx_push b u)) \<and> tx_bytes (snd (tx_push b u)) = enqueue b (tx_bytes u)"
  using tx.push_room [of u b] tx.push_full [of u b] tx.bound [of u]
  by (cases "length (tx_bytes u) < FIFO_SIZE") (auto simp: enqueue_def)

lemma rx_push_queue:
  "uart_ok u \<Longrightarrow> uart_ok (snd (rx_push b u)) \<and> rx_bytes (snd (rx_push b u)) = enqueue b (rx_bytes u) \<and>
     fst (rx_push b u) = (length (rx_bytes u) < FIFO_SIZE)"
  using rx.push_room [of u b] rx.push_full [of u b] rx.bound [of u]
  by (cases "length (rx_bytes u) < FIFO_SIZE") (auto simp: enqueue_def)

lemma drain_tx_all:
  "uart_ok u \<Longrightarrow> \<exists>t. drain_tx u = (tx_bytes u, t) \<and> uart_ok t \<and> tx_bytes t = [] \<and>
     rx_bytes t = rx_bytes u \<and> cr t = cr u"
proof (induction u rule: drain_tx.induct)
  case (1 u)
  show ?case
  proof (cases "tx_bytes u")
    case Nil
    then show ?thesis using tx.pop_empty [OF 1(2)] 1(2) by (simp add: drain_tx.simps [of u])
  next
    case (Cons b bs)
    then obtain t where t: "tx_pop u = (Some b, t)" "uart_ok t" "tx_bytes t = bs"
      using tx.pop_first [OF 1(2)] by blast
    have "rx_bytes t = rx_bytes u" "cr t = cr u"
      using tx_frame(3,4) [of u] by (simp_all add: t(1))
    with 1(1) [OF t(1) [symmetric] refl] t show ?thesis
      by (auto simp: drain_tx.simps [of u] Cons)
  qed
qed

lemma loopback_bit: "(w AND CR_LOOPBACK \<noteq> 0) = bit w 2"
  unfolding CR_LOOPBACK_def by (rule test_bit_iff)

lemma control_bits: "bit (v AND 0x07) 2 = bit (v :: u32) 2" "unat (v AND 0x07 :: u32) \<le> 7"
proof -
  have m: "(0x07 :: u32) = mask 3" by (simp add: mask_eq_exp_minus_1)
  show "bit (v AND 0x07) 2 = bit v 2" unfolding m by (simp add: bit_and_iff bit_mask_iff)
  show "unat (v AND 0x07 :: u32) \<le> 7" using unat_and_le [of v 7] by simp
qed

lemma low_byte: "ucast ((ucast b :: u32) AND 0xFF) = b" for b :: u8
proof -
  have m: "(0xFF :: u32) = mask 8" by (simp add: mask_eq_exp_minus_1)
  show ?thesis unfolding m by (rule bit_word_eqI) (simp add: bit_simps)
qed

lemma one_event:
  assumes "uart_ok u"
  shows "\<exists>a v. uart_event e u = (a, v) \<and> uart_ok v \<and> spec_event e (uart_abs u) = (a, uart_abs v)"
proof (cases e)
  case (HostWrite b)
  show ?thesis
    using tx_push_queue [OF assms, of b] rx_push_queue [OF assms, of b] HostWrite
    by (simp add: uart_event_def spec_event_def uart_write_reg_def uart_regs loopback_bit low_byte
        uart_abs_def)
next
  case HostRead
  show ?thesis
  proof (cases "rx_bytes u")
    case Nil
    then show ?thesis
      using rx.pop_empty [OF assms Nil] assms HostRead
      by (simp add: uart_event_def spec_event_def uart_read_reg_def uart_abs_def)
  next
    case (Cons b bs)
    then obtain t where t: "rx_pop u = (Some b, t)" "uart_ok t" "rx_bytes t = bs"
      using rx.pop_first [OF assms] by blast
    have "tx_bytes t = tx_bytes u" "cr t = cr u"
      using tx_frame(7,8) [of u] by (simp_all add: t(1))
    with t Cons HostRead show ?thesis
      by (simp add: uart_event_def spec_event_def uart_read_reg_def uart_abs_def)
  qed
next
  case (HostControl v)
  then show ?thesis
    using assms control_bits [of v]
    by (simp add: uart_event_def spec_event_def uart_write_reg_def uart_regs uart_abs_def uart_ok_def
        tx_bytes_def rx_bytes_def)
next
  case (LineSend b)
  then show ?thesis
    using rx_push_queue [OF assms, of b] tx_frame(5,6) [of b u]
    by (cases "rx_push b u") (simp add: uart_event_def spec_event_def inject_rx_def uart_abs_def)
next
  case LineTake
  show ?thesis
  proof (cases "tx_bytes u")
    case Nil
    then show ?thesis
      using tx.pop_empty [OF assms Nil] assms LineTake
      by (simp add: uart_event_def spec_event_def consume_tx_def uart_abs_def)
  next
    case (Cons b bs)
    then obtain t where t: "tx_pop u = (Some b, t)" "uart_ok t" "tx_bytes t = bs"
      using tx.pop_first [OF assms] by blast
    have "rx_bytes t = rx_bytes u" "cr t = cr u"
      using tx_frame(3,4) [of u] by (simp_all add: t(1))
    with t Cons LineTake show ?thesis
      by (simp add: uart_event_def spec_event_def consume_tx_def uart_abs_def)
  qed
next
  case LineDrain
  then show ?thesis
    using drain_tx_all [OF assms] by (auto simp: uart_event_def spec_event_def uart_abs_def)
qed

section \<open>Properties\<close>



lemma bit_flags:
  "bit (if p then w OR push_bit k 1 else w) n = (bit w n \<or> p \<and> n = k \<and> n < 32)" for w :: u32
proof -
  have "bit (push_bit k (1 :: u32)) n \<longleftrightarrow> n = k \<and> n < 32"
    unfolding bit_push_bit_iff by (auto simp: bit_1_iff)
  then show ?thesis by (simp add: bit_or_iff del: push_bit_of_1)
qed

text \<open>The status register says what the queues are: TX_EMPTY and TX_FULL whether the
  transmitter has room, RX_READY and RX_FULL whether the receiver has bytes and has no room, and
  RX_IRQ, when enabled, whether the receiver has reached the threshold. And the ENABLE bit says
  nothing: a UART that is disabled takes a byte to send as an enabled one does.\<close>

theorem uart_status_exact:
  "(let sr = fst (uart_read_reg REG_SR u)
    in bit sr 0 = (length (tx_bytes u) < FIFO_SIZE) \<and> bit sr 1 = (rx_bytes u \<noteq> []) \<and>
       bit sr 2 = (length (rx_bytes u) = FIFO_SIZE) \<and> bit sr 3 = (length (tx_bytes u) = FIFO_SIZE) \<and>
       bit sr 4 = (bit (cr u) 1 \<and> unat (irq_thr u) \<le> length (rx_bytes u))) \<and>
   uart_write_reg REG_DR v (u\<lparr>cr := cr u AND NOT CR_ENABLE\<rparr>) =
     (uart_write_reg REG_DR v u)\<lparr>cr := cr u AND NOT CR_ENABLE\<rparr>"
proof
  have irq: "(cr u AND CR_RX_IRQ_EN \<noteq> 0) = bit (cr u) 1"
    unfolding CR_RX_IRQ_EN_def by (rule test_bit_iff)
  show "let sr = fst (uart_read_reg REG_SR u)
    in bit sr 0 = (length (tx_bytes u) < FIFO_SIZE) \<and> bit sr 1 = (rx_bytes u \<noteq> []) \<and>
       bit sr 2 = (length (rx_bytes u) = FIFO_SIZE) \<and> bit sr 3 = (length (tx_bytes u) = FIFO_SIZE) \<and>
       bit sr 4 = (bit (cr u) 1 \<and> unat (irq_thr u) \<le> length (rx_bytes u))"
    unfolding uart_read_reg_def uart_regs build_sr_def SR_TX_EMPTY_def SR_RX_READY_def
      SR_RX_FULL_def SR_TX_FULL_def SR_RX_IRQ_def Let_def irq count_bytes rx_irq_pending_def
    by (simp add: bit_flags)
  have keep: "bit (cr u AND NOT CR_ENABLE) 2 = bit (cr u) 2"
    by (simp add: CR_ENABLE_def bit_and_iff bit_not_iff bit_1_iff)
  show "uart_write_reg REG_DR v (u\<lparr>cr := cr u AND NOT CR_ENABLE\<rparr>) =
     (uart_write_reg REG_DR v u)\<lparr>cr := cr u AND NOT CR_ENABLE\<rparr>"
    unfolding uart_write_reg_def loopback_bit
    by (simp add: keep REG_DR_def rx_push_def tx_push_def Let_def split: prod.splits)
qed

text \<open>The fill levels do not fit the register: with the receiver full, FIFO_LVL reads as the
  level of an empty receiver and one more byte in the transmitter than there is.\<close>

theorem full_receiver_level:
  assumes "length (rx_bytes u) = FIFO_SIZE" "tx_bytes u = []"
    and "rx_bytes w = []" "length (tx_bytes w) = 1"
  shows "fst (uart_read_reg REG_FIFO_LVL u) = 0x100 \<and> fst (uart_read_reg REG_FIFO_LVL w) = 0x100"
  using assms by (simp add: uart_read_reg_def uart_regs count_bytes FIFO_SIZE_def)

theorem full_receiver_level_witness:
  "\<exists>u. uart_ok u \<and> length (rx_bytes u) = FIFO_SIZE \<and> fst (uart_read_reg REG_FIFO_LVL u) = 0x100"
proof -
  let ?u = "push_all rx_push (replicate FIFO_SIZE 7) new_uart" and ?w = "push_all tx_push [7] new_uart"
  have e: "rx_bytes new_uart = []" "tx_bytes new_uart = []"
    by (simp_all add: new_uart_def tx_bytes_def rx_bytes_def ring_empty_list)
  have tx_same: "tx_bytes (push_all rx_push bs v) = tx_bytes v" for bs v
    by (induction bs arbitrary: v) simp_all
  have rx_same: "rx_bytes (push_all tx_push bs v) = rx_bytes v" for bs v
    by (induction bs arbitrary: v) simp_all
  have u: "uart_ok ?u" "rx_bytes ?u = replicate FIFO_SIZE 7" "tx_bytes ?u = []"
    using rx.push_all_ok [OF new_uart_ok, of "replicate FIFO_SIZE 7"] e
    by (simp_all add: tx_same)
  have w: "tx_bytes ?w = [7]" "rx_bytes ?w = []"
    using tx.push_all_ok [OF new_uart_ok, of "[7]"] e
    by (simp_all only: rx_same) (simp add: FIFO_SIZE_def)
  show ?thesis
    using full_receiver_level [of ?u ?w] u w by auto
qed

end
