(* ===== verification/Bus.thy ===== *)
theory Bus
  imports Prelude
begin

text \<open>
  The peripheral bus: src/peripherals/peripheral.h. The entries are a list, the first \<open>count_\<close>
  of the array; a pointer to a peripheral is its number. The interface \<open>IPeripheral\<close> is the pair
  of functions \<open>rr\<close> and \<open>wr\<close> that read and write a register (reading may change the state, as
  it does for the UART).
\<close>

section \<open>State and operations\<close>

definition MAX_PERIPHERALS :: nat where "MAX_PERIPHERALS = 8"
definition REGION_SIZE :: u32 where "REGION_SIZE = 0x1000"

definition UART0_BASE :: u32 where "UART0_BASE = 0x40000000"
definition UART1_BASE :: u32 where "UART1_BASE = 0x40001000"
definition SPI0_BASE :: u32 where "SPI0_BASE = 0x40002000"
definition I2C0_BASE :: u32 where "I2C0_BASE = 0x40003000"
definition CAN0_BASE :: u32 where "CAN0_BASE = 0x40004000"
definition CAN1_BASE :: u32 where "CAN1_BASE = 0x40005000"

lemmas periph_map = UART0_BASE_def UART1_BASE_def SPI0_BASE_def I2C0_BASE_def CAN0_BASE_def
  CAN1_BASE_def REGION_SIZE_def

record entry =
  base :: u32
  window :: u32
  periph :: nat

definition attach :: "u32 \<Rightarrow> nat \<Rightarrow> u32 \<Rightarrow> entry list \<Rightarrow> exn + entry list" where
  "attach b p sz es =
     (if length es \<ge> MAX_PERIPHERALS then Inl (PeripheralError ''too many peripherals'')
      else Inr (es @ [\<lparr>base = b, window = sz, periph = p\<rparr>]))"

definition peripheral_count :: "entry list \<Rightarrow> nat" where
  "peripheral_count es = length es"

lemma attach_room:
  "case attach b p sz es of
     Inl e \<Rightarrow> peripheral_count es \<ge> MAX_PERIPHERALS \<and> e = PeripheralError ''too many peripherals''
   | Inr es' \<Rightarrow> peripheral_count es < MAX_PERIPHERALS \<and> peripheral_count es' = peripheral_count es + 1"
  by (simp add: attach_def peripheral_count_def)

text \<open>The comparison is in 32 bits: \<open>base + size\<close> wraps.\<close>

definition hits :: "u32 \<Rightarrow> entry \<Rightarrow> bool" where
  "hits addr e \<longleftrightarrow> addr \<ge> base e \<and> addr < base e + window e"

primrec find_entry :: "u32 \<Rightarrow> entry list \<Rightarrow> entry option" where
  "find_entry addr [] = None"
| "find_entry addr (e # es) = (if hits addr e then Some e else find_entry addr es)"

definition is_mapped :: "u32 \<Rightarrow> entry list \<Rightarrow> bool" where
  "is_mapped addr es = (find_entry addr es \<noteq> None)"

text \<open>
  \<open>rr p\<close> and \<open>wr p\<close> read and write a register of peripheral \<open>p\<close>, in the state of all of them: a
  CAN node reaches the others through its bus.
\<close>

definition bus_read :: "(nat \<Rightarrow> u32 \<Rightarrow> 'w \<Rightarrow> u32 \<times> 'w) \<Rightarrow> entry list \<Rightarrow> u32 \<Rightarrow> ('w, u32) act" where
  "bus_read rr es addr w =
     (case find_entry addr es of
        None \<Rightarrow> (Inl (AddressError addr), w)
      | Some e \<Rightarrow> (let (v, w) = rr (periph e) (addr - base e) w in (Inr v, w)))"

definition bus_write :: "(nat \<Rightarrow> u32 \<Rightarrow> u32 \<Rightarrow> 'w \<Rightarrow> 'w) \<Rightarrow> entry list \<Rightarrow> u32 \<Rightarrow> u32 \<Rightarrow> ('w, unit) act" where
  "bus_write wr es addr val w =
     (case find_entry addr es of
        None \<Rightarrow> (Inl (AddressError addr), w)
      | Some e \<Rightarrow> (Inr (), wr (periph e) (addr - base e) val w))"

section \<open>The contract of the peripherals\<close>

text \<open>
  \<open>ok\<close> is an invariant of the state of all peripherals that their register reads and writes keep:
  accesses through the bus keep it too, whatever is attached and whatever the addresses are.
\<close>

locale peripherals =
  fixes rr :: "nat \<Rightarrow> u32 \<Rightarrow> 'w \<Rightarrow> u32 \<times> 'w"
    and wr :: "nat \<Rightarrow> u32 \<Rightarrow> u32 \<Rightarrow> 'w \<Rightarrow> 'w"
    and ok :: "'w \<Rightarrow> bool"
  assumes read_ok: "ok w \<Longrightarrow> ok (snd (rr p off w))"
    and write_ok: "ok w \<Longrightarrow> ok (wr p off v w)"
begin

lemma bus_read_keeps: "keeps ok (bus_read rr es addr)"
  using read_ok by (intro keepsI) (simp add: bus_read_def Let_def split_def split: option.split)

lemma bus_write_keeps: "keeps ok (bus_write wr es addr v)"
  using write_ok by (intro keepsI) (simp add: bus_write_def split: option.split)

end

text \<open>A sequence of accesses, with what each of them returned or threw.\<close>

datatype access = Load u32 | Store u32 u32

definition bus_access ::
  "(nat \<Rightarrow> u32 \<Rightarrow> 'w \<Rightarrow> u32 \<times> 'w) \<Rightarrow> (nat \<Rightarrow> u32 \<Rightarrow> u32 \<Rightarrow> 'w \<Rightarrow> 'w) \<Rightarrow> entry list \<Rightarrow> access \<Rightarrow>
     'w \<Rightarrow> (exn + u32 option) \<times> 'w" where
  "bus_access rr wr es a w =
     (case a of
        Load addr \<Rightarrow> (case bus_read rr es addr w of (Inl e, w) \<Rightarrow> (Inl e, w) | (Inr v, w) \<Rightarrow> (Inr (Some v), w))
      | Store addr v \<Rightarrow> (case bus_write wr es addr v w of (Inl e, w) \<Rightarrow> (Inl e, w) | (Inr _, w) \<Rightarrow> (Inr None, w)))"

primrec bus_accesses ::
  "(nat \<Rightarrow> u32 \<Rightarrow> 'w \<Rightarrow> u32 \<times> 'w) \<Rightarrow> (nat \<Rightarrow> u32 \<Rightarrow> u32 \<Rightarrow> 'w \<Rightarrow> 'w) \<Rightarrow> entry list \<Rightarrow> access list \<Rightarrow>
     'w \<Rightarrow> (exn + u32 option) list \<times> 'w" where
  "bus_accesses rr wr es [] w = ([], w)"
| "bus_accesses rr wr es (a # as) w =
     (let (r, w) = bus_access rr wr es a w; (rs, w) = bus_accesses rr wr es as w in (r # rs, w))"

primrec address :: "access \<Rightarrow> u32" where
  "address (Load a) = a"
| "address (Store a v) = a"

lemma access_answer: "isl (fst (bus_access rr wr es a w)) = (\<not> is_mapped (address a) es)"
  and access_error: "fst (bus_access rr wr es a w) = Inl e \<Longrightarrow> e = AddressError (address a)"
  by (cases a; simp add: bus_access_def bus_read_def bus_write_def is_mapped_def Let_def split_def split: option.splits)+

context peripherals
begin

lemma access_ok: "ok w \<Longrightarrow> ok (snd (bus_access rr wr es a w))"
  using read_ok write_ok
  by (cases a) (simp_all add: bus_access_def bus_read_def bus_write_def Let_def split_def split: option.split)

lemma accesses_ok:
  "ok w \<Longrightarrow> ok (snd (bus_accesses rr wr es as w)) \<and>
   list_all2 (\<lambda>a r. case r of Inl e \<Rightarrow> \<not> is_mapped (address a) es \<and> e = AddressError (address a)
                     | Inr _ \<Rightarrow> is_mapped (address a) es) as (fst (bus_accesses rr wr es as w))"
proof (induction as arbitrary: w)
  case (Cons a as)
  obtain r u where r: "bus_access rr wr es a w = (r, u)" by fastforce
  have "ok u" using access_ok [OF Cons.prems, of es a] r by simp
  moreover have "isl r = (\<not> is_mapped (address a) es)" "\<And>e. r = Inl e \<Longrightarrow> e = AddressError (address a)"
    using access_answer [of rr wr es a w] access_error [of rr wr es a w] r by simp_all
  ultimately show ?case
    using Cons.IH [of u] r by (cases r) (simp_all add: split_def Let_def)
qed simp

end

section \<open>Windows\<close>

text \<open>The bytes of an entry's window, when it does not wrap.\<close>

definition covers :: "entry \<Rightarrow> nat \<Rightarrow> bool" where
  "covers e a \<longleftrightarrow> unat (base e) \<le> a \<and> a < unat (base e) + unat (window e)"

definition fits :: "entry \<Rightarrow> bool" where
  "fits e \<longleftrightarrow> unat (base e) + unat (window e) < 2 ^ 32"

lemma hits_covers: "fits e \<Longrightarrow> hits addr e \<longleftrightarrow> covers e (unat addr)"
proof -
  assume "fits e"
  then have "unat (base e + window e) = unat (base e) + unat (window e)"
    by (simp add: fits_def unat_word_ariths)
  then show ?thesis by (simp add: hits_def covers_def word_le_nat_alt word_less_nat_alt)
qed

text \<open>A bus whose windows do not wrap and do not overlap.\<close>

definition layout_ok :: "entry list \<Rightarrow> bool" where
  "layout_ok es \<longleftrightarrow> (\<forall>e \<in> set es. fits e) \<and>
     sorted_wrt (\<lambda>d e. \<forall>a. \<not> (covers d a \<and> covers e a)) es"

lemma find_entry_hit: "find_entry addr es = Some e \<Longrightarrow> e \<in> set es \<and> hits addr e"
  by (induction es) (auto split: if_splits)

lemma find_entry_unique:
  "layout_ok es \<Longrightarrow> e \<in> set es \<Longrightarrow> covers e (unat addr) \<Longrightarrow> find_entry addr es = Some e"
proof (induction es)
  case (Cons d es)
  then have ok: "layout_ok es" "fits d" "\<forall>x \<in> set es. \<forall>a. \<not> (covers d a \<and> covers x a)"
    by (auto simp: layout_ok_def)
  show ?case
  proof (cases "e \<in> set es")
    case True
    then have "\<not> hits addr d"
      using ok(2,3) Cons.prems(3) by (simp add: hits_covers) blast
    then show ?thesis using Cons.IH [OF ok(1) True Cons.prems(3)] by simp
  next
    case False
    then have "e = d" using Cons.prems(2) by simp
    then show ?thesis using hits_covers [OF ok(2)] Cons.prems(3) by simp
  qed
qed simp

lemma offset_in_window: "hits addr e \<Longrightarrow> fits e \<Longrightarrow> unat (addr - base e) = unat addr - unat (base e)"
  by (simp add: hits_def unat_sub)

section \<open>Properties\<close>

text \<open>A peripheral in every window of the memory map \<open>PeriphMap\<close>.\<close>

definition board :: "entry list" where
  "board = map (\<lambda>(b, p). \<lparr>base = b, window = REGION_SIZE, periph = p\<rparr>)
     [(UART0_BASE, 0), (UART1_BASE, 1), (SPI0_BASE, 2), (I2C0_BASE, 3), (CAN0_BASE, 4), (CAN1_BASE, 5)]"

lemma bus_hit:
  assumes "layout_ok es" "e \<in> set es" "covers e (unat addr)"
  shows "bus_write wr es addr v w = (Inr (), wr (periph e) (addr - base e) v w)"
    and "bus_read rr es addr w = (case rr (periph e) (addr - base e) w of (v, w) \<Rightarrow> (Inr v, w))"
  using find_entry_unique [OF assms] by (simp_all add: bus_write_def bus_read_def)

text \<open>C38. The bus decodes: with windows that do not wrap and do not overlap, an access inside the
  window of an attached peripheral is the access to this peripheral with the distance from its
  base as the register offset; an access outside every window raises \<open>AddressError\<close> with its
  address and changes nothing.\<close>

theorem bus_decodes:
  assumes "layout_ok es" "e \<in> set es" "covers e (unat addr)"
    and "\<forall>d \<in> set es. \<not> covers d (unat addr')"
  shows "bus_write wr es addr v w = (Inr (), wr (periph e) (addr - base e) v w) \<and>
    bus_read rr es addr w = (case rr (periph e) (addr - base e) w of (v, w) \<Rightarrow> (Inr v, w)) \<and>
    unat (addr - base e) = unat addr - unat (base e) \<and>
    bus_write wr es addr' v w = (Inl (AddressError addr'), w) \<and>
    bus_read rr es addr' w = (Inl (AddressError addr'), w)"
proof -
  have e: "fits e" using assms(1,2) by (simp add: layout_ok_def)
  have "find_entry addr' es = None"
  proof (cases "find_entry addr' es")
    case (Some d)
    then have "d \<in> set es" "covers d (unat addr')"
      using find_entry_hit [OF Some] hits_covers [of d addr'] assms(1) by (auto simp: layout_ok_def)
    then show ?thesis using assms(4) by blast
  qed
  then have "bus_write wr es addr' v w = (Inl (AddressError addr'), w)"
    "bus_read rr es addr' w = (Inl (AddressError addr'), w)"
    by (simp_all add: bus_write_def bus_read_def)
  then show ?thesis
    using offset_in_window [of addr e] hits_covers [OF e] e assms(3) by (simp add: bus_hit [OF assms(1-3)])
qed

lemma board_ok: "layout_ok board"
  by (auto simp: layout_ok_def board_def fits_def covers_def periph_map)

theorem bus_decodes_witness:
  "bus_write (\<lambda>p off v d. d(p := off + v)) board 0x40002010 5 (\<lambda>_. 0) = (Inr (), (\<lambda>_. 0)(2 := 0x15)) \<and>
   bus_write (\<lambda>p off v d. d(p := off + v)) board 0x40006000 5 (\<lambda>_. 0) = (Inl (AddressError 0x40006000), \<lambda>_. 0)"
proof -
  let ?e = "\<lparr>base = SPI0_BASE, window = REGION_SIZE, periph = 2\<rparr>"
  have "?e \<in> set board" "covers ?e (unat (0x40002010 :: u32))"
    "\<forall>d \<in> set board. \<not> covers d (unat (0x40006000 :: u32))"
    by (simp_all add: board_def covers_def periph_map)
  from bus_decodes [OF board_ok this, of "\<lambda>p off v d. d(p := off + v)" 5 "\<lambda>_. 0" "\<lambda>p off d. (0, d)"]
  show ?thesis by (simp add: SPI0_BASE_def)
qed

text \<open>The limits of the bus: a ninth peripheral is refused and the eight stay; and a window that
  ends at the top of the address space is never hit, because its end wraps to 0.\<close>

theorem bus_limits:
  "(attach b p sz es = Inr (es @ [\<lparr>base = b, window = sz, periph = p\<rparr>])) = (length es < 8) \<and>
   (attach b p sz es = Inl (PeripheralError ''too many peripherals'')) = (8 \<le> length es) \<and>
   \<not> hits addr \<lparr>base = 0xFFFFF000, window = REGION_SIZE, periph = p\<rparr>"
proof -
  have "(0xFFFFF000 :: u32) + REGION_SIZE = 0"
    unfolding REGION_SIZE_def by (rule word_unat_eq_iff [THEN iffD2]) simp
  then show ?thesis by (auto simp: attach_def MAX_PERIPHERALS_def hits_def)
qed

end
