(* ===== verification/Flash.thy ===== *)
theory Flash
  imports Prelude
begin

text \<open>
  The serial flash W25Q32 behind the SPI controller: \<open>W25Q32Flash\<close> of src/peripherals/spi.h and
  src/peripherals/spi.cpp. A transaction is what happens between chip select low and high:
  \<open>cs_assert\<close>, one \<open>exchange\<close> per byte, \<open>cs_deassert\<close>, which commits a program or erase command.
\<close>

section \<open>State\<close>

definition CAPACITY :: nat where "CAPACITY = 64 * 1024"
definition SECTOR_SIZE :: nat where "SECTOR_SIZE = 4096"
definition PAGE_SIZE :: nat where "PAGE_SIZE = 256"
definition CMD_READ_ID :: u8 where "CMD_READ_ID = 0x9F"
definition CMD_READ_DATA :: u8 where "CMD_READ_DATA = 0x03"
definition CMD_PAGE_PROGRAM :: u8 where "CMD_PAGE_PROGRAM = 0x02"
definition CMD_SECTOR_ERASE :: u8 where "CMD_SECTOR_ERASE = 0x20"
definition CMD_READ_STATUS :: u8 where "CMD_READ_STATUS = 0x05"
definition CMD_WRITE_ENABLE :: u8 where "CMD_WRITE_ENABLE = 0x06"

lemmas flash_sizes = CAPACITY_def SECTOR_SIZE_def PAGE_SIZE_def
lemmas flash_cmds = CMD_READ_ID_def CMD_READ_DATA_def CMD_PAGE_PROGRAM_def CMD_SECTOR_ERASE_def
  CMD_READ_STATUS_def CMD_WRITE_ENABLE_def

datatype flash_phase = IDLE | CMD | ADDR | DATA

text \<open>\<open>cells\<close> is the array \<open>data_\<close>; the indices used are below \<open>CAPACITY\<close>.\<close>

record flash =
  phase :: flash_phase
  cmd :: u8
  faddr :: u32
  addr_bytes :: nat
  fbuf :: "u8 list"
  wel :: bool
  cells :: "nat \<Rightarrow> u8"

definition new_flash :: flash where
  "new_flash = \<lparr>phase = IDLE, cmd = 0, faddr = 0, addr_bytes = 0, fbuf = [], wel = False,
                cells = (\<lambda>_. 0xFF)\<rparr>"

section \<open>Operations\<close>

definition cs_assert :: "flash \<Rightarrow> flash" where
  "cs_assert f = f\<lparr>phase := CMD, fbuf := []\<rparr>"

definition handle_data :: "u8 \<Rightarrow> flash \<Rightarrow> u8 \<times> flash" where
  "handle_data tx f =
     (if cmd f = CMD_READ_ID then
        (let id_seq = [0xEF, 0x40, 0x16]; idx = length (fbuf f)
         in (if idx < 3 then id_seq ! idx else 0xFF, f\<lparr>fbuf := fbuf f @ [tx]\<rparr>))
      else if cmd f = CMD_READ_STATUS then (if wel f then 0x02 else 0x00, f)
      else if cmd f = CMD_READ_DATA then
        (cells f (unat (faddr f)), f\<lparr>faddr := (faddr f + 1) AND (of_nat CAPACITY - 1)\<rparr>)
      else if cmd f = CMD_PAGE_PROGRAM then (0xFF, f\<lparr>fbuf := fbuf f @ [tx]\<rparr>)
      else (0xFF, f))"

definition exchange :: "u8 \<Rightarrow> flash \<Rightarrow> u8 \<times> flash" where
  "exchange tx f =
     (case phase f of
        IDLE \<Rightarrow> (0xFF, f)
      | CMD \<Rightarrow>
          (let g = f\<lparr>cmd := tx, faddr := 0, addr_bytes := 0, fbuf := []\<rparr>
           in if tx = CMD_WRITE_ENABLE then (0xFF, g\<lparr>wel := True, phase := IDLE\<rparr>)
              else if tx = CMD_READ_ID then (0xFF, g\<lparr>phase := DATA\<rparr>)
              else if tx = CMD_READ_STATUS then (0xFF, g\<lparr>phase := DATA\<rparr>)
              else (0xFF, g\<lparr>phase := ADDR\<rparr>))
      | ADDR \<Rightarrow>
          (let g = f\<lparr>faddr := push_bit 8 (faddr f) OR ucast tx, addr_bytes := addr_bytes f + 1\<rparr>
           in if addr_bytes g = 3
              then (0xFF, g\<lparr>faddr := faddr g AND (of_nat CAPACITY - 1), phase := DATA\<rparr>)
              else (0xFF, g))
      | DATA \<Rightarrow> handle_data tx f)"

text \<open>The program loop over the buffered bytes, at addresses \<open>a\<close>, \<open>a + 1\<close>, ...\<close>

primrec program_from :: "u32 \<Rightarrow> u8 list \<Rightarrow> (nat \<Rightarrow> u8) \<Rightarrow> (nat \<Rightarrow> u8)" where
  "program_from a [] d = d"
| "program_from a (b # bs) d =
     program_from (a + 1) bs (if unat a < CAPACITY then d(unat a := d (unat a) AND b) else d)"

definition erase_sector :: "u32 \<Rightarrow> flash \<Rightarrow> flash" where
  "erase_sector addr f =
     (let b = (unat addr div SECTOR_SIZE) * SECTOR_SIZE
      in if b \<ge> CAPACITY then f
         else f\<lparr>cells := (\<lambda>i. if b \<le> i \<and> i < b + SECTOR_SIZE then 0xFF else cells f i)\<rparr>)"

definition commit :: "flash \<Rightarrow> flash" where
  "commit f =
     (if cmd f = CMD_PAGE_PROGRAM \<and> wel f \<and> fbuf f \<noteq> [] then
        (let page_base = faddr f AND NOT (of_nat PAGE_SIZE - 1)
         in f\<lparr>cells := program_from page_base (take PAGE_SIZE (fbuf f)) (cells f), wel := False\<rparr>)
      else if cmd f = CMD_SECTOR_ERASE \<and> wel f then (erase_sector (faddr f) f)\<lparr>wel := False\<rparr>
      else f)"

definition cs_deassert :: "flash \<Rightarrow> flash" where
  "cs_deassert f = (commit f)\<lparr>phase := IDLE, fbuf := []\<rparr>"

definition read_byte :: "u32 \<Rightarrow> flash \<Rightarrow> u8" where
  "read_byte addr f = (if unat addr < CAPACITY then cells f (unat addr) else 0xFF)"

definition write_byte :: "u32 \<Rightarrow> u8 \<Rightarrow> flash \<Rightarrow> bool \<times> flash" where
  "write_byte addr val f =
     (if unat addr \<ge> CAPACITY then (False, f)
      else (True, f\<lparr>cells := (cells f)(unat addr := cells f (unat addr) AND val)\<rparr>))"

text \<open>A whole transaction: the bytes sent, and the answers.\<close>

primrec exchange_all :: "u8 list \<Rightarrow> flash \<Rightarrow> u8 list \<times> flash" where
  "exchange_all [] f = ([], f)"
| "exchange_all (b # bs) f =
     (let (r, g) = exchange b f; (rs, h) = exchange_all bs g in (r # rs, h))"

definition transaction :: "u8 list \<Rightarrow> flash \<Rightarrow> u8 list \<times> flash" where
  "transaction bs f = apsnd cs_deassert (exchange_all bs (cs_assert f))"

section \<open>Addresses\<close>

lemma exchange_all_append:
  "exchange_all (as @ bs) f =
     (let (r, g) = exchange_all as f; (s, h) = exchange_all bs g in (r @ s, h))"
  by (induction as arbitrary: f) (simp_all add: split_def Let_def)

text \<open>The low 16 bits of the three address bytes.\<close>

definition addr_of :: "u8 \<Rightarrow> u8 \<Rightarrow> u8 \<Rightarrow> nat" where
  "addr_of a2 a1 a0 = unat a1 * 256 + unat a0"

lemma capacity_mask: "(of_nat CAPACITY - 1 :: u32) = mask 16"
  by (simp add: CAPACITY_def mask_eq_exp_minus_1)

lemma addr_bytes_value:
  "unat ((push_bit 8 (push_bit 8 (ucast a2) OR ucast a1) OR ucast a0 :: u32) AND mask 16) =
     addr_of a2 a1 a0"
proof -
  have "(push_bit 8 (push_bit 8 (ucast a2) OR ucast a1) OR ucast a0 :: u32) AND mask 16 =
      push_bit 8 (ucast a1) OR ucast a0"
    by (rule bit_word_eqI) (auto simp: bit_simps dest: bit_imp_le_length)
  also have "\<dots> = push_bit 8 (ucast a1) + ucast a0"
    by (rule disjunctive_add_eq_or [symmetric])
      (rule bit_word_eqI, auto simp: bit_simps dest: bit_imp_le_length)
  also have "\<dots> = of_nat (addr_of a2 a1 a0)"
    by (simp add: addr_of_def push_bit_eq_mult)
  finally have eq: "(push_bit 8 (push_bit 8 (ucast a2) OR ucast a1) OR ucast a0 :: u32) AND mask 16 =
      of_nat (addr_of a2 a1 a0)" .
  show ?thesis
    unfolding eq unat_of_nat
    using unsigned_less [where w = a1 and 'a = nat] unsigned_less [where w = a0 and 'a = nat]
    by (simp add: addr_of_def)
qed

lemma addr_of_less: "addr_of a2 a1 a0 < CAPACITY"
  using unsigned_less [where w = a1 and 'a = nat] unsigned_less [where w = a0 and 'a = nat]
  by (simp add: addr_of_def CAPACITY_def)

section \<open>Transactions\<close>

text \<open>The four bytes of a command with an address.\<close>

definition addressed :: "u8 \<Rightarrow> u32 \<Rightarrow> flash \<Rightarrow> flash" where
  "addressed c a f = f\<lparr>phase := DATA, cmd := c, faddr := a, addr_bytes := 3, fbuf := []\<rparr>"

definition command_byte :: "u8 \<Rightarrow> bool" where
  "command_byte c \<longleftrightarrow> c \<noteq> CMD_WRITE_ENABLE \<and> c \<noteq> CMD_READ_ID \<and> c \<noteq> CMD_READ_STATUS"

definition addr_word :: "u8 \<Rightarrow> u8 \<Rightarrow> u8 \<Rightarrow> u32" where
  "addr_word a2 a1 a0 =
     (push_bit 8 (push_bit 8 (ucast a2) OR ucast a1) OR ucast a0) AND (of_nat CAPACITY - 1)"

lemma addr_word_unat: "unat (addr_word a2 a1 a0) = addr_of a2 a1 a0"
  unfolding addr_word_def capacity_mask by (rule addr_bytes_value)

lemma address_phase:
  "command_byte c \<Longrightarrow>
   exchange_all [c, a2, a1, a0] (cs_assert f) =
     ([0xFF, 0xFF, 0xFF, 0xFF], addressed c (addr_word a2 a1 a0) f)"
  by (simp add: command_byte_def exchange_def cs_assert_def addressed_def addr_word_def Let_def)

lemma commands [simp]: "command_byte CMD_READ_DATA" "command_byte CMD_PAGE_PROGRAM" "command_byte CMD_SECTOR_ERASE"
  by (simp_all add: command_byte_def flash_cmds)

lemma command_neq [simp]:
  "CMD_PAGE_PROGRAM \<noteq> CMD_READ_ID" "CMD_PAGE_PROGRAM \<noteq> CMD_READ_STATUS"
  "CMD_PAGE_PROGRAM \<noteq> CMD_READ_DATA" "CMD_READ_DATA \<noteq> CMD_READ_ID"
  "CMD_READ_DATA \<noteq> CMD_READ_STATUS" "CMD_SECTOR_ERASE \<noteq> CMD_PAGE_PROGRAM"
  "CMD_READ_DATA \<noteq> CMD_PAGE_PROGRAM" "CMD_READ_DATA \<noteq> CMD_SECTOR_ERASE"
  "CMD_SECTOR_ERASE \<noteq> CMD_READ_ID" "CMD_SECTOR_ERASE \<noteq> CMD_READ_STATUS"
  "CMD_SECTOR_ERASE \<noteq> CMD_READ_DATA" "CMD_PAGE_PROGRAM \<noteq> CMD_SECTOR_ERASE"
  by (simp_all add: flash_cmds)

lemma program_phase:
  "phase f = DATA \<Longrightarrow> cmd f = CMD_PAGE_PROGRAM \<Longrightarrow>
   exchange_all bs f = (replicate (length bs) 0xFF, f\<lparr>fbuf := fbuf f @ bs\<rparr>)"
  by (induction bs arbitrary: f) (simp_all add: exchange_def handle_data_def)

lemma read_phase:
  "phase f = DATA \<Longrightarrow> cmd f = CMD_READ_DATA \<Longrightarrow> unat (faddr f) < CAPACITY \<Longrightarrow>
   fst (exchange_all bs f) = map (\<lambda>k. cells f ((unat (faddr f) + k) mod CAPACITY)) [0 ..< length bs] \<and>
   cells (snd (exchange_all bs f)) = cells f \<and> wel (snd (exchange_all bs f)) = wel f \<and>
   cmd (snd (exchange_all bs f)) = CMD_READ_DATA"
proof (induction bs arbitrary: f)
  case (Cons b bs)
  let ?g = "f\<lparr>faddr := (faddr f + 1) AND (of_nat CAPACITY - 1)\<rparr>"
  have e: "exchange b f = (cells f (unat (faddr f)), ?g)"
    using Cons.prems by (simp add: exchange_def handle_data_def)
  have a: "unat (faddr ?g) = (unat (faddr f) + 1) mod CAPACITY"
    using Cons.prems(3) unfolding capacity_mask
    by (simp add: unsigned_take_bit_eq take_bit_eq_mod unat_word_ariths CAPACITY_def
        flip: take_bit_eq_mask)
  have less: "unat (faddr ?g) < CAPACITY" unfolding a by (simp add: CAPACITY_def)
  note IH = Cons.IH [of ?g, OF _ _ less]
  have "map (\<lambda>k. cells f ((unat (faddr f) + k) mod CAPACITY)) [0 ..< length (b # bs)] =
      cells f (unat (faddr f)) # map (\<lambda>k. cells f ((unat (faddr ?g) + k) mod CAPACITY)) [0 ..< length bs]"
    unfolding a using Cons.prems(3)
    by (simp only: list.size upt_conv_Cons [OF zero_less_Suc] map_Suc_upt [symmetric] list.map map_map add_Suc_right)
      (simp add: comp_def mod_add_left_eq)
  then show ?case
    using IH Cons.prems by (simp add: e split_def Let_def)
qed simp

lemma enable: "snd (transaction [CMD_WRITE_ENABLE] f) =
   f\<lparr>phase := IDLE, cmd := CMD_WRITE_ENABLE, faddr := 0, addr_bytes := 0, fbuf := [], wel := True\<rparr>"
  by (simp add: transaction_def cs_assert_def exchange_def cs_deassert_def commit_def flash_cmds)

lemma program_from_apply:
  "unat a + length bs \<le> CAPACITY \<Longrightarrow>
   program_from a bs d i =
     (if unat a \<le> i \<and> i < unat a + length bs then d i AND bs ! (i - unat a) else d i)"
proof (induction bs arbitrary: a d)
  case (Cons b bs)
  show ?case
  proof (cases bs)
    case Nil
    then show ?thesis using Cons.prems by (auto simp: CAPACITY_def)
  next
    case (Cons b' bs')
    have a: "unat (a + 1) = Suc (unat a)"
      using Cons.prems Cons by (simp add: unat_word_ariths CAPACITY_def)
    have "unat (a + 1) + length bs \<le> CAPACITY" using Cons.prems a by simp
    from Cons.IH [OF this] show ?thesis
      using Cons.prems unfolding a
      by (cases "i = unat a") (auto simp: nth_Cons' Suc_le_eq CAPACITY_def)
  qed
qed auto

lemma page_base: "unat (w AND NOT (of_nat PAGE_SIZE - 1)) = unat w div 256 * 256" for w :: u32
proof -
  have m: "NOT (of_nat PAGE_SIZE - 1 :: u32) = NOT (mask 8)"
    by (simp add: PAGE_SIZE_def mask_eq_exp_minus_1)
  have "w AND NOT (mask 8) = push_bit 8 (drop_bit 8 w)"
    by (rule bit_word_eqI) (auto simp: bit_simps dest: bit_imp_le_length)
  moreover have "unat (push_bit 8 (drop_bit 8 w)) = unat w div 256 * 256"
    using unsigned_less [where w = w and 'a = nat]
    by (simp add: unat_word_ariths push_bit_eq_mult unat_drop_bit_eq drop_bit_eq_div
        order_le_less_trans [OF div_times_less_eq_dividend])
  ultimately show ?thesis unfolding m by simp
qed

lemma program_transaction:
  "(let g = snd (transaction ([CMD_PAGE_PROGRAM, a2, a1, a0] @ bs) (snd (transaction [CMD_WRITE_ENABLE] f)));
        p = addr_of a2 a1 a0 div 256 * 256
    in cells g i = (if p \<le> i \<and> i < p + min 256 (length bs) then cells f i AND bs ! (i - p) else cells f i) \<and>
       wel g = (bs = []))"
proof -
  let ?e = "snd (transaction [CMD_WRITE_ENABLE] f)"
  let ?a = "addr_word a2 a1 a0" and ?b = "faddr (addressed CMD_PAGE_PROGRAM (addr_word a2 a1 a0) ?e)"
  have x: "snd (exchange_all ([CMD_PAGE_PROGRAM, a2, a1, a0] @ bs) (cs_assert ?e)) =
      (addressed CMD_PAGE_PROGRAM ?a ?e)\<lparr>fbuf := bs\<rparr>"
    unfolding exchange_all_append address_phase [OF commands(2)]
    by (simp add: program_phase addressed_def)
  have p: "unat (?a AND NOT (of_nat PAGE_SIZE - 1)) = addr_of a2 a1 a0 div 256 * 256"
    by (simp add: page_base addr_word_unat)
  have "addr_of a2 a1 a0 div 256 * 256 + min (length bs) 256 \<le> CAPACITY"
    using less_mult_imp_div_less [of "addr_of a2 a1 a0" 256 256] addr_of_less [of a2 a1 a0]
    by (simp add: CAPACITY_def)
  then have "program_from (?a AND NOT (of_nat PAGE_SIZE - 1)) (take 256 bs) (cells f) i =
      (if addr_of a2 a1 a0 div 256 * 256 \<le> i \<and> i < addr_of a2 a1 a0 div 256 * 256 + min 256 (length bs)
       then cells f i AND bs ! (i - addr_of a2 a1 a0 div 256 * 256) else cells f i)"
    by (subst program_from_apply) (auto simp: p min.commute)
  then show ?thesis
    unfolding transaction_def [of "_ @ _"] Let_def snd_apsnd x
    by (auto simp: cs_deassert_def commit_def addressed_def enable PAGE_SIZE_def)
qed

text \<open>What a read returns and an erase does.\<close>

lemma read_transaction:
  "fst (transaction ([CMD_READ_DATA, a2, a1, a0] @ bs) f) =
     replicate 4 0xFF @ map (\<lambda>k. cells f ((addr_of a2 a1 a0 + k) mod CAPACITY)) [0 ..< length bs] \<and>
   cells (snd (transaction ([CMD_READ_DATA, a2, a1, a0] @ bs) f)) = cells f \<and>
   wel (snd (transaction ([CMD_READ_DATA, a2, a1, a0] @ bs) f)) = wel f"
proof -
  let ?g = "addressed CMD_READ_DATA (addr_word a2 a1 a0) f"
  have g: "phase ?g = DATA" "cmd ?g = CMD_READ_DATA" "faddr ?g = addr_word a2 a1 a0"
    "cells ?g = cells f" "wel ?g = wel f"
    by (simp_all add: addressed_def)
  have x: "exchange_all ([CMD_READ_DATA, a2, a1, a0] @ bs) (cs_assert f) =
      (replicate 4 0xFF @ fst (exchange_all bs ?g), snd (exchange_all bs ?g))"
    unfolding exchange_all_append address_phase [OF commands(1)]
    by (simp add: split_def Let_def numeral_eq_Suc)
  show ?thesis
    using read_phase [OF g(1,2), of bs] addr_of_less [of a2 a1 a0]
    unfolding transaction_def x g addr_word_unat
    by (simp add: cs_deassert_def commit_def)
qed

lemma erase_transaction:
  "cells (snd (transaction [CMD_SECTOR_ERASE, a2, a1, a0] (snd (transaction [CMD_WRITE_ENABLE] f)))) i =
     (let b = addr_of a2 a1 a0 div 4096 * 4096 in if b \<le> i \<and> i < b + 4096 then 0xFF else cells f i)"
proof -
  have "addr_of a2 a1 a0 div 4096 * 4096 < CAPACITY"
    using addr_of_less [of a2 a1 a0] by (rule order_le_less_trans [OF div_times_less_eq_dividend])
  then show ?thesis
    unfolding transaction_def [of "[CMD_SECTOR_ERASE, _, _, _]"] address_phase [OF commands(3)]
    by (simp add: cs_deassert_def commit_def addressed_def enable erase_sector_def addr_word_unat
        SECTOR_SIZE_def Let_def)
qed

text \<open>A page that is erased, programmed and read back.\<close>

lemma erase_program_read:
  assumes "length bs \<le> 256" "length ns = length bs"
  shows "(let f1 = snd (transaction [CMD_SECTOR_ERASE, a2, a1, 0] (snd (transaction [CMD_WRITE_ENABLE] f)));
        f2 = snd (transaction ([CMD_PAGE_PROGRAM, a2, a1, 0] @ bs) (snd (transaction [CMD_WRITE_ENABLE] f1)))
    in drop 4 (fst (transaction ([CMD_READ_DATA, a2, a1, 0] @ ns) f2)) = bs)"
proof -
  let ?p = "addr_of a2 a1 0"
  define f1 where "f1 = snd (transaction [CMD_SECTOR_ERASE, a2, a1, 0] (snd (transaction [CMD_WRITE_ENABLE] f)))"
  define f2 where "f2 = snd (transaction ([CMD_PAGE_PROGRAM, a2, a1, 0] @ bs) (snd (transaction [CMD_WRITE_ENABLE] f1)))"
  have p: "?p = unat a1 * 256" "unat a1 < 256"
    using unsigned_less [where w = a1 and 'a = nat] by (simp_all add: addr_of_def)
  define q where "q = unat a1 div 16"
  have "unat a1 = 16 * q + unat a1 mod 16" by (simp add: q_def)
  moreover have "?p div 4096 = q" unfolding p(1) q_def using div_mult_mult2 [of 256 "unat a1" 16] by simp
  ultimately have sector: "?p div 4096 * 4096 \<le> ?p + k" "?p + k < ?p div 4096 * 4096 + 4096" if "k < 256" for k
    using that mod_less_divisor [of 16 "unat a1"] unfolding p(1) by linarith+
  have "cells f2 (?p + k) = bs ! k" if "k < length bs" for k
  proof -
    have k: "k < 256" using that assms(1) by simp
    have "cells f1 (?p + k) = - 1"
      unfolding f1_def erase_transaction using sector [OF k] by (simp add: Let_def)
    moreover have "?p div 256 * 256 = ?p" unfolding p(1) by simp
    ultimately show ?thesis
      using program_transaction [of a2 a1 0 bs f1 "?p + k", folded f2_def] that k
      by (simp add: Let_def)
  qed
  moreover have "(?p + k) mod CAPACITY = ?p + k" if "k < length bs" for k
    using p that assms(1) by (simp add: CAPACITY_def)
  ultimately have "map (\<lambda>k. cells f2 ((?p + k) mod CAPACITY)) [0 ..< length ns] = bs"
    by (intro nth_equalityI) (simp_all add: assms(2))
  then show ?thesis
    unfolding Let_def f1_def [symmetric] f2_def [symmetric]
    using read_transaction [of a2 a1 0 ns f2] by simp
qed

section \<open>Properties\<close>

text \<open>What a page program writes: after WRITE_ENABLE, the bytes sent behind the address, up to
  256, are ANDed into the cells from the start of the page, whatever the offset of the address
  within it; every other cell stays, and the latch is used up if there was a byte.\<close>

theorem flash_program_page:
  "(let g = snd (transaction ([CMD_PAGE_PROGRAM, a2, a1, a0] @ bs) (snd (transaction [CMD_WRITE_ENABLE] f)));
        p = addr_of a2 a1 a0 div 256 * 256
    in cells g i = (if p \<le> i \<and> i < p + min 256 (length bs) then cells f i AND bs ! (i - p) else cells f i) \<and>
       wel g = (bs = []))"
  by (rule program_transaction)

text \<open>Erase, program, read: after erasing its sector and programming a page from its start with
  up to 256 bytes, reading from there returns the bytes; reading returns the cells from the
  address on, wrapping at the capacity, and changes no cell.\<close>

theorem flash_erase_program_read:
  assumes "length bs \<le> 256" "length ns = length bs"
  shows "(let f1 = snd (transaction [CMD_SECTOR_ERASE, a2, a1, 0] (snd (transaction [CMD_WRITE_ENABLE] f)));
        f2 = snd (transaction ([CMD_PAGE_PROGRAM, a2, a1, 0] @ bs) (snd (transaction [CMD_WRITE_ENABLE] f1)))
    in drop 4 (fst (transaction ([CMD_READ_DATA, a2, a1, 0] @ ns) f2)) = bs)"
  using assms by (rule erase_program_read)

theorem flash_erase_program_read_witness:
  "drop 4 (fst (transaction [CMD_READ_DATA, 0, 1, 0, 0, 0]
     (snd (transaction [CMD_PAGE_PROGRAM, 0, 1, 0, 0x12, 0x34]
       (snd (transaction [CMD_WRITE_ENABLE]
         (snd (transaction [CMD_SECTOR_ERASE, 0, 1, 0] (snd (transaction [CMD_WRITE_ENABLE] new_flash)))))))))) =
   [0x12, 0x34]"
  using flash_erase_program_read [of "[0x12, 0x34]" "[0, 0]" 0 1 new_flash] by (simp add: Let_def)

text \<open>Without the latch a transaction changes no cell; it is set only by a transaction that starts
  with WRITE_ENABLE.\<close>

lemma exchange_cells: "cells (snd (exchange b f)) = cells f"
  by (simp add: exchange_def handle_data_def Let_def split: flash_phase.splits)

lemma exchange_all_cells: "cells (snd (exchange_all bs f)) = cells f"
  by (induction bs arbitrary: f) (simp_all add: split_def Let_def exchange_cells)

lemma exchange_wel: "\<not> wel f \<Longrightarrow> phase f \<noteq> CMD \<Longrightarrow> \<not> wel (snd (exchange b f)) \<and> phase (snd (exchange b f)) \<noteq> CMD"
  by (auto simp: exchange_def handle_data_def Let_def split: flash_phase.splits)

lemma exchange_all_wel: "\<not> wel f \<Longrightarrow> phase f \<noteq> CMD \<Longrightarrow> \<not> wel (snd (exchange_all bs f))"
  by (induction bs arbitrary: f) (simp_all add: split_def Let_def exchange_wel)

lemma protected_transaction:
  assumes "\<not> wel f" "bs = [] \<or> hd bs \<noteq> CMD_WRITE_ENABLE"
  shows "cells (snd (transaction bs f)) = cells f \<and> \<not> wel (snd (transaction bs f))"
proof -
  have "\<not> wel (snd (exchange_all bs (cs_assert f)))"
  proof (cases bs)
    case Nil
    then show ?thesis using assms(1) by (simp add: cs_assert_def)
  next
    case (Cons c cs)
    let ?g = "snd (exchange c (cs_assert f))"
    have "\<not> wel ?g" "phase ?g \<noteq> CMD"
      using assms Cons by (auto simp: exchange_def cs_assert_def Let_def)
    then show ?thesis using exchange_all_wel [of ?g cs] Cons by (simp add: split_def Let_def)
  qed
  then show ?thesis
    using exchange_all_cells [of bs "cs_assert f"]
    by (simp add: transaction_def cs_deassert_def commit_def cs_assert_def)
qed

text \<open>C39. The flash is write-protected: whatever is sent in whatever transactions, as long as none
  starts with WRITE_ENABLE and the latch is not set, no cell changes.\<close>

theorem flash_write_protected:
  assumes "\<not> wel f" "\<forall>bs \<in> set tss. bs = [] \<or> hd bs \<noteq> CMD_WRITE_ENABLE"
  shows "cells (fold (\<lambda>bs g. snd (transaction bs g)) tss f) = cells f"
  using assms
proof (induction tss arbitrary: f)
  case (Cons bs tss)
  then show ?case using protected_transaction [of f bs] by simp
qed simp

theorem flash_write_protected_witness:
  "cells (fold (\<lambda>bs g. snd (transaction bs g)) [[CMD_SECTOR_ERASE, 0, 0, 0], [CMD_PAGE_PROGRAM, 0, 0, 0, 7]]
     new_flash) = (\<lambda>_. 0xFF)"
proof -
  have "\<not> wel new_flash" "cells new_flash = (\<lambda>_. 0xFF)" by (simp_all add: new_flash_def)
  then show ?thesis
    using flash_write_protected [of new_flash "[[CMD_SECTOR_ERASE, 0, 0, 0], [CMD_PAGE_PROGRAM, 0, 0, 0, 7]]"]
    by (simp add: flash_cmds)
qed

text \<open>An erase is committed however many address bytes came: the command byte alone, after
  WRITE_ENABLE, erases sector 0; and a program whose address is not the start of a page writes
  the start of the page and leaves the addressed cell.\<close>

theorem flash_incomplete_commands:
  "cells (snd (transaction [CMD_SECTOR_ERASE] (snd (transaction [CMD_WRITE_ENABLE] f)))) i =
     (if i < 4096 then 0xFF else cells f i) \<and>
   cells (snd (transaction [CMD_PAGE_PROGRAM, 0, 0, 0x10, b] (snd (transaction [CMD_WRITE_ENABLE] f)))) i =
     (if i = 0 then cells f i AND b else cells f i)"
proof
  show "cells (snd (transaction [CMD_SECTOR_ERASE] (snd (transaction [CMD_WRITE_ENABLE] f)))) i =
     (if i < 4096 then 0xFF else cells f i)"
    unfolding enable
    by (simp add: transaction_def exchange_def cs_assert_def cs_deassert_def commit_def
        erase_sector_def flash_cmds flash_sizes Let_def)
  show "cells (snd (transaction [CMD_PAGE_PROGRAM, 0, 0, 0x10, b] (snd (transaction [CMD_WRITE_ENABLE] f)))) i =
     (if i = 0 then cells f i AND b else cells f i)"
    using program_transaction [of 0 0 "0x10" "[b]" f i] by (simp add: addr_of_def Let_def)
qed

end
