(* ===== verification/Spi.thy ===== *)
theory Spi
  imports Flash
begin

text \<open>
  The SPI controller: \<open>Spi\<close> of src/peripherals/spi.h and src/peripherals/spi.cpp, with the
  flash of \<open>Flash\<close> attached. Software reaches the flash byte by byte through DR, with the chip
  select in CR, or in bursts: the words written to BURST_TX are sent as one transaction when the
  last of them is written, and BURST_RX holds the answers. The lemmas show that a burst is one
  \<open>transaction\<close> of the flash.
\<close>

section \<open>State\<close>

definition SPI_REG_CR :: u32 where "SPI_REG_CR = 0x00"
definition SPI_REG_SR :: u32 where "SPI_REG_SR = 0x04"
definition SPI_REG_DR :: u32 where "SPI_REG_DR = 0x08"
definition SPI_REG_BURST_LEN :: u32 where "SPI_REG_BURST_LEN = 0x0C"
definition SPI_REG_BURST_TX :: u32 where "SPI_REG_BURST_TX = 0x10"
definition SPI_REG_BURST_RX :: u32 where "SPI_REG_BURST_RX = 0x50"
definition BURST_REGS :: u32 where "BURST_REGS = 64"
definition SPI_CR_EN :: u32 where "SPI_CR_EN = push_bit 0 1"
definition CR_NSS_LOW :: u32 where "CR_NSS_LOW = push_bit 3 1"
definition SPI_SR_TX_EMPTY :: u32 where "SPI_SR_TX_EMPTY = push_bit 0 1"
definition SPI_SR_RX_READY :: u32 where "SPI_SR_RX_READY = push_bit 1 1"
definition SPI_SR_BUSY :: u32 where "SPI_SR_BUSY = push_bit 2 1"

lemmas spi_regs = SPI_REG_CR_def SPI_REG_SR_def SPI_REG_DR_def SPI_REG_BURST_LEN_def
  SPI_REG_BURST_TX_def SPI_REG_BURST_RX_def BURST_REGS_def
lemmas spi_bits = SPI_CR_EN_def CR_NSS_LOW_def SPI_SR_TX_EMPTY_def SPI_SR_RX_READY_def SPI_SR_BUSY_def

record spi =
  spi_cr :: u32
  burst_len :: u32
  burst_tx :: "u8 list"
  burst_rx :: "u8 list"
  rx_queue :: "u8 list"
  spi_flash :: flash
  cs_active :: bool

definition new_spi :: spi where
  "new_spi = \<lparr>spi_cr = SPI_CR_EN, burst_len = 1, burst_tx = replicate 64 0, burst_rx = replicate 64 0,
              rx_queue = [], spi_flash = new_flash, cs_active = False\<rparr>"

section \<open>Operations\<close>

definition set_nss :: "bool \<Rightarrow> spi \<Rightarrow> spi" where
  "set_nss low s =
     (let t = (if low \<and> \<not> cs_active s then s\<lparr>spi_flash := cs_assert (spi_flash s), cs_active := True\<rparr>
               else if \<not> low \<and> cs_active s then s\<lparr>spi_flash := cs_deassert (spi_flash s), cs_active := False\<rparr>
               else s)
      in if low then t\<lparr>spi_cr := spi_cr t OR CR_NSS_LOW\<rparr>
         else t\<lparr>spi_cr := spi_cr t AND NOT CR_NSS_LOW\<rparr>)"

definition transfer_byte :: "u8 \<Rightarrow> spi \<Rightarrow> u8 \<times> spi" where
  "transfer_byte tx s =
     (if cs_active s then (let (r, f) = exchange tx (spi_flash s) in (r, s\<lparr>spi_flash := f\<rparr>))
      else (0xFF, s))"

text \<open>The body of the burst loop, for byte \<open>i\<close>.\<close>

definition burst_byte :: "nat \<Rightarrow> spi \<Rightarrow> spi" where
  "burst_byte i s =
     (let (r, t) = transfer_byte (burst_tx s ! i) s in t\<lparr>burst_rx := (burst_rx t)[i := r]\<rparr>)"

definition do_burst :: "spi \<Rightarrow> spi" where
  "do_burst s =
     (let s = (if \<not> cs_active s then s\<lparr>spi_flash := cs_assert (spi_flash s), cs_active := True\<rparr> else s);
          n_bytes = burst_len s * 4;
          s = fold burst_byte [0 ..< min (unat n_bytes) (unat BURST_REGS)] s
      in s\<lparr>spi_flash := cs_deassert (spi_flash s), cs_active := False,
           spi_cr := spi_cr s AND NOT CR_NSS_LOW\<rparr>)"

text \<open>Four bytes of a burst array as a word, most significant first.\<close>

definition burst_word :: "u8 list \<Rightarrow> nat \<Rightarrow> u32" where
  "burst_word a idx =
     push_bit 24 (ucast (a ! (idx * 4))) OR push_bit 16 (ucast (a ! (idx * 4 + 1))) OR
     push_bit 8 (ucast (a ! (idx * 4 + 2))) OR ucast (a ! (idx * 4 + 3))"

definition spi_read_reg :: "u32 \<Rightarrow> spi \<Rightarrow> u32 \<times> spi" where
  "spi_read_reg offset s =
     (if offset = SPI_REG_CR then (spi_cr s, s)
      else if offset = SPI_REG_SR then
        (SPI_SR_TX_EMPTY OR (if rx_queue s = [] then 0 else SPI_SR_RX_READY), s)
      else if offset = SPI_REG_DR then
        (case rx_queue s of [] \<Rightarrow> (0xFF, s) | b # bs \<Rightarrow> (ucast b, s\<lparr>rx_queue := bs\<rparr>))
      else if offset = SPI_REG_BURST_LEN then (burst_len s, s)
      else if offset \<ge> SPI_REG_BURST_TX \<and> offset < SPI_REG_BURST_TX + BURST_REGS then
        (burst_word (burst_tx s) (unat (offset - SPI_REG_BURST_TX) div 4), s)
      else if offset \<ge> SPI_REG_BURST_RX \<and> offset < SPI_REG_BURST_RX + BURST_REGS then
        (burst_word (burst_rx s) (unat (offset - SPI_REG_BURST_RX) div 4), s)
      else (0, s))"

definition spi_write_reg :: "u32 \<Rightarrow> u32 \<Rightarrow> spi \<Rightarrow> spi" where
  "spi_write_reg offset val s =
     (if offset = SPI_REG_CR then
        (let want_nss = (val AND CR_NSS_LOW \<noteq> 0) in set_nss want_nss (s\<lparr>spi_cr := val AND 0x0F\<rparr>))
      else if offset = SPI_REG_DR then
        (let (rx, t) = transfer_byte (ucast (val AND 0xFF)) s in t\<lparr>rx_queue := rx_queue t @ [rx]\<rparr>)
      else if offset = SPI_REG_BURST_LEN then s\<lparr>burst_len := min val 16\<rparr>
      else if offset \<ge> SPI_REG_BURST_TX \<and> offset < SPI_REG_BURST_TX + BURST_REGS then
        (let idx = unat (offset - SPI_REG_BURST_TX) div 4;
             t = s\<lparr>burst_tx := (burst_tx s)
                 [idx * 4 := ucast (drop_bit 24 val AND 0xFF), idx * 4 + 1 := ucast (drop_bit 16 val AND 0xFF),
                  idx * 4 + 2 := ucast (drop_bit 8 val AND 0xFF), idx * 4 + 3 := ucast (val AND 0xFF)]\<rparr>
         in if idx + 1 \<ge> unat (burst_len s) then do_burst t else t)
      else s)"

section \<open>Invariant\<close>

text \<open>
  The arrays keep their size, the burst length its bound, and outside a transaction the flash is
  idle and the NSS bit of CR is clear, inside it is set.
\<close>

definition spi_ok :: "spi \<Rightarrow> bool" where
  "spi_ok s \<longleftrightarrow> length (burst_tx s) = 64 \<and> length (burst_rx s) = 64 \<and> unat (burst_len s) \<le> 16 \<and>
     unat (spi_cr s) < 16 \<and> (bit (spi_cr s) 3 \<longleftrightarrow> cs_active s) \<and>
     (\<not> cs_active s \<longrightarrow> phase (spi_flash s) = IDLE)"

lemma new_spi_ok: "spi_ok new_spi"
  by (simp add: spi_ok_def new_spi_def spi_bits new_flash_def)

lemma exchange_all_length [simp]: "length (fst (exchange_all bs f)) = length bs"
  by (induction bs arbitrary: f) (simp_all add: split_def Let_def)

lemma burst_loop:
  "cs_active s \<Longrightarrow> n \<le> length (burst_tx s) \<Longrightarrow> n \<le> length (burst_rx s) \<Longrightarrow>
   fold burst_byte [0 ..< n] s =
     s\<lparr>spi_flash := snd (exchange_all (take n (burst_tx s)) (spi_flash s)),
       burst_rx := fst (exchange_all (take n (burst_tx s)) (spi_flash s)) @ drop n (burst_rx s)\<rparr>"
proof (induction n)
  case (Suc n)
  obtain rs f where e: "exchange_all (take n (burst_tx s)) (spi_flash s) = (rs, f)" by fastforce
  have l: "length rs = n" using exchange_all_length [of "take n (burst_tx s)" "spi_flash s"] Suc.prems e by simp
  obtain r g where x: "exchange (burst_tx s ! n) f = (r, g)" by fastforce
  have "exchange_all (take (Suc n) (burst_tx s)) (spi_flash s) = (rs @ [r], g)"
    using Suc.prems by (simp add: take_Suc_conv_app_nth exchange_all_append e x)
  moreover have "drop n (burst_rx s) = burst_rx s ! n # drop (Suc n) (burst_rx s)"
    using Suc.prems by (simp add: Cons_nth_drop_Suc)
  ultimately show ?case
    using Suc l by (simp add: e x burst_byte_def transfer_byte_def list_update_append)
qed simp

text \<open>A burst from chip select high is one transaction.\<close>

lemma do_burst_transaction:
  assumes "spi_ok s" "\<not> cs_active s" "n = unat (burst_len s) * 4"
  shows "do_burst s =
     (let (rs, f) = transaction (take n (burst_tx s)) (spi_flash s)
      in s\<lparr>spi_flash := f, burst_rx := rs @ drop n (burst_rx s), spi_cr := spi_cr s AND NOT CR_NSS_LOW\<rparr>)"
proof -
  have n: "unat (burst_len s * 4) = n" "n \<le> 64"
    using assms by (simp_all add: spi_ok_def unat_word_ariths)
  show ?thesis
    using assms(1,2) n burst_loop [of "s\<lparr>spi_flash := cs_assert (spi_flash s), cs_active := True\<rparr>" n]
    by (simp add: do_burst_def Let_def transaction_def split_def BURST_REGS_def spi_ok_def min_def)
qed

lemma cr_bounds: "unat (v AND NOT CR_NSS_LOW) < 16" "\<not> bit (v AND NOT CR_NSS_LOW) 3"
  if "unat v < 16" for v
  using that word_and_le2 [of v "NOT CR_NSS_LOW"]
  by (auto simp: CR_NSS_LOW_def bit_simps word_le_nat_alt simp del: word_and_le2)

lemma transaction_idle: "phase (snd (transaction bs f)) = IDLE"
  by (simp add: transaction_def cs_deassert_def)

lemma transaction_length [simp]: "length (fst (transaction bs f)) = length bs"
  by (simp add: transaction_def)

lemma burst_byte_cr: "spi_cr (burst_byte i s) = spi_cr s" "burst_len (burst_byte i s) = burst_len s"
  "length (burst_rx (burst_byte i s)) = length (burst_rx s)" "burst_tx (burst_byte i s) = burst_tx s"
  by (simp_all add: burst_byte_def transfer_byte_def split_def Let_def)

lemma burst_loop_cr: "spi_cr (fold burst_byte is s) = spi_cr s" "burst_len (fold burst_byte is s) = burst_len s"
  "length (burst_rx (fold burst_byte is s)) = length (burst_rx s)" "burst_tx (fold burst_byte is s) = burst_tx s"
  by (induction "is" arbitrary: s) (simp_all add: burst_byte_cr)

lemma do_burst_ok: "spi_ok s \<Longrightarrow> spi_ok (do_burst s) \<and> \<not> cs_active (do_burst s)"
  by (simp add: do_burst_def Let_def spi_ok_def burst_loop_cr cr_bounds cs_deassert_def)

lemma spi_write_ok [inv_intros]: "spi_ok s \<Longrightarrow> spi_ok (spi_write_reg r v s)"
proof -
  assume ok: "spi_ok s"
  have nss: "bit w 3 = b \<Longrightarrow> unat w < 16 \<Longrightarrow> spi_ok (set_nss b (s\<lparr>spi_cr := w\<rparr>))" for b w
  proof -
    assume w: "bit w 3 = b" "unat w < 16"
    have "b \<Longrightarrow> w OR CR_NSS_LOW = w"
      using w(1) by (intro bit_word_eqI) (auto simp: CR_NSS_LOW_def bit_simps simp del: push_bit_numeral push_bit_of_1)
    then show ?thesis
      using ok w cr_bounds [of w]
      by (cases b) (simp_all add: set_nss_def spi_ok_def Let_def cs_deassert_def)
  qed
  have "bit (v AND 0xF) 3 = (v AND CR_NSS_LOW \<noteq> 0)"
    unfolding CR_NSS_LOW_def test_bit_iff by (simp add: bit_simps)
  moreover have "unat (v AND 0xF) < 16" by (rule unat_and_less) simp
  moreover have "spi_ok (s\<lparr>burst_len := min v 16\<rparr>)"
    using ok by (simp add: spi_ok_def min_def word_le_nat_alt)
  moreover have "spi_ok (s\<lparr>burst_tx := xs\<rparr>)" if "length xs = 64" for xs
    using ok that by (simp add: spi_ok_def)
  moreover have "length (burst_tx s) = 64" using ok by (simp add: spi_ok_def)
  moreover have "spi_ok (s\<lparr>spi_flash := snd (exchange b (spi_flash s)), rx_queue := q\<rparr>)" if "cs_active s" for b q
    using ok that by (simp add: spi_ok_def)
  moreover have "spi_ok (s\<lparr>rx_queue := q\<rparr>)" for q using ok by (simp add: spi_ok_def)
  ultimately show ?thesis
    using ok by (simp add: spi_write_reg_def Let_def split_def transfer_byte_def nss do_burst_ok)
qed

lemma spi_read_ok [inv_intros]: "spi_ok s \<Longrightarrow> spi_ok (snd (spi_read_reg r s))"
  by (simp add: spi_read_reg_def spi_ok_def split: list.split)

section \<open>Bursts\<close>

text \<open>
  A burst as software makes it: the number of words, the words, and then the answers. The bytes
  of a word go out most significant first.
\<close>

definition be_bytes :: "u32 \<Rightarrow> u8 list" where
  "be_bytes w = [byte 3 w, byte 2 w, byte 1 w, byte 0 w]"

definition send_words :: "nat \<Rightarrow> u32 list \<Rightarrow> spi \<Rightarrow> spi" where
  "send_words k ws s =
     fold (\<lambda>(i, w). spi_write_reg (SPI_REG_BURST_TX + of_nat (4 * i)) w) (enumerate k ws) s"

definition spi_burst :: "u32 list \<Rightarrow> spi \<Rightarrow> u32 list \<times> spi" where
  "spi_burst ws s =
     (let s = spi_write_reg SPI_REG_BURST_LEN (of_nat (length ws)) s;
          s = send_words 0 ws s
      in (map (\<lambda>k. fst (spi_read_reg (SPI_REG_BURST_RX + of_nat (4 * k)) s)) [0 ..< length ws], s))"

lemma byte_and: "ucast (drop_bit n w AND 0xFF) = (ucast (drop_bit n w) :: u8)" for w :: u32
proof -
  have "(0xFF :: u32) = mask 8" by (simp add: mask_eq_exp_minus_1)
  then show ?thesis
    by (simp only: \<open>0xFF = mask 8\<close>) (rule bit_word_eqI, auto simp: bit_simps)
qed

lemma be_bytes_word: "be_bytes (burst_word a k) = map (\<lambda>i. a ! (4 * k + i)) [0, 1, 2, 3]"
proof -
  have "burst_word a k = join32 (a ! (k * 4 + 3)) (a ! (k * 4 + 2)) (a ! (k * 4 + 1)) (a ! (k * 4))"
    unfolding burst_word_def join32_def by (simp only: or.assoc or.commute or.left_commute)
  moreover have "be_bytes (join32 b0 b1 b2 b3) = [b3, b2, b1, b0]" for b0 b1 b2 b3
    by (simp add: be_bytes_def)
  ultimately show ?thesis by (simp add: mult.commute)
qed

lemma be_bytes_inj: "be_bytes v = be_bytes w \<Longrightarrow> v = w"
proof -
  have "join32 (be_bytes u ! 3) (be_bytes u ! 2) (be_bytes u ! 1) (be_bytes u ! 0) = u" for u
    by (simp add: be_bytes_def nth_Cons')
  then show "be_bytes v = be_bytes w \<Longrightarrow> v = w" by metis
qed

lemma be_bytes_length [simp]: "length (be_bytes w) = 4"
  by (simp add: be_bytes_def)

lemma concat_be_bytes_length [simp]: "length (concat (map be_bytes ws)) = 4 * length ws"
  by (induction ws) simp_all

lemma concat_be_bytes_inj: "concat (map be_bytes vs) = concat (map be_bytes ws) \<Longrightarrow> vs = ws"
proof (induction vs arbitrary: ws)
  case Nil
  then show ?case by (cases ws) (auto simp: be_bytes_def)
next
  case (Cons v vs)
  then obtain w ws' where ws: "ws = w # ws'" by (cases ws) (auto simp: be_bytes_def)
  with Cons.prems have "be_bytes v = be_bytes w" "concat (map be_bytes vs) = concat (map be_bytes ws')"
    by simp_all
  with Cons.IH ws show ?case by (simp add: be_bytes_inj)
qed

lemma burst_offset:
  "k < 16 \<Longrightarrow> unat (of_nat (4 * k) :: u32) div 4 = k \<and> (of_nat (4 * k) :: u32) < 64"
proof -
  assume "k < 16"
  then have "unat (of_nat (4 * k) :: u32) = 4 * k" by (simp only: unat_of_nat) simp
  with \<open>k < 16\<close> show ?thesis by (simp only: word_less_nat_alt) simp
qed

lemma update_four:
  assumes "4 * k + 4 \<le> length xs"
  shows "xs[k * 4 := a, k * 4 + 1 := b, k * 4 + 2 := c, k * 4 + 3 := d] =
     take (4 * k) xs @ [a, b, c, d] @ drop (4 * k + 4) xs"
  using assms by (intro nth_equalityI) (auto simp: nth_append nth_list_update nth_Cons' mult.commute)

text \<open>Writing a word of the burst: stored, and the burst is made when it was the last.\<close>

lemma write_tx:
  assumes "spi_ok s" "k < 16"
  shows "spi_write_reg (SPI_REG_BURST_TX + of_nat (4 * k)) w s =
    (let t = s\<lparr>burst_tx := take (4 * k) (burst_tx s) @ be_bytes w @ drop (4 * k + 4) (burst_tx s)\<rparr>
     in if k + 1 \<ge> unat (burst_len s) then do_burst t else t)"
proof -
  let ?r = "SPI_REG_BURST_TX + of_nat (4 * k)"
  have u: "unat (of_nat (4 * k) :: u32) = 4 * k"
    using assms(2) by (simp only: unat_of_nat) simp
  then have r: "unat ?r = 16 + 4 * k"
    using assms(2) by (simp only: SPI_REG_BURST_TX_def unat_word_ariths) simp
  have "?r \<noteq> SPI_REG_CR" "?r \<noteq> SPI_REG_DR" "?r \<noteq> SPI_REG_BURST_LEN"
    using r by (auto simp only: SPI_REG_CR_def SPI_REG_DR_def SPI_REG_BURST_LEN_def)
      (simp_all add: unsigned_0)
  moreover have "?r \<ge> SPI_REG_BURST_TX" "?r < SPI_REG_BURST_TX + BURST_REGS"
    using assms(2) by (simp_all only: word_le_nat_alt word_less_nat_alt r) (simp_all add: spi_regs)
  moreover have "?r - SPI_REG_BURST_TX = of_nat (4 * k)" by simp
  moreover have "length (burst_tx s) = 64" using assms(1) by (simp add: spi_ok_def)
  moreover have "be_bytes w = [ucast (drop_bit 24 w AND 0xFF), ucast (drop_bit 16 w AND 0xFF),
      ucast (drop_bit 8 w AND 0xFF), ucast (w AND 0xFF)]"
    using byte_and [of 0 w] by (simp add: be_bytes_def byte_def byte_and)
  moreover have "4 * k + 4 \<le> length (burst_tx s)" using assms(2) \<open>length (burst_tx s) = 64\<close> by simp
  note update_four [OF this]
  ultimately show ?thesis
    using assms(2) unfolding spi_write_reg_def u
    by (simp add: u Let_def del: of_nat_mult)
qed

lemma send_words_store:
  "spi_ok s \<Longrightarrow> k + length ws < unat (burst_len s) \<Longrightarrow>
   send_words k ws s = s\<lparr>burst_tx := take (4 * k) (burst_tx s) @ concat (map be_bytes ws) @
     drop (4 * (k + length ws)) (burst_tx s)\<rparr>"
proof (induction ws arbitrary: k s)
  case (Cons w ws)
  let ?t = "s\<lparr>burst_tx := take (4 * k) (burst_tx s) @ be_bytes w @ drop (4 * k + 4) (burst_tx s)\<rparr>"
  have l: "length (burst_tx s) = 64" "unat (burst_len s) \<le> 16" using Cons.prems(1) by (simp_all add: spi_ok_def)
  have "spi_ok ?t" using Cons.prems l by (simp add: spi_ok_def)
  moreover have "spi_write_reg (SPI_REG_BURST_TX + of_nat (4 * k)) w s = ?t"
    using Cons.prems l by (subst write_tx) auto
  ultimately show ?case
    using Cons.IH [of ?t "Suc k"] Cons.prems l by (simp add: send_words_def algebra_simps)
qed (simp add: send_words_def)

lemma send_words_snoc:
  "send_words k (ws @ [w]) s = spi_write_reg (SPI_REG_BURST_TX + of_nat (4 * (k + length ws))) w (send_words k ws s)"
  by (simp add: send_words_def enumerate_append_eq)

lemma read_burst_rx:
  assumes "k < 16"
  shows "fst (spi_read_reg (SPI_REG_BURST_RX + of_nat (4 * k)) s) = burst_word (burst_rx s) k"
proof -
  let ?r = "SPI_REG_BURST_RX + of_nat (4 * k)"
  have u: "unat (of_nat (4 * k) :: u32) = 4 * k"
    using assms by (simp only: unat_of_nat) simp
  then have r: "unat ?r = 80 + 4 * k"
    using assms by (simp only: SPI_REG_BURST_RX_def unat_word_ariths) simp
  have "?r \<noteq> SPI_REG_CR" "?r \<noteq> SPI_REG_SR" "?r \<noteq> SPI_REG_DR" "?r \<noteq> SPI_REG_BURST_LEN"
    using r by (auto simp only: SPI_REG_CR_def SPI_REG_SR_def SPI_REG_DR_def SPI_REG_BURST_LEN_def)
      (simp_all add: unsigned_0)
  moreover have "\<not> ?r < SPI_REG_BURST_TX + BURST_REGS" "?r \<ge> SPI_REG_BURST_RX"
    "?r < SPI_REG_BURST_RX + BURST_REGS"
    using assms by (simp_all only: word_le_nat_alt word_less_nat_alt r) (simp_all add: spi_regs)
  moreover have "?r - SPI_REG_BURST_RX = of_nat (4 * k)" by simp
  ultimately show ?thesis by (simp add: spi_read_reg_def u del: of_nat_mult)
qed

lemma concat_fours: "length rs = 4 * n \<Longrightarrow> concat (map (\<lambda>k. map (\<lambda>i. rs ! (4 * k + i)) [0, 1, 2, 3]) [0 ..< n]) = rs"
proof (induction n arbitrary: rs)
  case (Suc n)
  then have "length rs = Suc (Suc (Suc (Suc (4 * n))))" by simp
  then obtain a b c d xs where rs: "rs = a # b # c # d # xs"
    by (auto simp only: length_Suc_conv)
  have "concat (map (\<lambda>k. map (\<lambda>i. xs ! (4 * k + i)) [0, 1, 2, 3]) [0 ..< n]) = xs"
    using Suc.prems rs by (intro Suc.IH) simp
  then show ?case
    unfolding upt_conv_Cons [OF zero_less_Suc] map_Suc_upt [symmetric] rs
    by (simp add: comp_def nth_Cons' numeral_eq_Suc)
qed simp

lemma burst_transaction:
  assumes ok: "spi_ok s" "\<not> cs_active s" and n: "ws \<noteq> []" "length ws \<le> 16"
  shows "case spi_burst ws s of (as, t) \<Rightarrow>
     concat (map be_bytes as) = fst (transaction (concat (map be_bytes ws)) (spi_flash s)) \<and>
     spi_flash t = snd (transaction (concat (map be_bytes ws)) (spi_flash s)) \<and>
     spi_ok t \<and> \<not> cs_active t"
proof -
  obtain us w where ws: "ws = us @ [w]" using n(1) rev_exhaust by blast
  let ?n = "length ws" and ?bs = "concat (map be_bytes ws)"
  define s0 where "s0 = spi_write_reg SPI_REG_BURST_LEN (of_nat ?n) s"
  have u: "unat (of_nat ?n :: u32) = ?n" using n(2) by (simp only: unat_of_nat) simp
  then have s0: "s0 = s\<lparr>burst_len := of_nat ?n\<rparr>"
    using n(2) by (auto simp: s0_def spi_write_reg_def spi_regs min_def word_le_nat_alt)
  have ok0: "spi_ok s0" unfolding s0_def by (rule spi_write_ok [OF ok(1)])
  define t where "t = s0\<lparr>burst_tx := ?bs @ drop (4 * ?n) (burst_tx s0)\<rparr>"
  define s1 where "s1 = send_words 0 us s0"
  have s1: "s1 = s0\<lparr>burst_tx := concat (map be_bytes us) @ drop (4 * length us) (burst_tx s0)\<rparr>"
    using send_words_store [OF ok0, of 0 us] u ws by (simp add: s1_def s0)
  have l0: "length (burst_tx s0) = 64" using ok0 by (simp add: spi_ok_def)
  have ok1: "spi_ok s1" using ok0 l0 n(2) ws by (simp add: s1 spi_ok_def)
  have okt: "spi_ok t" using ok0 l0 n(2) by (simp add: t_def spi_ok_def)
  have t: "send_words 0 ws s0 = do_burst t"
    using write_tx [OF ok1, of "length us" w] n(2) ws u l0
    by (simp add: send_words_snoc flip: s1_def) (simp add: s1 s0 t_def)
  have "unat (burst_len t) * 4 = 4 * ?n" using u by (simp add: t_def s0)
  moreover have "take (4 * ?n) (burst_tx t) = ?bs" by (simp add: t_def)
  moreover have "\<not> cs_active t" "spi_flash t = spi_flash s" using ok(2) by (simp_all add: t_def s0)
  ultimately have b: "do_burst t = t\<lparr>spi_flash := snd (transaction ?bs (spi_flash s)),
      burst_rx := fst (transaction ?bs (spi_flash s)) @ drop (4 * ?n) (burst_rx t),
      spi_cr := spi_cr t AND NOT CR_NSS_LOW\<rparr>"
    using do_burst_transaction [OF okt, of "4 * ?n"] by (simp add: split_def Let_def)
  have "map (\<lambda>k. fst (spi_read_reg (SPI_REG_BURST_RX + of_nat (4 * k)) (do_burst t))) [0 ..< ?n] =
      map (burst_word (burst_rx (do_burst t))) [0 ..< ?n]"
    using n(2) by (intro map_cong [OF refl] read_burst_rx) simp
  then have "spi_burst ws s = (map (burst_word (burst_rx (do_burst t))) [0 ..< ?n], do_burst t)"
    by (simp add: spi_burst_def t Let_def flip: s0_def)
  moreover have "concat (map be_bytes (map (burst_word (burst_rx (do_burst t))) [0 ..< ?n])) =
      concat (map (\<lambda>k. map (\<lambda>i. fst (transaction ?bs (spi_flash s)) ! (4 * k + i)) [0, 1, 2, 3]) [0 ..< ?n])"
    by (intro arg_cong [where f = concat]) (simp add: be_bytes_word b nth_append comp_def)
  moreover have "\<dots> = fst (transaction ?bs (spi_flash s))" by (rule concat_fours) simp
  ultimately show ?thesis using do_burst_ok [OF okt] b by simp
qed

section \<open>Properties\<close>

text \<open>C4. A burst of 1 to 16 words, made through the registers with chip select high, is exactly
  one transaction of the flash: the bytes of the words, most significant first, are exchanged
  between an assert and a deassert of the chip select, BURST_RX holds the answers in the same
  order, and the controller is ready for the next burst.\<close>

theorem spi_burst_is_transaction:
  assumes "spi_ok s" "\<not> cs_active s" "ws \<noteq> []" "length ws \<le> 16"
  shows "case spi_burst ws s of (as, t) \<Rightarrow>
     concat (map be_bytes as) = fst (transaction (concat (map be_bytes ws)) (spi_flash s)) \<and>
     spi_flash t = snd (transaction (concat (map be_bytes ws)) (spi_flash s)) \<and>
     spi_ok t \<and> \<not> cs_active t"
  using assms by (rule burst_transaction)

theorem spi_burst_is_transaction_witness:
  "concat (map be_bytes (fst (spi_burst [0x9F000000] new_spi))) = [0xFF, 0xEF, 0x40, 0x16]"
proof -
  have "be_bytes 0x9F000000 = [CMD_READ_ID, 0, 0, 0]"
    by (simp add: be_bytes_def byte_def CMD_READ_ID_def)
  moreover have "fst (transaction [CMD_READ_ID, 0, 0, 0] new_flash) = [0xFF, 0xEF, 0x40, 0x16]"
    by (simp add: transaction_def cs_assert_def exchange_def handle_data_def flash_cmds Let_def)
  moreover have "\<not> cs_active new_spi" "spi_flash new_spi = new_flash" by (simp_all add: new_spi_def)
  ultimately show ?thesis
    using spi_burst_is_transaction [OF new_spi_ok, of "[0x9F000000]"] by (simp add: split_def)
qed

text \<open>The words a driver sends: WRITE_ENABLE, and a command with an address.\<close>

definition cmd_word :: "u8 \<Rightarrow> u8 \<Rightarrow> u8 \<Rightarrow> u8 \<Rightarrow> u32" where
  "cmd_word c a2 a1 a0 = join32 a0 a1 a2 c"

definition burst_seq :: "u32 list list \<Rightarrow> spi \<Rightarrow> spi" where
  "burst_seq bs s = fold (\<lambda>ws t. snd (spi_burst ws t)) bs s"

lemma be_bytes_cmd [simp]: "be_bytes (cmd_word c a2 a1 a0) = [c, a2, a1, a0]"
  by (simp add: be_bytes_def cmd_word_def)

lemma burst_seq_flash:
  assumes "spi_ok s" "\<not> cs_active s" "\<forall>ws \<in> set bs. ws \<noteq> [] \<and> length ws \<le> 16"
  shows "spi_ok (burst_seq bs s) \<and> \<not> cs_active (burst_seq bs s) \<and>
     spi_flash (burst_seq bs s) =
       fold (\<lambda>ws f. snd (transaction (concat (map be_bytes ws)) f)) bs (spi_flash s)"
  using assms
proof (induction bs arbitrary: s)
  case (Cons ws bs)
  then show ?case using burst_transaction [of s ws] by (simp add: burst_seq_def split_def)
qed (simp add: burst_seq_def)

text \<open>WRITE_ENABLE is complete after its byte; the rest of the word is ignored.\<close>

lemma enable_word:
  "snd (transaction (CMD_WRITE_ENABLE # bs) f) = snd (transaction [CMD_WRITE_ENABLE] f)"
proof -
  have "snd (exchange_all bs g) = g" if "phase g = IDLE" for g
    using that by (induction bs arbitrary: g) (simp_all add: exchange_def split_def Let_def)
  then show ?thesis
    by (simp add: transaction_def split_def Let_def exchange_def cs_assert_def)
qed

lemma program_read_words:
  assumes ok: "spi_ok s" "\<not> cs_active s" and n: "length ws \<le> 15" "length ns = length ws"
    and bs: "bs = [[cmd_word CMD_WRITE_ENABLE 0 0 0], [cmd_word CMD_SECTOR_ERASE a2 a1 0],
        [cmd_word CMD_WRITE_ENABLE 0 0 0], cmd_word CMD_PAGE_PROGRAM a2 a1 0 # ws]"
  shows "tl (fst (spi_burst (cmd_word CMD_READ_DATA a2 a1 0 # ns) (burst_seq bs s))) = ws"
proof -
  let ?B = "concat \<circ> map be_bytes"
  let ?en = "\<lambda>f. snd (transaction [CMD_WRITE_ENABLE] f)"
  let ?f1 = "snd (transaction [CMD_SECTOR_ERASE, a2, a1, 0] (?en (spi_flash s)))"
  let ?f2 = "snd (transaction ([CMD_PAGE_PROGRAM, a2, a1, 0] @ ?B ws) (?en ?f1))"
  have t: "spi_ok (burst_seq bs s)" "\<not> cs_active (burst_seq bs s)" "spi_flash (burst_seq bs s) = ?f2"
    using burst_seq_flash [OF ok, of bs] n(1) by (simp_all add: bs enable_word [of "[0, 0, 0]"])
  obtain as u where b: "spi_burst (cmd_word CMD_READ_DATA a2 a1 0 # ns) (burst_seq bs s) = (as, u)"
    by fastforce
  have as: "?B as = fst (transaction ([CMD_READ_DATA, a2, a1, 0] @ ?B ns) ?f2)"
    using burst_transaction [OF t(1,2), of "cmd_word CMD_READ_DATA a2 a1 0 # ns"] n
    by (simp add: b t(3))
  have l: "length (?B ws) \<le> 256" "length (?B ns) = length (?B ws)" using n by simp_all
  have "drop 4 (fst (transaction ([CMD_READ_DATA, a2, a1, 0] @ ?B ns) ?f2)) = ?B ws"
    using erase_program_read [OF l, of a2 a1 "spi_flash s"] by (simp only: Let_def)
  then have "drop 4 (?B as) = ?B ws" by (simp only: as)
  moreover have "as \<noteq> []"
  proof
    assume "as = []"
    then have "length (?B as) = 0" by simp
    then show False unfolding as transaction_length by simp
  qed
  then have "drop 4 (?B as) = ?B (tl as)" by (cases as) (simp_all add: be_bytes_def)
  ultimately have "tl as = ws" by (intro concat_be_bytes_inj) (simp only: comp_def)
  then show ?thesis by (simp only: b fst_conv)
qed

text \<open>C31. The driver's round trip through the register interface: erase a sector, program up to 15
  words at the start of one of its pages and read them back, in five bursts with WRITE_ENABLE
  before the erase and before the program; the words read are the words written.\<close>

theorem spi_flash_roundtrip:
  assumes "spi_ok s" "\<not> cs_active s" "length ws \<le> 15" "length ns = length ws"
  shows "tl (fst (spi_burst (cmd_word CMD_READ_DATA a2 a1 0 # ns)
     (burst_seq [[cmd_word CMD_WRITE_ENABLE 0 0 0], [cmd_word CMD_SECTOR_ERASE a2 a1 0],
        [cmd_word CMD_WRITE_ENABLE 0 0 0], cmd_word CMD_PAGE_PROGRAM a2 a1 0 # ws] s))) = ws"
  using assms by (intro program_read_words) simp_all

theorem spi_flash_roundtrip_witness:
  "tl (fst (spi_burst [cmd_word CMD_READ_DATA 0 1 0, 0, 0]
     (burst_seq [[cmd_word CMD_WRITE_ENABLE 0 0 0], [cmd_word CMD_SECTOR_ERASE 0 1 0],
        [cmd_word CMD_WRITE_ENABLE 0 0 0], [cmd_word CMD_PAGE_PROGRAM 0 1 0, 0xDEADBEEF, 0x01020304]] new_spi))) =
   [0xDEADBEEF, 0x01020304]"
  using spi_flash_roundtrip [OF new_spi_ok, of "[0xDEADBEEF, 0x01020304]" "[0, 0]" 0 1]
  by (simp add: new_spi_def)

end
