(* ===== verification/I2c.thy ===== *)
theory I2c
  imports Prelude "HOL-Library.Signed_Division"
begin

text \<open>
  The I2C controller and its temperature sensor LM75: \<open>I2c\<close> and \<open>Lm75\<close> of
  src/peripherals/i2c.h and src/peripherals/i2c.cpp. A word written to CR is a whole transfer.
\<close>

section \<open>The sensor\<close>

definition DEFAULT_ADDR :: u8 where "DEFAULT_ADDR = 0x48"
definition REG_TEMP :: nat where "REG_TEMP = 0"
definition REG_CONF :: nat where "REG_CONF = 1"
definition REG_TOS :: nat where "REG_TOS = 2"
definition REG_THYST :: nat where "REG_THYST = 3"

lemmas lm75_regs = REG_TEMP_def REG_CONF_def REG_TOS_def REG_THYST_def

text \<open>The array \<open>regs_\<close> of eight bytes.\<close>

type_synonym lm75 = "u8 list"

definition new_lm75 :: lm75 where
  "new_lm75 = (replicate 8 0)
     [REG_TEMP * 2 := 0x19, REG_TEMP * 2 + 1 := 0x00, REG_CONF * 2 := 0x00, REG_CONF * 2 + 1 := 0x00,
      REG_TOS * 2 := 0x50, REG_TOS * 2 + 1 := 0x00, REG_THYST * 2 := 0x4B, REG_THYST * 2 + 1 := 0x00]"

definition read_reg16 :: "u8 \<Rightarrow> lm75 \<Rightarrow> u16" where
  "read_reg16 reg l =
     (if reg > 3 then 0
      else (let base = unat reg * 2 in push_bit 8 (ucast (l ! base)) OR ucast (l ! (base + 1))))"

definition write_reg16 :: "u8 \<Rightarrow> u16 \<Rightarrow> lm75 \<Rightarrow> lm75" where
  "write_reg16 reg val l =
     (if reg > 3 then l
      else (let base = unat reg * 2 in l[base := ucast (drop_bit 8 val), base + 1 := ucast (val AND 0xFF)]))"

text \<open>\<open>int16_t\<close> is promoted to \<open>int\<close>: the shift is arithmetic.\<close>

definition set_temperature_raw :: "u16 \<Rightarrow> lm75 \<Rightarrow> lm75" where
  "set_temperature_raw raw l =
     l[0 := word_of_int ((sint raw div 2) AND 0xFF), 1 := (if sint raw AND 1 \<noteq> 0 then 0x80 else 0x00)]"

text \<open>Division and remainder of C++ truncate towards zero.\<close>

definition set_temperature_c10 :: "int \<Rightarrow> lm75 \<Rightarrow> lm75" where
  "set_temperature_c10 temp_c10 l =
     (let integer_part = temp_c10 sdiv 10; half = (temp_c10 smod 10 \<ge> 5)
      in l[0 := word_of_int integer_part, 1 := (if half then 0x80 else 0x00)])"

text \<open>\<open>temperature_c\<close> in half degrees: its \<open>float\<close> is a multiple of one half and exact.\<close>

definition temperature_c :: "lm75 \<Rightarrow> int" where
  "temperature_c l = 2 * sint (l ! 0) + (if l ! 1 AND 0x80 \<noteq> 0 then 1 else 0)"

section \<open>The controller\<close>

definition I2C_REG_CR :: u32 where "I2C_REG_CR = 0x00"
definition I2C_REG_SR :: u32 where "I2C_REG_SR = 0x04"
definition I2C_REG_DR :: u32 where "I2C_REG_DR = 0x08"
definition REG_REG_ADDR :: u32 where "REG_REG_ADDR = 0x0C"
definition CR_READ :: u32 where "CR_READ = push_bit 8 1"
definition CR_START :: u32 where "CR_START = push_bit 9 1"
definition CR_STOP :: u32 where "CR_STOP = push_bit 10 1"
definition I2C_SR_BUSY :: u32 where "I2C_SR_BUSY = push_bit 0 1"
definition SR_ACK_OK :: u32 where "SR_ACK_OK = push_bit 1 1"
definition SR_NACK :: u32 where "SR_NACK = push_bit 2 1"
definition I2C_SR_RX_READY :: u32 where "I2C_SR_RX_READY = push_bit 3 1"

lemmas i2c_regs = I2C_REG_CR_def I2C_REG_SR_def I2C_REG_DR_def REG_REG_ADDR_def
lemmas i2c_bits = CR_READ_def CR_START_def CR_STOP_def I2C_SR_BUSY_def SR_ACK_OK_def SR_NACK_def
  I2C_SR_RX_READY_def

record i2c =
  i2c_sr :: u32
  reg_addr :: u8
  i2c_rx :: "u8 list"
  sensor :: lm75

definition new_i2c :: i2c where
  "new_i2c = \<lparr>i2c_sr = 0, reg_addr = 0, i2c_rx = [], sensor = new_lm75\<rparr>"

definition dispatch_read :: "u8 \<Rightarrow> u8 \<Rightarrow> i2c \<Rightarrow> bool \<times> i2c" where
  "dispatch_read slave reg c =
     (if slave \<noteq> DEFAULT_ADDR then (False, c)
      else (let word = read_reg16 reg (sensor c)
            in (True, c\<lparr>i2c_rx := [ucast (drop_bit 8 word), ucast (word AND 0xFF)]\<rparr>)))"

text \<open>\<open>data\<close> is the list of the \<open>len\<close> bytes the pointer leads to.\<close>

definition dispatch_write :: "u8 \<Rightarrow> u8 \<Rightarrow> u8 list \<Rightarrow> i2c \<Rightarrow> bool \<times> i2c" where
  "dispatch_write slave reg data c =
     (if slave \<noteq> DEFAULT_ADDR then (False, c)
      else if length data < 2 then (False, c)
      else (let val = push_bit 8 (ucast (data ! 0)) OR ucast (data ! 1)
            in (True, c\<lparr>sensor := write_reg16 reg val (sensor c)\<rparr>)))"

definition i2c_read_reg :: "u32 \<Rightarrow> i2c \<Rightarrow> u32 \<times> i2c" where
  "i2c_read_reg offset c =
     (if offset = I2C_REG_SR then (i2c_sr c, c)
      else if offset = I2C_REG_DR then
        (case i2c_rx c of
           [] \<Rightarrow> (0xFF, c)
         | b # bs \<Rightarrow> (ucast b, c\<lparr>i2c_rx := bs,
             i2c_sr := if bs = [] then i2c_sr c AND NOT I2C_SR_RX_READY else i2c_sr c\<rparr>))
      else if offset = REG_REG_ADDR then (ucast (reg_addr c), c)
      else (0, c))"

definition i2c_write_reg :: "u32 \<Rightarrow> u32 \<Rightarrow> i2c \<Rightarrow> i2c" where
  "i2c_write_reg offset val c =
     (if offset = I2C_REG_CR then
        (let slave = ucast (val AND 0x7F); read = (val AND CR_READ \<noteq> 0); start = (val AND CR_START \<noteq> 0)
         in if \<not> start then c
            else (let c = c\<lparr>i2c_sr := I2C_SR_BUSY\<rparr> in
              if read then
                (case dispatch_read slave (reg_addr c) c of
                   (True, d) \<Rightarrow> d\<lparr>i2c_sr := SR_ACK_OK OR I2C_SR_RX_READY\<rparr>
                 | (False, d) \<Rightarrow> d\<lparr>i2c_sr := SR_NACK\<rparr>)
              else
                (let stop = (val AND CR_STOP \<noteq> 0);
                     reg = ucast (drop_bit 8 val AND 0xFF);
                     data16 = ucast (drop_bit 16 val AND 0xFFFF) :: u16;
                     c = c\<lparr>reg_addr := reg\<rparr>
                 in if stop then
                      (case dispatch_write slave reg [ucast (drop_bit 8 data16), ucast (data16 AND 0xFF)] c of
                         (True, d) \<Rightarrow> d\<lparr>i2c_sr := SR_ACK_OK\<rparr>
                       | (False, d) \<Rightarrow> d\<lparr>i2c_sr := SR_NACK\<rparr>)
                    else c\<lparr>i2c_sr := SR_ACK_OK\<rparr>)))
      else if offset = REG_REG_ADDR then c\<lparr>reg_addr := ucast (val AND 0xFF)\<rparr>
      else c)"

definition read_sensor_reg :: "u8 \<Rightarrow> u8 \<Rightarrow> i2c \<Rightarrow> nat \<times> i2c" where
  "read_sensor_reg slave_addr reg c =
     (case dispatch_read slave_addr reg (c\<lparr>reg_addr := reg\<rparr>) of
        (False, d) \<Rightarrow> (0, d\<lparr>i2c_sr := SR_NACK\<rparr>)
      | (True, d) \<Rightarrow> (length (i2c_rx d), d\<lparr>i2c_sr := SR_ACK_OK OR I2C_SR_RX_READY\<rparr>))"

definition write_sensor_reg :: "u8 \<Rightarrow> u8 \<Rightarrow> u16 \<Rightarrow> i2c \<Rightarrow> i2c" where
  "write_sensor_reg slave_addr reg value c =
     (case dispatch_write slave_addr reg [ucast (drop_bit 8 value), ucast (value AND 0xFF)] c of
        (True, d) \<Rightarrow> d\<lparr>i2c_sr := SR_ACK_OK\<rparr>
      | (False, d) \<Rightarrow> d\<lparr>i2c_sr := SR_NACK\<rparr>)"

section \<open>Lemmas\<close>

lemma low_byte16: "ucast (w AND 0xFF) = (ucast w :: u8)" for w :: u16
proof -
  have "(0xFF :: u16) = mask 8" by (simp add: mask_eq_exp_minus_1)
  then show ?thesis by (simp only: \<open>0xFF = mask 8\<close>) (rule bit_word_eqI, auto simp: bit_simps)
qed

lemma join_bytes: "push_bit 8 (ucast (ucast (drop_bit 8 w) :: u8)) OR ucast (ucast w :: u8) = w" for w :: u16
  by (rule bit_word_eqI) (auto simp: bit_simps)

text \<open>A register written with two bytes reads as their word; other registers keep theirs.\<close>

lemma lm75_write_read:
  assumes "length l = 8" "reg \<le> 3" "r \<le> 3"
  shows "read_reg16 r (write_reg16 reg v l) = (if r = reg then v else read_reg16 r l)"
proof -
  have b: "unat reg < 4" "unat r < 4" using assms(2,3) by (simp_all add: word_le_nat_alt)
  have ne: "r \<noteq> reg \<Longrightarrow> unat r \<noteq> unat reg" by (simp add: word_unat_eq_iff)
  show ?thesis
  proof (cases "r = reg")
    case True
    have "\<not> 3 < reg" using assms(2) by (simp add: not_less)
    with True show ?thesis
      using assms b by (simp add: read_reg16_def write_reg16_def Let_def low_byte16 join_bytes nth_list_update)
  next
    case False
    then have "unat r * 2 \<noteq> unat reg * 2" "unat r * 2 \<noteq> unat reg * 2 + 1"
      "unat r * 2 + 1 \<noteq> unat reg * 2" "unat r * 2 + 1 \<noteq> unat reg * 2 + 1"
      using ne by presburger+
    with False assms b show ?thesis
      by (simp add: read_reg16_def write_reg16_def Let_def nth_list_update)
  qed
qed

text \<open>The register byte of a write command contains its START and STOP bits.\<close>

lemma small_bits: "\<not> 3 < w \<Longrightarrow> 2 \<le> n \<Longrightarrow> \<not> bit w n" for w :: u8
proof -
  assume w: "\<not> 3 < w" and n: "2 \<le> n"
  then have "unat w < 2 ^ 2" by (simp add: not_less word_le_nat_alt)
  also have "(2 :: nat) ^ 2 \<le> 2 ^ n" using n by (rule power_increasing) simp
  finally have "unat w div 2 ^ n = 0" by simp
  then have "\<not> bit (unat w) n" by (simp add: bit_iff_odd)
  then show ?thesis by (simp add: bit_unsigned_iff)
qed

lemma reg_bits:
  "bit (ucast (drop_bit 8 val AND 0xFF) :: u8) n \<longleftrightarrow> n < 8 \<and> bit val (8 + n)" for val :: u32
proof -
  have "(0xFF :: u32) = mask 8" by (simp add: mask_eq_exp_minus_1)
  then show ?thesis by (simp only: \<open>0xFF = mask 8\<close>) (auto simp: bit_simps)
qed

lemma embedded_reg:
  fixes val :: u32
  assumes "val AND CR_START \<noteq> 0" "val AND CR_READ = 0"
  defines "reg \<equiv> ucast (drop_bit 8 val AND 0xFF) :: u8"
  shows "val AND CR_STOP \<noteq> 0 \<Longrightarrow> 3 < reg" and "3 < reg \<or> reg = 2"
proof -
  have b: "bit reg 1" "\<not> bit reg 0" "bit reg 2 \<longleftrightarrow> val AND CR_STOP \<noteq> 0"
    using assms(1,2) unfolding CR_START_def CR_READ_def CR_STOP_def test_bit_iff reg_def reg_bits
    by (simp_all add: test_bit_iff flip: test_bit_iff)
  show "val AND CR_STOP \<noteq> 0 \<Longrightarrow> 3 < reg" using small_bits [of reg 2] b(3) by auto
  have "reg = 2" if "\<not> 3 < reg"
  proof (rule bit_word_eqI)
    fix n :: nat
    consider "n = 0" | "n = 1" | "2 \<le> n" by linarith
    then show "bit reg n = bit (2 :: u8) n"
      using b(1,2) small_bits [OF that] small_bits [of 2 n] by cases simp_all
  qed
  then show "3 < reg \<or> reg = 2" by blast
qed

lemma sint_byte: "- 128 \<le> i \<Longrightarrow> i < 128 \<Longrightarrow> sint (word_of_int i :: u8) = i"
  by (simp add: signed_of_int signed_take_bit_int_eq_self)

text \<open>Register writes leave the sensor alone.\<close>

lemma write_reg_sensor: "sensor (i2c_write_reg off val c) = sensor c"
  using embedded_reg(1) [of val]
  by (auto simp: i2c_write_reg_def dispatch_read_def dispatch_write_def write_reg16_def Let_def not_less
      split: prod.splits)

lemma read_reg_sensor: "sensor (snd (i2c_read_reg off c)) = sensor c"
  by (simp add: i2c_read_reg_def split: list.split)

section \<open>Properties\<close>

text \<open>Reading a sensor register through the controller: a command with START and READ to the
  sensor's address leaves ACK_OK and RX_READY, the two reads of DR that follow return the
  register selected by REG_ADDR, high byte first, and clear RX_READY; further reads return 0xFF.
  To any other address the command is answered with NACK alone.\<close>

theorem i2c_reads_register:
  assumes "val AND CR_START \<noteq> 0" "val AND CR_READ \<noteq> 0"
  shows "(let d = i2c_write_reg I2C_REG_CR val c in
     if ucast (val AND 0x7F) = DEFAULT_ADDR then
       (let w = read_reg16 (reg_addr c) (sensor c);
            (hi, d1) = i2c_read_reg I2C_REG_DR d; (lo, d2) = i2c_read_reg I2C_REG_DR d1
        in i2c_sr d = SR_ACK_OK OR I2C_SR_RX_READY \<and> hi = ucast (drop_bit 8 w) \<and>
           lo = ucast (w AND 0xFF) \<and> i2c_sr d1 = i2c_sr d \<and> i2c_sr d2 = SR_ACK_OK \<and>
           i2c_read_reg I2C_REG_DR d2 = (0xFF, d2))
     else i2c_sr d = SR_NACK \<and> i2c_rx d = i2c_rx c)"
proof -
  have u: "ucast (ucast (drop_bit 8 w) :: u8) = (ucast (drop_bit 8 w) :: u32)" for w :: u16
    by (rule bit_word_eqI) (auto simp: bit_simps dest: bit_imp_le_length)
  have v: "ucast (ucast (w AND 0xFF) :: u8) = (ucast (w AND 0xFF) :: u32)" for w :: u16
  proof -
    have "(0xFF :: u16) = mask 8" by (simp add: mask_eq_exp_minus_1)
    then show ?thesis by (simp only: \<open>0xFF = mask 8\<close>) (rule bit_word_eqI, auto simp: bit_simps)
  qed
  show ?thesis
    using assms
    by (simp add: i2c_write_reg_def i2c_read_reg_def dispatch_read_def Let_def u v i2c_regs i2c_bits)
qed

theorem i2c_reads_register_witness:
  "fst (i2c_read_reg I2C_REG_DR (i2c_write_reg I2C_REG_CR 0x348 new_i2c)) = 0x19"
proof -
  have "(0x348 :: u32) AND CR_START \<noteq> 0" "(0x348 :: u32) AND CR_READ \<noteq> 0" by (simp_all add: i2c_bits)
  from i2c_reads_register [OF this, of new_i2c] show ?thesis
    by (simp add: DEFAULT_ADDR_def Let_def split_def new_i2c_def read_reg16_def new_lm75_def lm75_regs)
qed

text \<open>The sequence of a driver that reads a sensor register: REG_ADDR, the command with START, STOP and
  READ, and two reads of DR.\<close>

definition driver_read :: "u8 \<Rightarrow> i2c \<Rightarrow> (u32 \<times> u32) \<times> i2c" where
  "driver_read reg c =
     (let c = i2c_write_reg I2C_REG_CR (CR_START OR CR_STOP OR CR_READ OR ucast DEFAULT_ADDR)
            (i2c_write_reg REG_REG_ADDR (ucast reg) c);
          (hi, c) = i2c_read_reg I2C_REG_DR c; (lo, c) = i2c_read_reg I2C_REG_DR c
      in ((hi, lo), c))"

definition i2c_accesses :: "(bool \<times> u32 \<times> u32) list \<Rightarrow> i2c \<Rightarrow> i2c" where
  "i2c_accesses acc c = fold (\<lambda>(w, off, val) c. if w then i2c_write_reg off val c else snd (i2c_read_reg off c)) acc c"

lemma i2c_accesses_sensor: "sensor (i2c_accesses acc c) = sensor c"
  unfolding i2c_accesses_def by (induction acc arbitrary: c) (auto simp: write_reg_sensor read_reg_sensor)

lemma driver_read:
  "\<exists>d. driver_read reg c = ((ucast (drop_bit 8 (read_reg16 reg (sensor c))), ucast (read_reg16 reg (sensor c) AND 0xFF)), d) \<and>
     i2c_sr d = SR_ACK_OK \<and> i2c_rx d = [] \<and> sensor d = sensor c"
proof -
  let ?val = "CR_START OR CR_STOP OR CR_READ OR ucast DEFAULT_ADDR :: u32"
  let ?c = "i2c_write_reg REG_REG_ADDR (ucast reg) c"
  have c: "?c = c\<lparr>reg_addr := reg\<rparr>"
  proof -
    have "(0xFF :: u32) = mask 8" by (simp add: mask_eq_exp_minus_1)
    then have "ucast ((ucast reg :: u32) AND 0xFF) = reg"
      by (simp only: \<open>0xFF = mask 8\<close>) (rule bit_word_eqI, auto simp: bit_simps)
    then show ?thesis by (simp add: i2c_write_reg_def i2c_regs)
  qed
  have v: "?val AND CR_START \<noteq> 0" "?val AND CR_READ \<noteq> 0" "ucast (?val AND 0x7F) = DEFAULT_ADDR"
    by (simp_all add: i2c_bits DEFAULT_ADDR_def)
  let ?d = "i2c_write_reg I2C_REG_CR ?val ?c"
  let ?d1 = "i2c_read_reg I2C_REG_DR ?d" let ?d2 = "i2c_read_reg I2C_REG_DR (snd ?d1)"
  have "i2c_sr (snd ?d2) = SR_ACK_OK \<and> fst ?d1 = ucast (drop_bit 8 (read_reg16 reg (sensor c))) \<and>
      fst ?d2 = ucast (read_reg16 reg (sensor c) AND 0xFF) \<and> i2c_read_reg I2C_REG_DR (snd ?d2) = (0xFF, snd ?d2)"
    using i2c_reads_register [OF v(1,2), of ?c] v(3) by (simp add: Let_def split_def c)
  moreover from this have "i2c_rx (snd ?d2) = []"
    by (cases "i2c_rx (snd ?d2)") (auto simp: i2c_read_reg_def i2c_regs dest: arg_cong [where f = "\<lambda>c. length (i2c_rx c)"])
  moreover have "sensor (snd ?d2) = sensor c" by (simp add: read_reg_sensor write_reg_sensor c)
  ultimately show ?thesis
    by (intro exI [of _ "snd ?d2"]) (simp add: driver_read_def Let_def split_def)
qed



text \<open>No sequence of register accesses changes the sensor: in a write command with data, the byte
  that selects the sensor register contains the START and STOP bits, so it is never one of the
  four registers; yet such a command to the sensor is answered with ACK_OK. A write command
  without STOP selects register 2 or none.\<close>

theorem i2c_never_writes_sensor:
  "sensor (fold (\<lambda>(w, off, val) c. if w then i2c_write_reg off val c else snd (i2c_read_reg off c)) acc c) =
     sensor c \<and>
   (val AND CR_START \<noteq> 0 \<and> val AND CR_READ = 0 \<and> ucast (val AND 0x7F) = DEFAULT_ADDR \<longrightarrow>
      i2c_sr (i2c_write_reg I2C_REG_CR val c) = SR_ACK_OK \<and>
      (reg_addr (i2c_write_reg I2C_REG_CR val c) = 2 \<or> reg_addr (i2c_write_reg I2C_REG_CR val c) > 3))"
proof
  show "sensor (fold (\<lambda>(w, off, val) c. if w then i2c_write_reg off val c else snd (i2c_read_reg off c)) acc c) =
     sensor c"
    by (induction acc arbitrary: c) (auto simp: write_reg_sensor read_reg_sensor)
  show "val AND CR_START \<noteq> 0 \<and> val AND CR_READ = 0 \<and> ucast (val AND 0x7F) = DEFAULT_ADDR \<longrightarrow>
      i2c_sr (i2c_write_reg I2C_REG_CR val c) = SR_ACK_OK \<and>
      (reg_addr (i2c_write_reg I2C_REG_CR val c) = 2 \<or> reg_addr (i2c_write_reg I2C_REG_CR val c) > 3)"
    using embedded_reg(2) [of val]
    by (auto simp: i2c_write_reg_def dispatch_write_def Let_def)
qed

theorem i2c_never_writes_sensor_witness:
  "i2c_sr (i2c_write_reg I2C_REG_CR 0x12340648 new_i2c) = SR_ACK_OK \<and>
   sensor (i2c_write_reg I2C_REG_CR 0x12340648 new_i2c) = new_lm75"
proof -
  have "(0x12340648 :: u32) AND CR_START \<noteq> 0 \<and> (0x12340648 :: u32) AND CR_READ = 0 \<and>
      (ucast ((0x12340648 :: u32) AND 0x7F) :: u8) = DEFAULT_ADDR"
    by (simp add: i2c_bits DEFAULT_ADDR_def)
  then show ?thesis
    using i2c_never_writes_sensor [of "[(True, I2C_REG_CR, 0x12340648)]" new_i2c "0x12340648"]
    by (simp add: new_i2c_def)
qed

text \<open>The temperature in tenths of a degree is stored to half a degree, rounded down, when it is
  not negative; a negative one loses its half degree and is rounded towards zero. The raw setter
  stores its nine bits exactly.\<close>

theorem lm75_temperature:
  assumes "length l = 8"
  shows "(0 \<le> t \<and> t < 1280 \<longrightarrow> temperature_c (set_temperature_c10 t l) = t div 5) \<and>
    (- 1280 \<le> t \<and> t < 0 \<longrightarrow> temperature_c (set_temperature_c10 t l) = 2 * - (- t div 10)) \<and>
    (- 256 \<le> sint raw \<and> sint raw < 256 \<longrightarrow> temperature_c (set_temperature_raw raw l) = sint raw)"
proof (intro conjI impI)
  have l: "l \<noteq> []" "Suc 0 < length l" using assms by auto
  have c10: "temperature_c (set_temperature_c10 t l) = 2 * sint (word_of_int (t sdiv 10) :: u8) +
      (if t smod 10 \<ge> 5 then 1 else 0)"
    using assms l by (simp add: temperature_c_def set_temperature_c10_def Let_def)
  show "temperature_c (set_temperature_c10 t l) = t div 5" if t: "0 \<le> t \<and> t < 1280"
  proof -
    have d: "t sdiv 10 = t div 10" "t smod 10 = t mod 10"
      using t by (simp_all add: signed_divide_int_def signed_modulo_int_def minus_div_mult_eq_mod sgn_if)
    have "0 \<le> t div 10" "t div 10 < 128" using t by presburger+
    then have "sint (word_of_int (t div 10) :: u8) = t div 10" by (intro sint_byte) simp_all
    moreover have "2 * (t div 10) + (if t mod 10 \<ge> 5 then 1 else 0) = t div 5"
    proof -
      define q r where qr: "q = t div 10" "r = t mod 10"
      have "t = 2 * q * 5 + r" using qr by simp
      then have "t div 5 = 2 * q + r div 5" by (simp only: div_mult_self3)
      moreover have "r div 5 = (if r \<ge> 5 then 1 else 0)" using qr by (simp add: div_once)
      ultimately show ?thesis using qr by simp
    qed
    ultimately show ?thesis unfolding c10 d by simp
  qed
  show "temperature_c (set_temperature_c10 t l) = 2 * - (- t div 10)" if t: "- 1280 \<le> t \<and> t < 0"
  proof -
    have d: "t sdiv 10 = - (- t div 10)" using t by (simp add: signed_divide_int_def sgn_if)
    have "t smod 10 \<le> 0" using t by (simp add: signed_modulo_int_def sgn_if)
    moreover have "- 128 \<le> - (- t div 10)" "- (- t div 10) < 128" using t by presburger+
    then have "sint (word_of_int (- (- t div 10)) :: u8) = - (- t div 10)" by (rule sint_byte)
    ultimately show ?thesis unfolding c10 d by simp
  qed
  show "temperature_c (set_temperature_raw raw l) = sint raw" if r: "- 256 \<le> sint raw \<and> sint raw < 256"
  proof -
    have "word_of_int ((sint raw div 2) AND 0xFF) = (word_of_int (sint raw div 2) :: u8)"
    proof -
      have "(0xFF :: int) = mask 8" by (simp add: mask_eq_exp_minus_1)
      then show ?thesis by (simp only: take_bit_eq_mask [symmetric]) (rule bit_word_eqI, simp add: bit_simps)
    qed
    moreover have "- 128 \<le> sint raw div 2" "sint raw div 2 < 128" using r by presburger+
    then have "sint (word_of_int (sint raw div 2) :: u8) = sint raw div 2" by (rule sint_byte)
    moreover have "sint raw AND 1 = sint raw mod 2" by (simp add: and_one_eq)
    ultimately show ?thesis
      using assms l by (simp add: temperature_c_def set_temperature_raw_def) presburger
  qed
qed

theorem lm75_temperature_witness:
  "temperature_c (set_temperature_c10 255 new_lm75) = 51 \<and> temperature_c (set_temperature_c10 (- 255) new_lm75) = - 50"
  using lm75_temperature [of new_lm75 255 0] lm75_temperature [of new_lm75 "- 255" 0]
  by (simp add: new_lm75_def)

end
