(* ===== verification/Can.thy ===== *)
theory Can
  imports Fifo
begin

text \<open>
  The CAN controller and the bus that joins several of them: \<open>Can\<close>, \<open>CanFrame\<close> and \<open>CanBus\<close>
  of src/peripherals/can.h and src/peripherals/can.cpp. A network is the list of attached nodes
  and the state of every node; a pointer to a node is its number. The receive buffer is an
  interpretation of \<open>fifo\<close>.
\<close>

section \<open>State\<close>

definition MAX_NODES :: nat where "MAX_NODES = 8"
definition RX_CAPACITY :: nat where "RX_CAPACITY = 32"

definition REG_TX_ID :: u32 where "REG_TX_ID = 0x00"
definition REG_TX_DLC :: u32 where "REG_TX_DLC = 0x04"
definition REG_TX_D0 :: u32 where "REG_TX_D0 = 0x08"
definition REG_TX_D1 :: u32 where "REG_TX_D1 = 0x0C"
definition REG_TX_SEND :: u32 where "REG_TX_SEND = 0x10"
definition REG_RX_ID :: u32 where "REG_RX_ID = 0x14"
definition REG_RX_DLC :: u32 where "REG_RX_DLC = 0x18"
definition REG_RX_D0 :: u32 where "REG_RX_D0 = 0x1C"
definition REG_RX_D1 :: u32 where "REG_RX_D1 = 0x20"
definition REG_RX_POP :: u32 where "REG_RX_POP = 0x24"
definition CAN_REG_SR :: u32 where "CAN_REG_SR = 0x28"
definition REG_FILTER_ID :: u32 where "REG_FILTER_ID = 0x2C"
definition REG_FILTER_MASK :: u32 where "REG_FILTER_MASK = 0x30"

definition SR_TX_OK :: u32 where "SR_TX_OK = push_bit 0 1"
definition CAN_SR_RX_READY :: u32 where "CAN_SR_RX_READY = push_bit 1 1"
definition SR_RX_OVERFLOW :: u32 where "SR_RX_OVERFLOW = push_bit 2 1"

lemmas can_regs = REG_TX_ID_def REG_TX_DLC_def REG_TX_D0_def REG_TX_D1_def REG_TX_SEND_def
  REG_RX_ID_def REG_RX_DLC_def REG_RX_D0_def REG_RX_D1_def REG_RX_POP_def CAN_REG_SR_def
  REG_FILTER_ID_def REG_FILTER_MASK_def
lemmas can_bits = SR_TX_OK_def CAN_SR_RX_READY_def SR_RX_OVERFLOW_def

record can_frame =
  fid :: u16
  dlc :: u8
  fdata :: "u8 list"

definition new_frame :: can_frame where
  "new_frame = \<lparr>fid = 0, dlc = 0, fdata = replicate 8 0\<rparr>"

text \<open>
  \<open>rx_buf\<close> stands for \<open>rx_buf_\<close>, \<open>rx_head_\<close>, \<open>rx_tail_\<close> and \<open>rx_count_\<close>; \<open>on_bus\<close> says that the
  pointer \<open>bus_\<close> is not null.
\<close>

record can =
  on_bus :: bool
  tx_frame :: can_frame
  rx_buf :: "can_frame ring"
  can_sr :: u32
  filter_id :: u16
  filter_mask :: u16

definition new_can :: "bool \<Rightarrow> can" where
  "new_can b = \<lparr>on_bus = b, tx_frame = new_frame, rx_buf = ring_empty RX_CAPACITY new_frame,
                can_sr = 0, filter_id = 0, filter_mask = 0\<rparr>"

record can_net =
  nodes :: "nat list"
  can_of :: "nat \<Rightarrow> can"

section \<open>A node\<close>

definition passes_filter :: "u16 \<Rightarrow> can \<Rightarrow> bool" where
  "passes_filter i c \<longleftrightarrow> i AND filter_mask c = filter_id c AND filter_mask c"

definition can_push :: "can_frame \<Rightarrow> can \<Rightarrow> bool \<times> can" where
  "can_push f c = (let (r, b) = ring_push RX_CAPACITY f (rx_buf c) in (r, c\<lparr>rx_buf := b\<rparr>))"

definition inject :: "can_frame \<Rightarrow> can \<Rightarrow> bool \<times> can" where
  "inject f c =
     (if \<not> passes_filter (fid f) c then (False, c)
      else (case can_push f c of
              (False, d) \<Rightarrow> (False, d\<lparr>can_sr := can_sr d OR SR_RX_OVERFLOW\<rparr>)
            | (True, d) \<Rightarrow> (True, d\<lparr>can_sr := can_sr d OR CAN_SR_RX_READY\<rparr>)))"

definition rx_peek :: "can \<Rightarrow> can_frame" where
  "rx_peek c = (if count (rx_buf c) = 0 then new_frame else buf (rx_buf c) ! head (rx_buf c))"

text \<open>\<open>memcpy\<close> of four bytes of a frame into a word, on the little-endian host.\<close>

definition data_word :: "nat \<Rightarrow> can_frame \<Rightarrow> u32" where
  "data_word k f = join32 (fdata f ! k) (fdata f ! (k + 1)) (fdata f ! (k + 2)) (fdata f ! (k + 3))"

definition can_read_reg :: "u32 \<Rightarrow> can \<Rightarrow> u32" where
  "can_read_reg offset c =
     (let h = buf (rx_buf c) ! head (rx_buf c); none = (count (rx_buf c) = 0) in
      if offset = REG_TX_ID then ucast (fid (tx_frame c))
      else if offset = REG_TX_DLC then ucast (dlc (tx_frame c))
      else if offset = REG_TX_D0 then data_word 0 (tx_frame c)
      else if offset = REG_TX_D1 then data_word 4 (tx_frame c)
      else if offset = REG_RX_ID then (if none then 0 else ucast (fid h))
      else if offset = REG_RX_DLC then (if none then 0 else ucast (dlc h))
      else if offset = REG_RX_D0 then (if none then 0 else data_word 0 h)
      else if offset = REG_RX_D1 then (if none then 0 else data_word 4 h)
      else if offset = CAN_REG_SR then can_sr c
      else if offset = REG_FILTER_ID then ucast (filter_id c)
      else if offset = REG_FILTER_MASK then ucast (filter_mask c)
      else 0)"

section \<open>The bus\<close>

definition can_attach :: "nat \<Rightarrow> can_net \<Rightarrow> can_net" where
  "can_attach n w = (if length (nodes w) < MAX_NODES then w\<lparr>nodes := nodes w @ [n]\<rparr> else w)"

text \<open>The loop of \<open>detach\<close>: the last node takes the place of the one that leaves.\<close>

fun detach_from :: "nat \<Rightarrow> nat list \<Rightarrow> nat list" where
  "detach_from n [] = []"
| "detach_from n (m # ms) =
     (if m = n then (if ms = [] then [] else last ms # butlast ms) else m # detach_from n ms)"

definition can_detach :: "nat \<Rightarrow> can_net \<Rightarrow> can_net" where
  "can_detach n w = w\<lparr>nodes := detach_from n (nodes w)\<rparr>"

text \<open>The body of the loop of \<open>broadcast\<close>, for node \<open>n\<close>.\<close>

definition deliver :: "can_frame \<Rightarrow> nat \<Rightarrow> nat \<Rightarrow> bool \<times> (nat \<Rightarrow> can) \<Rightarrow> bool \<times> (nat \<Rightarrow> can)" where
  "deliver f sender n s =
     (if n \<noteq> sender then
        (let (delivered, dev) = s; (r, c) = inject f (dev n) in (delivered \<or> r, dev(n := c)))
      else s)"

definition broadcast :: "can_frame \<Rightarrow> nat \<Rightarrow> can_net \<Rightarrow> bool \<times> can_net" where
  "broadcast f sender w =
     (let (delivered, dev) = fold (deliver f sender) (nodes w) (False, can_of w)
      in (delivered, w\<lparr>can_of := dev\<rparr>))"

text \<open>Constructor and destructor of a node.\<close>

definition can_create :: "nat \<Rightarrow> bool \<Rightarrow> can_net \<Rightarrow> can_net" where
  "can_create n b w =
     (let w = w\<lparr>can_of := (can_of w)(n := new_can b)\<rparr> in if b then can_attach n w else w)"

definition can_destroy :: "nat \<Rightarrow> can_net \<Rightarrow> can_net" where
  "can_destroy n w = (if on_bus (can_of w n) then can_detach n w else w)"

section \<open>Register writes\<close>

definition on_can :: "nat \<Rightarrow> (can \<Rightarrow> can) \<Rightarrow> can_net \<Rightarrow> can_net" where
  "on_can n g w = w\<lparr>can_of := (can_of w)(n := g (can_of w n))\<rparr>"

definition on_frame :: "(can_frame \<Rightarrow> can_frame) \<Rightarrow> can \<Rightarrow> can" where
  "on_frame g c = c\<lparr>tx_frame := g (tx_frame c)\<rparr>"

definition can_pop :: "can \<Rightarrow> can" where
  "can_pop c =
     (if count (rx_buf c) > 0 then
        (let d = c\<lparr>rx_buf := snd (ring_pop RX_CAPACITY (rx_buf c))\<rparr>
         in if count (rx_buf d) = 0 then d\<lparr>can_sr := can_sr d AND NOT CAN_SR_RX_READY\<rparr> else d)
      else c)"

definition can_send :: "nat \<Rightarrow> can_net \<Rightarrow> can_net" where
  "can_send n w =
     (let w = on_can n (\<lambda>c. c\<lparr>can_sr := can_sr c AND NOT SR_TX_OK\<rparr>) w;
          w = (if on_bus (can_of w n) then snd (broadcast (tx_frame (can_of w n)) n w) else w)
      in on_can n (\<lambda>c. c\<lparr>can_sr := can_sr c OR SR_TX_OK\<rparr>) w)"

definition can_write_reg :: "nat \<Rightarrow> u32 \<Rightarrow> u32 \<Rightarrow> can_net \<Rightarrow> can_net" where
  "can_write_reg n offset val =
     (if offset = REG_TX_ID then on_can n (on_frame (\<lambda>f. f\<lparr>fid := ucast (val AND 0x7FF)\<rparr>))
      else if offset = REG_TX_DLC then
        on_can n (on_frame (\<lambda>f. let f = f\<lparr>dlc := ucast (val AND 0xF)\<rparr> in if dlc f > 8 then f\<lparr>dlc := 8\<rparr> else f))
      else if offset = REG_TX_D0 then
        on_can n (on_frame (\<lambda>f. f\<lparr>fdata := [byte 0 val, byte 1 val, byte 2 val, byte 3 val] @ drop 4 (fdata f)\<rparr>))
      else if offset = REG_TX_D1 then
        on_can n (on_frame (\<lambda>f. f\<lparr>fdata := take 4 (fdata f) @ [byte 0 val, byte 1 val, byte 2 val, byte 3 val]\<rparr>))
      else if offset = REG_TX_SEND then can_send n
      else if offset = REG_RX_POP then on_can n can_pop
      else if offset = REG_FILTER_ID then on_can n (\<lambda>c. c\<lparr>filter_id := ucast (val AND 0x7FF)\<rparr>)
      else if offset = REG_FILTER_MASK then on_can n (\<lambda>c. c\<lparr>filter_mask := ucast (val AND 0x7FF)\<rparr>)
      else id)"

section \<open>Invariant\<close>

text \<open>A frame of CAN 2.0A: an identifier of 11 bits, at most 8 bytes.\<close>

definition frame_ok :: "can_frame \<Rightarrow> bool" where
  "frame_ok f \<longleftrightarrow> unat (fid f) < 2048 \<and> unat (dlc f) \<le> 8 \<and> length (fdata f) = 8"

definition rx_frames :: "can \<Rightarrow> can_frame list" where
  "rx_frames c = ring_list RX_CAPACITY (rx_buf c)"

definition can_ok :: "can \<Rightarrow> bool" where
  "can_ok c \<longleftrightarrow> ring_inv RX_CAPACITY (rx_buf c)"

definition can_wf :: "can \<Rightarrow> bool" where
  "can_wf c \<longleftrightarrow> can_ok c \<and> frame_ok (tx_frame c) \<and> (\<forall>f \<in> set (rx_frames c). frame_ok f) \<and>
     (bit (can_sr c) 1 \<longleftrightarrow> rx_frames c \<noteq> []) \<and> unat (can_sr c) < 8 \<and>
     unat (filter_id c) < 2048 \<and> unat (filter_mask c) < 2048"

definition net_ok :: "can_net \<Rightarrow> bool" where
  "net_ok w \<longleftrightarrow> distinct (nodes w) \<and> length (nodes w) \<le> MAX_NODES \<and> (\<forall>n. can_wf (can_of w n))"

interpretation can_rx: ring_field rx_buf "\<lambda>b c. c\<lparr>rx_buf := b\<rparr>" can_ok RX_CAPACITY
  rewrites "field_push rx_buf (\<lambda>b c. c\<lparr>rx_buf := b\<rparr>) RX_CAPACITY = can_push"
    and "\<And>c. ring_list RX_CAPACITY (rx_buf c) = rx_frames c"
  by unfold_locales (simp_all add: can_ok_def fun_eq_iff field_push_def can_push_def rx_frames_def)

lemma rx_count: "count (rx_buf c) = length (rx_frames c)"
  by (simp add: rx_frames_def)

lemma can_push_rest: "can_push f c = (r, d) \<Longrightarrow> tx_frame d = tx_frame c \<and> can_sr d = can_sr c \<and>
   on_bus d = on_bus c \<and> filter_id d = filter_id c \<and> filter_mask d = filter_mask c"
  by (auto simp: can_push_def split: prod.splits)

text \<open>What an injected frame does to a node, by the filter and the room in its buffer.\<close>

lemma inject_cases:
  assumes "can_ok c"
  shows "\<not> passes_filter (fid f) c \<Longrightarrow> inject f c = (False, c)"
    and "passes_filter (fid f) c \<Longrightarrow> length (rx_frames c) < RX_CAPACITY \<Longrightarrow>
      \<exists>d. inject f c = (True, d) \<and> can_ok d \<and> rx_frames d = rx_frames c @ [f] \<and>
        can_sr d = can_sr c OR CAN_SR_RX_READY \<and> tx_frame d = tx_frame c \<and> on_bus d = on_bus c \<and>
        filter_id d = filter_id c \<and> filter_mask d = filter_mask c"
    and "passes_filter (fid f) c \<Longrightarrow> \<not> length (rx_frames c) < RX_CAPACITY \<Longrightarrow>
      inject f c = (False, c\<lparr>can_sr := can_sr c OR SR_RX_OVERFLOW\<rparr>)"
proof -
  show "passes_filter (fid f) c \<Longrightarrow> length (rx_frames c) < RX_CAPACITY \<Longrightarrow>
      \<exists>d. inject f c = (True, d) \<and> can_ok d \<and> rx_frames d = rx_frames c @ [f] \<and>
        can_sr d = can_sr c OR CAN_SR_RX_READY \<and> tx_frame d = tx_frame c \<and> on_bus d = on_bus c \<and>
        filter_id d = filter_id c \<and> filter_mask d = filter_mask c"
    using can_rx.push_room [OF assms, of f] can_push_rest [of f c]
    by (auto simp: inject_def can_ok_def rx_frames_def)
  show "passes_filter (fid f) c \<Longrightarrow> \<not> length (rx_frames c) < RX_CAPACITY \<Longrightarrow>
      inject f c = (False, c\<lparr>can_sr := can_sr c OR SR_RX_OVERFLOW\<rparr>)"
    using can_rx.push_full [OF assms, of f] can_rx.bound [OF assms] by (simp add: inject_def)
qed (simp add: inject_def)

lemma unat_or_less: "unat v < 2 ^ k \<Longrightarrow> unat w < 2 ^ k \<Longrightarrow> unat (v OR w) < 2 ^ k" for v w :: "'a::len word"
proof -
  assume "unat v < 2 ^ k" "unat w < 2 ^ k"
  then have "take_bit k (unat v OR unat w) = unat v OR unat w"
    by (simp add: take_bit_nat_eq_self)
  then show ?thesis using take_bit_nat_less_exp [of k "unat v OR unat w"] by (simp add: unsigned_or_eq)
qed

lemma status_bits:
  "unat (v OR CAN_SR_RX_READY) < 8" "unat (v OR SR_RX_OVERFLOW) < 8" "unat (v OR SR_TX_OK) < 8"
  "unat (v AND m) < 8"
  if "unat v < 8" for v m :: u32
  using that unat_or_less [of v 3 CAN_SR_RX_READY] unat_or_less [of v 3 SR_RX_OVERFLOW]
    unat_or_less [of v 3 SR_TX_OK] word_and_le2 [of v m]
  by (simp_all add: can_bits word_le_nat_alt)

lemma bit_at: "bit (push_bit k (1 :: u32)) n \<longleftrightarrow> n = k \<and> k < 32"
  by (auto simp: bit_simps)

lemma flag_bit:
  "bit SR_TX_OK n \<longleftrightarrow> n = 0" "bit CAN_SR_RX_READY n \<longleftrightarrow> n = 1" "bit SR_RX_OVERFLOW n \<longleftrightarrow> n = 2"
  unfolding can_bits bit_at by simp_all

lemma status_bit_simps [simp]:
  "bit (v OR CAN_SR_RX_READY) n \<longleftrightarrow> n = 1 \<or> bit v n" "bit (v OR SR_RX_OVERFLOW) n \<longleftrightarrow> n = 2 \<or> bit v n"
  "bit (v OR SR_TX_OK) n \<longleftrightarrow> n = 0 \<or> bit v n" "bit (v AND NOT SR_TX_OK) n \<longleftrightarrow> n \<noteq> 0 \<and> bit v n"
  "bit (v AND NOT CAN_SR_RX_READY) n \<longleftrightarrow> n \<noteq> 1 \<and> bit v n"
  by (auto simp: bit_or_iff bit_and_iff bit_not_iff flag_bit dest: bit_imp_le_length)

lemma new_can_wf: "can_wf (new_can b)"
  by (simp add: can_wf_def new_can_def can_ok_def rx_frames_def ring_empty_inv ring_empty_list
      frame_ok_def new_frame_def RX_CAPACITY_def)

lemma inject_wf [inv_intros]: "can_wf c \<Longrightarrow> frame_ok f \<Longrightarrow> can_wf (snd (inject f c))"
proof -
  assume wf: "can_wf c" and f: "frame_ok f"
  have ok: "can_ok c" using wf by (simp add: can_wf_def)
  show ?thesis
  proof (cases "passes_filter (fid f) c")
    case True
    show ?thesis
    proof (cases "length (rx_frames c) < RX_CAPACITY")
      case room: True
      then show ?thesis
        using inject_cases(2) [OF ok True] wf f
        by (auto simp: can_wf_def status_bits)
    next
      case False
      then show ?thesis
        using inject_cases(3) [OF ok True] wf
        by (auto simp: can_wf_def status_bits can_ok_def rx_frames_def)
    qed
  qed (use inject_cases(1) [OF ok] wf in simp)
qed

section \<open>The network as inboxes\<close>

text \<open>
  The specification: a set of members, and for each node its staged frame, its inbox of at most
  32 frames, its filter, and whether it has sent, or lost, a frame. A frame that is sent reaches
  every other member whose filter accepts it.
\<close>

record can_node =
  staged :: can_frame
  inbox :: "can_frame list"
  sent :: bool
  lost :: bool
  acc_id :: u16
  acc_mask :: u16
  linked :: bool

record can_spec =
  members :: "nat set"
  node :: "nat \<Rightarrow> can_node"

definition view_node :: "can \<Rightarrow> can_node" where
  "view_node c = \<lparr>staged = tx_frame c, inbox = rx_frames c, sent = bit (can_sr c) 0,
     lost = bit (can_sr c) 2, acc_id = filter_id c, acc_mask = filter_mask c, linked = on_bus c\<rparr>"

definition view_net :: "can_net \<Rightarrow> can_spec" where
  "view_net w = \<lparr>members = set (nodes w), node = (\<lambda>n. view_node (can_of w n))\<rparr>"

definition accepts :: "can_frame \<Rightarrow> can_node \<Rightarrow> bool" where
  "accepts f nd \<longleftrightarrow> fid f AND acc_mask nd = acc_id nd AND acc_mask nd"

definition receive :: "can_frame \<Rightarrow> can_node \<Rightarrow> can_node" where
  "receive f nd =
     (if \<not> accepts f nd then nd
      else if length (inbox nd) < RX_CAPACITY then nd\<lparr>inbox := inbox nd @ [f]\<rparr>
      else nd\<lparr>lost := True\<rparr>)"

definition spec_send :: "nat \<Rightarrow> can_spec \<Rightarrow> can_spec" where
  "spec_send n w =
     w\<lparr>node := (\<lambda>m. if m = n then (node w n)\<lparr>sent := True\<rparr>
                    else if linked (node w n) \<and> m \<in> members w then receive (staged (node w n)) (node w m)
                    else node w m)\<rparr>"

definition spec_write :: "u32 \<Rightarrow> u32 \<Rightarrow> can_node \<Rightarrow> can_node" where
  "spec_write off v nd =
     (let f = staged nd; bytes = [byte 0 v, byte 1 v, byte 2 v, byte 3 v] in
      if off = REG_TX_ID then nd\<lparr>staged := f\<lparr>fid := ucast (v AND 0x7FF)\<rparr>\<rparr>
      else if off = REG_TX_DLC then nd\<lparr>staged := f\<lparr>dlc := min 8 (ucast (v AND 0xF))\<rparr>\<rparr>
      else if off = REG_TX_D0 then nd\<lparr>staged := f\<lparr>fdata := bytes @ drop 4 (fdata f)\<rparr>\<rparr>
      else if off = REG_TX_D1 then nd\<lparr>staged := f\<lparr>fdata := take 4 (fdata f) @ bytes\<rparr>\<rparr>
      else if off = REG_RX_POP then nd\<lparr>inbox := tl (inbox nd)\<rparr>
      else if off = REG_FILTER_ID then nd\<lparr>acc_id := ucast (v AND 0x7FF)\<rparr>
      else if off = REG_FILTER_MASK then nd\<lparr>acc_mask := ucast (v AND 0x7FF)\<rparr>
      else nd)"

definition spec_read :: "u32 \<Rightarrow> can_node \<Rightarrow> u32" where
  "spec_read off nd =
     (let first = (\<lambda>g. case inbox nd of [] \<Rightarrow> 0 | f # fs \<Rightarrow> g f) in
      if off = REG_TX_ID then ucast (fid (staged nd))
      else if off = REG_TX_DLC then ucast (dlc (staged nd))
      else if off = REG_TX_D0 then data_word 0 (staged nd)
      else if off = REG_TX_D1 then data_word 4 (staged nd)
      else if off = REG_RX_ID then first (\<lambda>f. ucast (fid f))
      else if off = REG_RX_DLC then first (\<lambda>f. ucast (dlc f))
      else if off = REG_RX_D0 then first (data_word 0)
      else if off = REG_RX_D1 then first (data_word 4)
      else if off = CAN_REG_SR then
        (if sent nd then SR_TX_OK else 0) OR (if inbox nd \<noteq> [] then CAN_SR_RX_READY else 0) OR
        (if lost nd then SR_RX_OVERFLOW else 0)
      else if off = REG_FILTER_ID then ucast (acc_id nd)
      else if off = REG_FILTER_MASK then ucast (acc_mask nd)
      else 0)"

text \<open>
  What happens to a network: nodes are constructed and destroyed, and their registers written and
  read. A node is constructed only while it is not attached, as an object is.
\<close>

datatype can_event = Create nat bool | Destroy nat | Write nat u32 u32 | Read nat u32

definition can_event :: "can_event \<Rightarrow> can_net \<Rightarrow> u32 option \<times> can_net" where
  "can_event e w =
     (case e of
        Create n b \<Rightarrow> (None, if n \<in> set (nodes w) then w else can_create n b w)
      | Destroy n \<Rightarrow> (None, can_destroy n w)
      | Write n off v \<Rightarrow> (None, can_write_reg n off v w)
      | Read n off \<Rightarrow> (Some (can_read_reg off (can_of w n)), w))"

definition can_spec_event :: "can_event \<Rightarrow> can_spec \<Rightarrow> u32 option \<times> can_spec" where
  "can_spec_event e w =
     (case e of
        Create n b \<Rightarrow> (None, if n \<in> members w then w
          else w\<lparr>members := (if b \<and> card (members w) < MAX_NODES then insert n (members w) else members w),
                 node := (node w)(n := view_node (new_can b))\<rparr>)
      | Destroy n \<Rightarrow> (None, if linked (node w n) then w\<lparr>members := members w - {n}\<rparr> else w)
      | Write n off v \<Rightarrow> (None, if off = REG_TX_SEND then spec_send n w
                                else w\<lparr>node := (node w)(n := spec_write off v (node w n))\<rparr>)
      | Read n off \<Rightarrow> (Some (spec_read off (node w n)), w))"

primrec can_run :: "can_event list \<Rightarrow> can_net \<Rightarrow> u32 option list \<times> can_net" where
  "can_run [] w = ([], w)"
| "can_run (e # es) w = (let (a, v) = can_event e w; (as, u) = can_run es v in (a # as, u))"

primrec can_spec_run :: "can_event list \<Rightarrow> can_spec \<Rightarrow> u32 option list \<times> can_spec" where
  "can_spec_run [] w = ([], w)"
| "can_spec_run (e # es) w = (let (a, v) = can_spec_event e w; (as, u) = can_spec_run es v in (a # as, u))"

section \<open>Simulation\<close>

lemma deliver_all:
  "distinct ns \<Longrightarrow> fold (deliver f s) ns (b, dev) =
     (b \<or> (\<exists>n \<in> set ns. n \<noteq> s \<and> fst (inject f (dev n))),
      \<lambda>n. if n \<in> set ns \<and> n \<noteq> s then snd (inject f (dev n)) else dev n)"
proof (induction ns arbitrary: b dev)
  case (Cons n ns)
  then show ?case by (auto simp: deliver_def split_def Let_def fun_eq_iff)
qed simp

lemma inject_view:
  "can_ok c \<Longrightarrow> view_node (snd (inject f c)) = receive f (view_node c)"
  using inject_cases [of c f]
  by (cases "passes_filter (fid f) c"; cases "length (rx_frames c) < RX_CAPACITY")
    (auto simp: view_node_def receive_def accepts_def passes_filter_def rx_frames_def)

lemma detach_from_set: "distinct ns \<Longrightarrow> set (detach_from n ns) = set ns - {n} \<and> distinct (detach_from n ns) \<and>
   length (detach_from n ns) \<le> length ns"
proof (induction ns)
  case (Cons m ms)
  show ?case
  proof (cases "m = n \<and> ms \<noteq> []")
    case True
    define x ys where "x = last ms" "ys = butlast ms"
    have ms: "ms = ys @ [x]" using True by (simp add: x_ys_def)
    have "detach_from n (m # ms) = x # ys" using True by (simp add: ms)
    then show ?thesis using True Cons.prems by (auto simp: ms)
  next
    case False
    then show ?thesis using Cons by auto
  qed
qed simp

lemma on_can_view:
  "view_node (g (can_of w n)) = h (view_node (can_of w n)) \<Longrightarrow>
   view_net (on_can n g w) = (view_net w)\<lparr>node := (node (view_net w))(n := h (node (view_net w) n))\<rparr>"
  by (auto simp: view_net_def on_can_def)

lemma on_can_ok: "net_ok w \<Longrightarrow> can_wf (g (can_of w n)) \<Longrightarrow> net_ok (on_can n g w)"
  by (simp add: net_ok_def on_can_def)

lemma small_fields: "unat (ucast (v AND 0x7FF) :: u16) < 2048" for v :: u32
proof -
  have "(0x7FF :: u32) = mask 11" by (simp add: mask_eq_exp_minus_1)
  then have "(ucast (v AND 0x7FF) :: u16) = take_bit 11 (ucast v)"
    by (simp only: \<open>0x7FF = mask 11\<close>) (rule bit_word_eqI, auto simp: bit_simps)
  then show ?thesis using take_bit_nat_less_exp [of 11 "unat (ucast v :: u16)"]
    by (simp add: unsigned_take_bit_eq)
qed

lemma on_frame_wf: "can_wf c \<Longrightarrow> (\<And>f. frame_ok f \<Longrightarrow> frame_ok (g f)) \<Longrightarrow> can_wf (on_frame g c)"
  by (simp add: can_wf_def on_frame_def can_ok_def rx_frames_def)

lemma pop_frames:
  assumes "can_ok c" "rx_frames c = f # fs"
  shows "\<exists>b. snd (ring_pop RX_CAPACITY (rx_buf c)) = b \<and> can_ok (c\<lparr>rx_buf := b\<rparr>) \<and> rx_frames (c\<lparr>rx_buf := b\<rparr>) = fs"
  using can_rx.pop_first [OF assms] by (auto simp: field_pop_def split_def Let_def)

lemma can_pop_view:
  assumes "can_wf c"
  shows "view_node (can_pop c) = (view_node c)\<lparr>inbox := tl (inbox (view_node c))\<rparr> \<and> can_wf (can_pop c)"
proof (cases "rx_frames c")
  case Nil
  then show ?thesis using assms by (simp add: can_pop_def rx_count view_node_def)
next
  case (Cons f fs)
  have ok: "can_ok c" using assms by (simp add: can_wf_def)
  let ?b = "snd (ring_pop RX_CAPACITY (rx_buf c))"
  have b: "can_ok (c\<lparr>rx_buf := ?b\<rparr>)" "rx_frames (c\<lparr>rx_buf := ?b\<rparr>) = fs"
    using pop_frames [OF ok Cons] by simp_all
  have n: "count (rx_buf c) = Suc (length fs)" "count ?b = length fs"
    using b(2) rx_count [of c] rx_count [of "c\<lparr>rx_buf := ?b\<rparr>"] Cons by simp_all
  have fr: "rx_frames (c\<lparr>rx_buf := ?b, can_sr := v\<rparr>) = fs" for v
    using b(2) by (simp add: rx_frames_def)
  have "can_ok (c\<lparr>rx_buf := ?b, can_sr := v\<rparr>)" for v using b(1) by (simp add: can_ok_def)
  then show ?thesis
    using assms Cons b n fr by (auto simp: can_pop_def can_wf_def view_node_def status_bits Let_def)
qed

lemma send_view:
  assumes "net_ok w"
  shows "view_net (can_send n w) = spec_send n (view_net w)" and "net_ok (can_send n w)"
proof -
  define v where "v = on_can n (\<lambda>c. c\<lparr>can_sr := can_sr c AND NOT SR_TX_OK\<rparr>) w"
  have v_wf: "can_wf (can_of v m)" for m
    using assms unfolding v_def on_can_def net_ok_def
    by (auto simp: can_wf_def can_ok_def rx_frames_def status_bits)
  have v: "nodes v = nodes w" "m \<noteq> n \<Longrightarrow> can_of v m = can_of w m"
    "tx_frame (can_of v n) = tx_frame (can_of w n)" "on_bus (can_of v n) = on_bus (can_of w n)"
    "view_node (can_of v n) = (view_node (can_of w n))\<lparr>sent := False\<rparr>" for m
    by (simp_all add: v_def on_can_def view_node_def rx_frames_def)
  let ?f = "tx_frame (can_of v n)"
  define u where "u = (if on_bus (can_of v n) then snd (broadcast ?f n v) else v)"
  have d: "distinct (nodes v)" using assms v(1) by (simp add: net_ok_def)
  have u: "nodes u = nodes v" "can_of u = (\<lambda>m. if on_bus (can_of v n) \<and> m \<in> set (nodes v) \<and> m \<noteq> n
      then snd (inject ?f (can_of v m)) else can_of v m)"
    by (auto simp: u_def broadcast_def deliver_all [OF d])
  have s: "can_send n w = on_can n (\<lambda>c. c\<lparr>can_sr := can_sr c OR SR_TX_OK\<rparr>) u"
    by (simp add: can_send_def u_def v_def Let_def)
  have f: "frame_ok ?f" using v_wf [of n] by (simp add: can_wf_def)
  have ok: "can_ok (can_of v m)" for m using v_wf [of m] by (simp add: can_wf_def)
  have sent: "view_node (c\<lparr>can_sr := can_sr c OR SR_TX_OK\<rparr>) = (view_node c)\<lparr>sent := True\<rparr>" for c
    by (simp add: view_node_def rx_frames_def)
  have other: "view_node (can_of u m) = (if on_bus (can_of w n) \<and> m \<in> set (nodes w)
      then receive (tx_frame (can_of w n)) (view_node (can_of w m)) else view_node (can_of w m))" if "m \<noteq> n" for m
    using v(1-4) that ok [of m] by (simp add: u inject_view)
  have self: "can_of u n = can_of v n" by (simp add: u)
  show "view_net (can_send n w) = spec_send n (view_net w)"
    unfolding s view_net_def spec_send_def on_can_def
    by (auto simp: fun_eq_iff u(1) v(1) sent other self v(5)) (simp_all add: view_node_def)
  have "can_wf (can_of u m)" for m unfolding u using v_wf inject_wf [OF v_wf f] by simp
  moreover from this [of n] have "can_wf ((can_of u n)\<lparr>can_sr := can_sr (can_of u n) OR SR_TX_OK\<rparr>)"
    by (simp add: can_wf_def status_bits can_ok_def rx_frames_def)
  ultimately show "net_ok (can_send n w)"
    using assms u(1) v(1) unfolding s by (simp add: net_ok_def on_can_def)
qed

lemma frame_writes [inv_intros]:
  "frame_ok f \<Longrightarrow> frame_ok (f\<lparr>fid := ucast (v AND 0x7FF)\<rparr>)"
  "frame_ok f \<Longrightarrow> frame_ok (let f = f\<lparr>dlc := d\<rparr> in if dlc f > 8 then f\<lparr>dlc := 8\<rparr> else f)"
  "frame_ok f \<Longrightarrow> frame_ok (f\<lparr>fdata := [a, b, c, e] @ drop 4 (fdata f)\<rparr>)"
  "frame_ok f \<Longrightarrow> frame_ok (f\<lparr>fdata := take 4 (fdata f) @ [a, b, c, e]\<rparr>)"
  for v :: u32
  using small_fields [of v] by (simp_all add: frame_ok_def Let_def not_less word_le_nat_alt)

lemma filter_writes:
  "can_wf c \<Longrightarrow> can_wf (c\<lparr>filter_id := ucast (v AND 0x7FF)\<rparr>)"
  "can_wf c \<Longrightarrow> can_wf (c\<lparr>filter_mask := ucast (v AND 0x7FF)\<rparr>)"
  for v :: u32
  using small_fields [of v] by (simp_all add: can_wf_def can_ok_def rx_frames_def)

lemma on_frame_view: "view_node (on_frame g c) = (view_node c)\<lparr>staged := g (staged (view_node c))\<rparr>"
  by (simp add: view_node_def on_frame_def rx_frames_def)

text \<open>Register writes other than TX_SEND touch one node.\<close>

lemma write_view:
  assumes ok: "net_ok w" and off: "off \<noteq> REG_TX_SEND"
  shows "view_net (can_write_reg n off v w) =
      (view_net w)\<lparr>node := (node (view_net w))(n := spec_write off v (node (view_net w) n))\<rparr> \<and>
    net_ok (can_write_reg n off v w)"
proof -
  have wf: "can_wf (can_of w n)" using ok by (simp add: net_ok_def)
  have "\<exists>g. can_write_reg n off v w = on_can n g w \<and> can_wf (g (can_of w n)) \<and>
      view_node (g (can_of w n)) = spec_write off v (view_node (can_of w n))"
  proof -
    have m: "(let f = f\<lparr>dlc := d\<rparr> in if dlc f > 8 then f\<lparr>dlc := 8\<rparr> else f) = f\<lparr>dlc := min 8 d\<rparr>" for f :: can_frame and d
      by (simp add: Let_def min_def not_less)
    have d: "can_write_reg n off v w = on_can n
       (if off = REG_TX_ID then on_frame (\<lambda>f. f\<lparr>fid := ucast (v AND 0x7FF)\<rparr>)
        else if off = REG_TX_DLC then
          on_frame (\<lambda>f. let f = f\<lparr>dlc := ucast (v AND 0xF)\<rparr> in if dlc f > 8 then f\<lparr>dlc := 8\<rparr> else f)
        else if off = REG_TX_D0 then
          on_frame (\<lambda>f. f\<lparr>fdata := [byte 0 v, byte 1 v, byte 2 v, byte 3 v] @ drop 4 (fdata f)\<rparr>)
        else if off = REG_TX_D1 then
          on_frame (\<lambda>f. f\<lparr>fdata := take 4 (fdata f) @ [byte 0 v, byte 1 v, byte 2 v, byte 3 v]\<rparr>)
        else if off = REG_RX_POP then can_pop
        else if off = REG_FILTER_ID then (\<lambda>c. c\<lparr>filter_id := ucast (v AND 0x7FF)\<rparr>)
        else if off = REG_FILTER_MASK then (\<lambda>c. c\<lparr>filter_mask := ucast (v AND 0x7FF)\<rparr>)
        else id) w"
      using off by (simp add: can_write_reg_def) (simp add: on_can_def)
    have "can_wf (on_frame g (can_of w n))" if "\<And>f. frame_ok f \<Longrightarrow> frame_ok (g f)" for g
      by (rule on_frame_wf [OF wf that])
    note wf_rules = this [OF frame_writes(1)] this [OF frame_writes(2)] this [OF frame_writes(3)]
      this [OF frame_writes(4)] filter_writes [OF wf] conjunct2 [OF can_pop_view [OF wf]]
    have v: "view_node (c\<lparr>filter_id := x\<rparr>) = (view_node c)\<lparr>acc_id := x\<rparr>"
      "view_node (c\<lparr>filter_mask := x\<rparr>) = (view_node c)\<lparr>acc_mask := x\<rparr>" for c x
      by (simp_all add: view_node_def rx_frames_def)
    show ?thesis
      unfolding d
      by (intro exI conjI, rule refl)
        (use wf wf_rules in \<open>simp add: if_split del: One_nat_def\<close>,
         simp add: spec_write_def on_frame_view m v conjunct1 [OF can_pop_view [OF wf]] Let_def)
  qed
  then obtain g where g: "can_write_reg n off v w = on_can n g w" "can_wf (g (can_of w n))"
    "view_node (g (can_of w n)) = spec_write off v (view_node (can_of w n))" by blast
  show ?thesis
    unfolding g(1) using on_can_view [of g w n "spec_write off v", OF g(3)] on_can_ok [of w g n, OF ok g(2)]
    by simp
qed

text \<open>The register reads, from the view.\<close>

lemma status_value:
  assumes "unat v < 8"
  shows "v = (if bit v 0 then SR_TX_OK else 0) OR (if bit v 1 then CAN_SR_RX_READY else 0) OR
     (if bit v 2 then SR_RX_OVERFLOW else 0)"
proof (rule bit_word_eqI)
  fix n
  have t: "take_bit 3 v = v" using assms
    by (simp add: word_unat_eq_iff unsigned_take_bit_eq take_bit_nat_eq_self)
  have "bit v n \<Longrightarrow> n < 3" using bit_take_bit_iff [of 3 v n] t by simp
  then have "bit v n \<longleftrightarrow> (bit v 0 \<and> n = 0) \<or> (bit v 1 \<and> n = 1) \<or> (bit v 2 \<and> n = 2)"
    by (auto simp: less_Suc_eq numeral_eq_Suc)
  then show "bit v n = bit ((if bit v 0 then SR_TX_OK else 0) OR (if bit v 1 then CAN_SR_RX_READY else 0) OR
     (if bit v 2 then SR_RX_OVERFLOW else 0)) n"
    by (auto simp: bit_or_iff flag_bit)
qed

lemma read_view:
  assumes "can_wf c"
  shows "can_read_reg off c = spec_read off (view_node c)"
proof -
  have sr: "can_sr c = (if bit (can_sr c) 0 then SR_TX_OK else 0) OR
      (if rx_frames c \<noteq> [] then CAN_SR_RX_READY else 0) OR (if bit (can_sr c) 2 then SR_RX_OVERFLOW else 0)"
    using status_value [of "can_sr c"] assms by (simp add: can_wf_def)
  have h: "rx_frames c = f # fs \<Longrightarrow> buf (rx_buf c) ! head (rx_buf c) = f \<and> count (rx_buf c) \<noteq> 0" for f fs
  proof -
    assume c: "rx_frames c = f # fs"
    have "can_ok c" using assms by (simp add: can_wf_def)
    then have "\<exists>t. ring_pop RX_CAPACITY (rx_buf c) = (Some f, t)"
      using ring.pop_first [of RX_CAPACITY "rx_buf c" f fs] c by (auto simp: can_ok_def rx_frames_def)
    then show ?thesis by (auto simp: ring_pop_def split: if_splits)
  qed
  show ?thesis
  proof (cases "off = CAN_REG_SR")
    case True
    then show ?thesis using sr
      by (simp add: can_read_reg_def spec_read_def view_node_def can_regs Let_def)
  next
    case False
    then show ?thesis
    proof (cases "rx_frames c")
      case Nil
      then have "count (rx_buf c) = 0" by (simp add: rx_count)
      then show ?thesis using False Nil by (simp add: can_read_reg_def spec_read_def view_node_def)
    next
      case (Cons f fs)
      then show ?thesis using False h [OF Cons] by (simp add: can_read_reg_def spec_read_def view_node_def)
    qed
  qed
qed

lemma event_view:
  assumes ok: "net_ok w"
  shows "can_spec_event e (view_net w) = apsnd view_net (can_event e w) \<and> net_ok (snd (can_event e w))"
proof (cases e)
  case (Create n b)
  then show ?thesis
    using ok new_can_wf
    by (auto simp: can_spec_event_def can_event_def can_create_def can_attach_def view_net_def net_ok_def
        distinct_card Let_def fun_eq_iff)
next
  case (Destroy n)
  then show ?thesis
    using ok detach_from_set [of "nodes w" n]
    by (auto simp: can_spec_event_def can_event_def can_destroy_def can_detach_def view_net_def net_ok_def
        view_node_def)
next
  case (Write n off v)
  then show ?thesis
    using write_view [OF ok, of off n v] send_view [OF ok, of n]
    by (cases "off = REG_TX_SEND") (simp_all add: can_spec_event_def can_event_def can_write_reg_def can_regs)
next
  case (Read n off)
  then show ?thesis
    using ok by (simp add: can_spec_event_def can_event_def read_view view_net_def net_ok_def)
qed

lemma run_view:
  "net_ok w \<Longrightarrow> can_spec_run es (view_net w) = apsnd view_net (can_run es w) \<and> net_ok (snd (can_run es w))"
proof (induction es arbitrary: w)
  case (Cons e es)
  then show ?case using event_view [of w e] by (simp add: split_def Let_def apsnd_def map_prod_def)
qed simp

definition empty_net :: can_net where
  "empty_net = \<lparr>nodes = [], can_of = (\<lambda>_. new_can False)\<rparr>"

lemma empty_net_ok: "net_ok empty_net"
  by (simp add: net_ok_def empty_net_def new_can_wf)

section \<open>Properties\<close>

text \<open>C3. The network implements its specification: whatever nodes are constructed and destroyed and
  whatever registers are written and read, the values read are those of a network in which each
  node has an inbox of at most 32 frames, and a frame that is sent is appended to the inbox of
  every other member whose filter accepts it and has room.\<close>

theorem can_network_refines:
  assumes "net_ok w"
  shows "can_spec_run es (view_net w) = apsnd view_net (can_run es w)"
  using run_view [OF assms] by blast

theorem can_network_refines_witness:
  "fst (can_run [Create 0 True, Create 1 True, Write 0 REG_TX_ID 0x123, Write 0 REG_TX_SEND 0, Read 1 REG_RX_ID] empty_net) =
   [None, None, None, None, Some 0x123]"
proof -
  let ?es = "[Create 0 True, Create 1 True, Write 0 REG_TX_ID 0x123, Write 0 REG_TX_SEND 0, Read 1 REG_RX_ID]"
  have "fst (can_spec_run ?es (view_net empty_net)) = [None, None, None, None, Some 0x123]"
    by (simp add: can_spec_event_def view_net_def empty_net_def spec_send_def spec_write_def spec_read_def
        view_node_def new_can_def receive_def accepts_def rx_frames_def ring_empty_list can_regs
        MAX_NODES_def RX_CAPACITY_def new_frame_def Let_def)
  then show ?thesis using can_network_refines [OF empty_net_ok, of ?es] by simp
qed

text \<open>Every frame in the network is a CAN 2.0A frame, with an identifier of 11 bits, at most 8
  bytes and a data field of 8: those staged for sending and those received, after any sequence
  of events; and RX_READY in SR says exactly that the receive buffer is not empty.\<close>

theorem can_frames_well_formed:
  "case can_run es empty_net of (as, w) \<Rightarrow>
     frame_ok (tx_frame (can_of w n)) \<and> list_all frame_ok (rx_frames (can_of w n)) \<and>
     (bit (can_sr (can_of w n)) 1 \<longleftrightarrow> rx_frames (can_of w n) \<noteq> []) \<and> length (nodes w) \<le> 8"
  using run_view [OF empty_net_ok, of es]
  by (auto simp: net_ok_def can_wf_def list_all_iff MAX_NODES_def split: prod.splits)

text \<open>The receiver as the programs ask for it; the status register says the same.\<close>

definition can_rx_ready :: "can \<Rightarrow> bool" where
  "can_rx_ready c = (count (rx_buf c) > 0)"

definition can_rx_count :: "can \<Rightarrow> nat" where
  "can_rx_count c = count (rx_buf c)"

lemma rx_ready_status:
  "net_ok w \<Longrightarrow> can_rx_ready (can_of w n) \<longleftrightarrow> bit (can_sr (can_of w n)) 1"
  "can_rx_count c = length (rx_frames c)"
  by (auto simp: can_rx_ready_def can_rx_count_def net_ok_def can_wf_def rx_frames_def ring_list_def)

text \<open>TX_OK does not say that anyone received the frame: it is set when the node is the only one
  on the bus, or on none. RX_OVERFLOW, once set, is never cleared by a register access.\<close>

theorem can_status_flags:
  "bit (can_sr (can_of (can_write_reg n REG_TX_SEND v \<lparr>nodes = ns, can_of = cs\<rparr>) n)) 0 \<and>
   (bit (can_sr (can_of w m)) 2 \<longrightarrow> net_ok w \<longrightarrow> bit (can_sr (can_of (can_write_reg n off v w) m)) 2)"
proof (intro conjI impI)
  show "bit (can_sr (can_of (can_write_reg n REG_TX_SEND v \<lparr>nodes = ns, can_of = cs\<rparr>) n)) 0"
    by (simp add: can_write_reg_def can_regs can_send_def on_can_def Let_def)
  assume b: "bit (can_sr (can_of w m)) 2" and ok: "net_ok w"
  have l: "lost (node (view_net u) m) = bit (can_sr (can_of u m)) 2" for u
    by (simp add: view_net_def view_node_def)
  have "lost (node (view_net (can_write_reg n off v w)) m)"
  proof (cases "off = REG_TX_SEND")
    case True
    then show ?thesis
      using b send_view(1) [OF ok, of n] l [of w]
      by (auto simp: can_write_reg_def can_regs spec_send_def receive_def)
  next
    case False
    have "lost (spec_write off v nd) = lost nd" for nd by (simp add: spec_write_def Let_def)
    then show ?thesis using b write_view [OF ok False, of n v] l [of w] by auto
  qed
  then show "bit (can_sr (can_of (can_write_reg n off v w) m)) 2" by (simp only: l)
qed

theorem can_status_flags_witness:
  "bit (can_sr (can_of (can_write_reg 0 REG_RX_POP 0
     (can_write_reg 0 REG_TX_SEND 0 \<lparr>nodes = [], can_of = (\<lambda>_. (new_can True)\<lparr>can_sr := 4\<rparr>)\<rparr>)) 0)) 2"
proof -
  let ?c = "(new_can True)\<lparr>can_sr := 4\<rparr>"
  let ?w = "\<lparr>nodes = [], can_of = (\<lambda>_. ?c)\<rparr> :: can_net"
  have "can_wf ?c" using new_can_wf [of True]
    by (simp add: can_wf_def can_ok_def rx_frames_def new_can_def ring_empty_list)
  then have ok: "net_ok ?w" by (simp add: net_ok_def)
  have "bit (can_sr (can_of (can_write_reg 0 REG_TX_SEND 0 ?w) 0)) 2"
    using can_status_flags [where w = ?w and m = 0 and n = 0 and off = REG_TX_SEND and v = 0] ok by simp
  moreover have "net_ok (can_write_reg 0 REG_TX_SEND 0 ?w)"
    using send_view(2) [OF ok, of 0] by (simp add: can_write_reg_def can_regs)
  ultimately show ?thesis
    using can_status_flags [where w = "can_write_reg 0 REG_TX_SEND 0 ?w" and m = 0 and n = 0 and off = REG_RX_POP and v = 0]
    by blast
qed

end
