(* ===== verification/Board.thy ===== *)
theory Board
  imports Bus Spi I2c Uart Can
begin

text \<open>
  The peripherals of src/demo/sensor_demo.cpp on their bus: the virtual calls of \<open>IPeripheral\<close>, the
  wiring, and that whatever is read and written through the bus keeps the invariants of all
  peripherals.
\<close>

section \<open>The peripherals\<close>

text \<open>\<open>can0\<close> and \<open>can1\<close> are the nodes 0 and 1 of the network.\<close>

record devices =
  uart0 :: uart
  spi0 :: spi
  i2c0 :: i2c
  can_bus :: can_net

definition new_devices :: devices where
  "new_devices = \<lparr>uart0 = new_uart, spi0 = new_spi, i2c0 = new_i2c,
     can_bus = can_create 1 True (can_create 0 True empty_net)\<rparr>"

text \<open>The virtual calls of \<open>IPeripheral\<close>; a pointer is the position of the attachment in \<open>main\<close>.\<close>

definition device_read :: "nat \<Rightarrow> u32 \<Rightarrow> devices \<Rightarrow> u32 \<times> devices" where
  "device_read p offset d =
     (if p = 0 then (let (v, u) = uart_read_reg offset (uart0 d) in (v, d\<lparr>uart0 := u\<rparr>))
      else if p = 1 then (let (v, s) = spi_read_reg offset (spi0 d) in (v, d\<lparr>spi0 := s\<rparr>))
      else if p = 2 then (let (v, c) = i2c_read_reg offset (i2c0 d) in (v, d\<lparr>i2c0 := c\<rparr>))
      else if p = 3 then (can_read_reg offset (can_of (can_bus d) 0), d)
      else (can_read_reg offset (can_of (can_bus d) 1), d))"

definition device_write :: "nat \<Rightarrow> u32 \<Rightarrow> u32 \<Rightarrow> devices \<Rightarrow> devices" where
  "device_write p offset val d =
     (if p = 0 then d\<lparr>uart0 := uart_write_reg offset val (uart0 d)\<rparr>
      else if p = 1 then d\<lparr>spi0 := spi_write_reg offset val (spi0 d)\<rparr>
      else if p = 2 then d\<lparr>i2c0 := i2c_write_reg offset val (i2c0 d)\<rparr>
      else if p = 3 then d\<lparr>can_bus := can_write_reg 0 offset val (can_bus d)\<rparr>
      else d\<lparr>can_bus := can_write_reg 1 offset val (can_bus d)\<rparr>)"

definition periph_read :: "entry list \<Rightarrow> u32 \<Rightarrow> (devices, u32) act" where
  "periph_read = bus_read device_read"

definition periph_write :: "entry list \<Rightarrow> u32 \<Rightarrow> u32 \<Rightarrow> (devices, unit) act" where
  "periph_write = bus_write device_write"

definition wire_up :: "(entry list, unit) act" where
  "wire_up = for_each [(UART0_BASE, 0), (SPI0_BASE, 1), (I2C0_BASE, 2), (CAN0_BASE, 3), (CAN1_BASE, 4)]
     (\<lambda>(b, p) es. case attach b p REGION_SIZE es of Inl e \<Rightarrow> (Inl e, es) | Inr es \<Rightarrow> (Inr (), es))"

section \<open>The bus\<close>

definition wired :: "entry list" where
  "wired = map (\<lambda>(b, p). \<lparr>base = b, window = REGION_SIZE, periph = p\<rparr>)
     [(UART0_BASE, 0), (SPI0_BASE, 1), (I2C0_BASE, 2), (CAN0_BASE, 3), (CAN1_BASE, 4)]"

lemma wire_up_all: "wire_up [] = (Inr (), wired)"
  by (simp add: wire_up_def wired_def seq_act_def bind_act_def attach_def MAX_PERIPHERALS_def)

lemma wired_ok: "layout_ok wired"
  by (auto simp: layout_ok_def wired_def fits_def covers_def periph_map)

lemma wired_entries:
  "\<lparr>base = UART0_BASE, window = REGION_SIZE, periph = 0\<rparr> \<in> set wired"
  "\<lparr>base = I2C0_BASE, window = REGION_SIZE, periph = 2\<rparr> \<in> set wired"
  "\<lparr>base = CAN0_BASE, window = REGION_SIZE, periph = 3\<rparr> \<in> set wired"
  by (simp_all add: wired_def)

lemma wired_covers:
  "e \<in> set wired \<Longrightarrow> unat off < 0x1000 \<Longrightarrow> covers e (unat (base e + off))"
proof -
  assume e: "e \<in> set wired" and off: "unat off < 0x1000"
  have "window e = REGION_SIZE \<and> unat (base e) + 0x1000 < 2 ^ 32"
    using e by (auto simp: wired_def periph_map)
  then show ?thesis using off by (simp add: covers_def REGION_SIZE_def unat_word_ariths)
qed

lemma wired_access:
  assumes "e \<in> set wired" "unat off < 0x1000"
  shows "periph_write wired (base e + off) v d = (Inr (), device_write (periph e) off v d)"
    and "periph_read wired (base e + off) d =
      (case device_read (periph e) off d of (v, d) \<Rightarrow> (Inr v, d))"
  by (simp_all add: periph_write_def periph_read_def bus_hit [OF wired_ok assms(1) wired_covers [OF assms]])

text \<open>Each register of the peripherals is inside its window.\<close>

lemma reach_uart:
  "unat off < 0x1000 \<Longrightarrow> periph_write wired (UART0_BASE + off) v d =
     (Inr (), d\<lparr>uart0 := uart_write_reg off v (uart0 d)\<rparr>)"
  using wired_access(1) [OF wired_entries(1), of off v d] by (simp add: device_write_def)

lemma reach_i2c:
  "unat off < 0x1000 \<Longrightarrow> periph_write wired (I2C0_BASE + off) v d =
     (Inr (), d\<lparr>i2c0 := i2c_write_reg off v (i2c0 d)\<rparr>)"
  "unat off < 0x1000 \<Longrightarrow> periph_read wired (I2C0_BASE + off) d =
     (case i2c_read_reg off (i2c0 d) of (v, c) \<Rightarrow> (Inr v, d\<lparr>i2c0 := c\<rparr>))"
  using wired_access [OF wired_entries(2), of off]
  by (simp_all add: device_write_def device_read_def split: prod.splits)

lemma reach_can:
  "unat off < 0x1000 \<Longrightarrow> periph_write wired (CAN0_BASE + off) v d =
     (Inr (), d\<lparr>can_bus := can_write_reg 0 off v (can_bus d)\<rparr>)"
  "unat off < 0x1000 \<Longrightarrow> periph_read wired (CAN0_BASE + off) d =
     (Inr (can_read_reg off (can_of (can_bus d) 0)), d)"
  using wired_access [OF wired_entries(3), of off]
  by (simp_all add: device_write_def device_read_def)

section \<open>The invariants of the peripherals\<close>

lemma uart_write_ok: "uart_ok u \<Longrightarrow> uart_ok (uart_write_reg off v u)"
  using tx_push_queue [of u "ucast (v AND 0xFF)"] rx_push_queue [of u "ucast (v AND 0xFF)"] control_bits(2) [of v]
  by (auto simp: uart_write_reg_def uart_ok_def FIFO_SIZE_def Let_def unat_gt_0 Suc_le_eq)

lemma uart_read_ok: "uart_ok u \<Longrightarrow> uart_ok (snd (uart_read_reg off u))"
proof -
  assume ok: "uart_ok u"
  have "uart_ok (snd (rx_pop u))"
  proof (cases "rx_bytes u")
    case Nil
    then show ?thesis using rx.pop_empty [OF ok] ok by simp
  next
    case (Cons b bs)
    then show ?thesis using rx.pop_first [OF ok] by fastforce
  qed
  then show ?thesis using ok by (auto simp: uart_read_reg_def split: prod.splits option.splits)
qed

lemma can_write_ok: "net_ok w \<Longrightarrow> net_ok (can_write_reg n off v w)"
  using write_view [of w off n v] send_view(2) [of w n]
  by (cases "off = REG_TX_SEND") (simp_all add: can_write_reg_def can_regs)

definition devices_ok :: "devices \<Rightarrow> bool" where
  "devices_ok d \<longleftrightarrow> uart_ok (uart0 d) \<and> spi_ok (spi0 d) \<and> length (sensor (i2c0 d)) = 8 \<and> net_ok (can_bus d)"

interpretation board: peripherals device_read device_write devices_ok
proof
  fix w :: devices and p off v
  assume ok: "devices_ok w"
  show "devices_ok (snd (device_read p off w))"
    using ok uart_read_ok [of "uart0 w" off] spi_read_ok [of "spi0 w" off] read_reg_sensor [of off "i2c0 w"]
    by (simp add: devices_ok_def device_read_def split_def Let_def)
  show "devices_ok (device_write p off v w)"
    using ok uart_write_ok [of "uart0 w" off v] spi_write_ok [of "spi0 w" off v] write_reg_sensor [of off v "i2c0 w"]
      can_write_ok [of "can_bus w"]
    by (simp add: devices_ok_def device_write_def)
qed

lemma new_net_ok: "net_ok (can_bus new_devices)"
  using empty_net_ok new_can_wf
  by (simp add: net_ok_def new_devices_def can_create_def can_attach_def empty_net_def MAX_NODES_def)

lemma new_devices_ok: "devices_ok new_devices"
  using new_net_ok new_uart_ok new_spi_ok
  by (simp add: devices_ok_def new_devices_def new_i2c_def new_lm75_def)

section \<open>Properties\<close>

text \<open>C17. Whatever a program reads and writes through the peripheral bus of the demo, at whatever
  addresses, every peripheral stays well-formed: the FIFOs of the UART and the receive buffers of
  CAN keep their indices and counts inside their arrays, the burst buffers of SPI and the
  registers of the sensor keep their sizes, the flash is between two transactions whenever it is
  not selected, and every CAN frame has an identifier of 11 bits and at most 8 bytes. An access throws exactly when no peripheral is mapped at its address,
  and then it throws \<open>AddressError\<close> with this address.\<close>

theorem board_stays_well_formed:
  "case bus_accesses device_read device_write wired as new_devices of (rs, d) \<Rightarrow>
     uart_ok (uart0 d) \<and> spi_ok (spi0 d) \<and> length (sensor (i2c0 d)) = 8 \<and> net_ok (can_bus d) \<and>
     list_all2 (\<lambda>a r. case r of Inl e \<Rightarrow> \<not> is_mapped (address a) wired \<and> e = AddressError (address a)
                        | Inr _ \<Rightarrow> is_mapped (address a) wired) as rs"
  using board.accesses_ok [OF new_devices_ok, of wired as] by (simp add: devices_ok_def split_def)

end
