(* ===== verification/Scheduler.thy ===== *)
theory Scheduler
  imports Prelude
begin

text \<open>
  The RTOS kernel: src/rtos/scheduler.h and src/rtos/scheduler.cpp. A call of a kernel function
  gives the state in which the processor is handed over, or in which the call returns when it is
  not: the task that continues is \<open>current\<close>, and \<open>INVALID_TASK\<close> stands for the code that called
  \<open>vTaskStartScheduler\<close>. The machine contexts that \<open>swapcontext\<close> saves and restores are the
  program counters of the tasks; they belong to the users of the kernel (Mutex and the others).
\<close>

section \<open>State\<close>

definition MAX_TASKS :: nat where "MAX_TASKS = 16"
definition PRI_HIGHEST :: u8 where "PRI_HIGHEST = 0"
definition PRI_LOWEST :: u8 where "PRI_LOWEST = 7"

text \<open>A task handle is a number below 256.\<close>

definition INVALID_TASK :: nat where "INVALID_TASK = 0xFF"

datatype task_state = READY | RUNNING | BLOCKED | SUSPENDED | DELETED

text \<open>
  The id of a task is its index; its name, context and stack are not modelled. \<open>tasks\<close> holds the
  first \<open>task_count_\<close> entries of the array.
\<close>

record tcb =
  priority :: u8
  state :: task_state
  resume_tick :: u32

record sched =
  tasks :: "tcb list"
  tick_count :: u32
  current :: nat

definition new_sched :: sched where
  "new_sched = \<lparr>tasks = [], tick_count = 0, current = INVALID_TASK\<rparr>"

section \<open>Operations\<close>

definition set_state :: "nat \<Rightarrow> task_state \<Rightarrow> sched \<Rightarrow> sched" where
  "set_state t st s = s\<lparr>tasks := (tasks s)[t := (tasks s ! t)\<lparr>state := st\<rparr>]\<rparr>"

definition xTaskCreate :: "u8 \<Rightarrow> sched \<Rightarrow> nat \<times> sched" where
  "xTaskCreate p s =
     (if length (tasks s) \<ge> MAX_TASKS then (INVALID_TASK, s)
      else (length (tasks s), s\<lparr>tasks := tasks s @ [\<lparr>priority = p, state = READY, resume_tick = 0\<rparr>]\<rparr>))"

definition get_state :: "nat \<Rightarrow> sched \<Rightarrow> task_state" where
  "get_state t s = (if t \<ge> length (tasks s) then DELETED else state (tasks s ! t))"

definition get_priority :: "nat \<Rightarrow> sched \<Rightarrow> u8" where
  "get_priority t s = (if t \<ge> length (tasks s) then 0xFF else priority (tasks s ! t))"

text \<open>The two loops of \<open>select_next\<close>: the best priority, and the round robin from \<open>start\<close>.\<close>

definition best_prio :: "tcb list \<Rightarrow> u8" where
  "best_prio ts = fold (\<lambda>t b. if state t = READY \<and> priority t < b then priority t else b) ts 0xFF"

definition select_next :: "sched \<Rightarrow> nat" where
  "select_next s =
     (let best = best_prio (tasks s) in
      if best = 0xFF then INVALID_TASK
      else (let n = length (tasks s); start = (if current s = INVALID_TASK then 0 else (current s + 1) mod n)
            in case List.find (\<lambda>idx. state (tasks s ! idx) = READY \<and> priority (tasks s ! idx) = best)
                      (map (\<lambda>i. (start + i) mod n) [0 ..< n]) of
                 Some idx \<Rightarrow> idx
               | None \<Rightarrow> INVALID_TASK))"

text \<open>A task that sleeps until a tick, and the loops over them.\<close>

definition sleeping :: "tcb \<Rightarrow> bool" where
  "sleeping t \<longleftrightarrow> state t = BLOCKED \<and> resume_tick t > 0"

definition earliest :: "tcb list \<Rightarrow> u32" where
  "earliest ts = fold (\<lambda>t e. if sleeping t then min e (resume_tick t) else e) ts 0xFFFFFFFF"

definition wake_due :: "sched \<Rightarrow> sched" where
  "wake_due s = s\<lparr>tasks := map (\<lambda>t. if sleeping t \<and> resume_tick t \<le> tick_count s
     then t\<lparr>state := READY, resume_tick := 0\<rparr> else t) (tasks s)\<rparr>"

text \<open>The number of sleeping tasks, which the discrete-event loop decreases.\<close>

definition sleepers :: "sched \<Rightarrow> nat" where
  "sleepers s = length (filter sleeping (tasks s))"

lemma earliest_fold:
  "fold (\<lambda>t e. if sleeping t then min e (resume_tick t) else e) ts e0 = e \<Longrightarrow>
   e \<le> e0 \<and> (\<forall>t \<in> set ts. sleeping t \<longrightarrow> e \<le> resume_tick t) \<and>
   (e = e0 \<or> (\<exists>t \<in> set ts. sleeping t \<and> resume_tick t = e))"
proof (induction ts arbitrary: e0)
  case (Cons t ts)
  show ?case
  proof (cases "sleeping t")
    case True
    then have "fold (\<lambda>t e. if sleeping t then min e (resume_tick t) else e) ts (min e0 (resume_tick t)) = e"
      using Cons.prems by simp
    from Cons.IH [OF this] True show ?thesis by (auto simp: min_def split: if_splits)
  next
    case False
    then show ?thesis using Cons by simp
  qed
qed simp

lemma earliest_sleeper:
  "earliest ts \<noteq> 0xFFFFFFFF \<Longrightarrow> \<exists>t \<in> set ts. sleeping t \<and> resume_tick t = earliest ts"
  and earliest_le: "t \<in> set ts \<Longrightarrow> sleeping t \<Longrightarrow> earliest ts \<le> resume_tick t"
  using earliest_fold [of ts "0xFFFFFFFF" "earliest ts"] by (auto simp: earliest_def)

lemma wake_sleepers:
  assumes "earliest (tasks s) \<noteq> 0xFFFFFFFF"
  shows "sleepers (wake_due (s\<lparr>tick_count := earliest (tasks s)\<rparr>)) < sleepers s"
proof -
  let ?e = "earliest (tasks s)"
  let ?w = "\<lambda>t. if sleeping t \<and> resume_tick t \<le> ?e then t\<lparr>state := READY, resume_tick := 0\<rparr> else t"
  have w: "sleeping (?w t) \<longleftrightarrow> sleeping t \<and> \<not> resume_tick t \<le> ?e" for t
    by (auto simp: sleeping_def)
  have "length (filter (\<lambda>t. sleeping t \<and> \<not> resume_tick t \<le> ?e) ts) \<le> length (filter sleeping ts)" for ts
    by (induction ts) auto
  moreover have "t \<in> set ts \<Longrightarrow> sleeping t \<Longrightarrow> resume_tick t \<le> ?e \<Longrightarrow>
      length (filter (\<lambda>t. sleeping t \<and> \<not> resume_tick t \<le> ?e) ts) < length (filter sleeping ts)" for t ts
    using calculation by (induction ts) (auto simp: less_Suc_eq_le)
  ultimately show ?thesis
    using earliest_sleeper [OF assms] w by (fastforce simp: sleepers_def wake_due_def filter_map comp_def)
qed

text \<open>
  \<open>schedule_from\<close>: the task that called it continues when it is selected itself; otherwise
  another task does, or nobody. When no task is ready the time advances to the next wake-up.
\<close>

function schedule_from :: "nat \<Rightarrow> sched \<Rightarrow> sched" where
  "schedule_from prev s =
     (let next = select_next s in
      if next \<noteq> INVALID_TASK then
        (if next = prev then set_state prev RUNNING s
         else set_state next RUNNING (s\<lparr>current := next\<rparr>))
      else if earliest (tasks s) = 0xFFFFFFFF then s\<lparr>current := INVALID_TASK\<rparr>
      else schedule_from prev (wake_due (s\<lparr>tick_count := earliest (tasks s)\<rparr>)))"
  by pat_completeness auto
termination
  by (relation "measure (\<lambda>(prev, s). sleepers s)") (simp_all add: wake_sleepers)

function schedule_after_delete :: "sched \<Rightarrow> sched" where
  "schedule_after_delete s =
     (let next = select_next s in
      if next \<noteq> INVALID_TASK then set_state next RUNNING (s\<lparr>current := next\<rparr>)
      else if earliest (tasks s) = 0xFFFFFFFF then s\<lparr>current := INVALID_TASK\<rparr>
      else schedule_after_delete (wake_due (s\<lparr>tick_count := earliest (tasks s)\<rparr>)))"
  by pat_completeness auto
termination
  by (relation "measure sleepers") (simp_all add: wake_sleepers)

declare schedule_from.simps [simp del] schedule_after_delete.simps [simp del]

text \<open>What \<open>schedule_from\<close> does when its task is switched to again.\<close>

definition rescheduled :: "nat \<Rightarrow> sched \<Rightarrow> sched" where
  "rescheduled prev s = set_state prev RUNNING s"

definition vTaskStartScheduler :: "sched \<Rightarrow> sched" where
  "vTaskStartScheduler s =
     (let first = select_next s in
      if first = INVALID_TASK then s else set_state first RUNNING (s\<lparr>current := first\<rparr>))"

definition vTaskDelay :: "u32 \<Rightarrow> sched \<Rightarrow> sched" where
  "vTaskDelay ticks s =
     (if current s = INVALID_TASK then s
      else if ticks = 0 then schedule_from (current s) (set_state (current s) READY s)
      else (let s = s\<lparr>tasks := (tasks s)[current s := (tasks s ! current s)\<lparr>resume_tick := tick_count s + ticks\<rparr>]\<rparr>
            in schedule_from (current s) (set_state (current s) BLOCKED s)))"

definition vTaskSuspend :: "nat \<Rightarrow> sched \<Rightarrow> sched" where
  "vTaskSuspend t s =
     (if t \<ge> length (tasks s) then s
      else (let s = set_state t SUSPENDED s in if t = current s then schedule_from (current s) s else s))"

definition vTaskResume :: "nat \<Rightarrow> sched \<Rightarrow> sched" where
  "vTaskResume t s =
     (if t \<ge> length (tasks s) then s
      else if state (tasks s ! t) = SUSPENDED then set_state t READY s else s)"

definition vTaskDelete :: "nat \<Rightarrow> sched \<Rightarrow> sched" where
  "vTaskDelete t s =
     (if t \<ge> length (tasks s) then s
      else (let s = set_state t DELETED s in if t = current s then schedule_from (current s) s else s))"

definition block_current :: "sched \<Rightarrow> sched" where
  "block_current s =
     (if current s = INVALID_TASK then s
      else schedule_from (current s) (set_state (current s) BLOCKED s))"

definition unblock :: "nat \<Rightarrow> sched \<Rightarrow> sched" where
  "unblock t s =
     (if t \<ge> length (tasks s) then s
      else if state (tasks s ! t) \<noteq> BLOCKED then s
      else (let s = set_state t READY s in
        if current s \<noteq> INVALID_TASK \<and> priority (tasks s ! t) < priority (tasks s ! current s)
        then schedule_from (current s) (set_state (current s) READY s)
        else s))"

definition tick :: "u32 \<Rightarrow> sched \<Rightarrow> sched" where
  "tick ms s =
     (let s = wake_due (s\<lparr>tick_count := tick_count s + ms\<rparr>); next = select_next s in
      if next \<noteq> INVALID_TASK \<and> current s \<noteq> INVALID_TASK \<and>
         priority (tasks s ! next) < priority (tasks s ! current s)
      then schedule_from (current s) (set_state (current s) READY s)
      else s)"

text \<open>The end of a task's function, in \<open>task_entry\<close>.\<close>

definition task_end :: "sched \<Rightarrow> sched" where
  "task_end s = schedule_after_delete (set_state (current s) DELETED s)"

section \<open>Selection\<close>

definition ready_at :: "u8 \<Rightarrow> sched \<Rightarrow> nat \<Rightarrow> bool" where
  "ready_at p s t \<longleftrightarrow> t < length (tasks s) \<and> state (tasks s ! t) = READY \<and> priority (tasks s ! t) = p"

lemma best_fold:
  "fold (\<lambda>t b. if state t = READY \<and> priority t < b then priority t else b) ts b0 = b \<Longrightarrow>
   b \<le> b0 \<and> (\<forall>t \<in> set ts. state t = READY \<longrightarrow> b \<le> priority t) \<and>
   (b = b0 \<or> (\<exists>t \<in> set ts. state t = READY \<and> priority t = b))"
proof (induction ts arbitrary: b0)
  case (Cons t ts)
  show ?case
  proof (cases "state t = READY \<and> priority t < b0")
    case True
    then have "fold (\<lambda>t b. if state t = READY \<and> priority t < b then priority t else b) ts (priority t) = b"
      using Cons.prems by simp
    from Cons.IH [OF this] True show ?thesis by auto
  next
    case False
    have "fold (\<lambda>t b. if state t = READY \<and> priority t < b then priority t else b) ts b0 = b"
      using Cons.prems by (simp only: fold_Cons comp_apply if_not_P [OF False])
    from Cons.IH [OF this] False show ?thesis by (auto simp: not_less)
  qed
qed simp

lemma best_prio_le: "t < length (tasks s) \<Longrightarrow> state (tasks s ! t) = READY \<Longrightarrow> best_prio (tasks s) \<le> priority (tasks s ! t)"
  using best_fold [of "tasks s" "0xFF" "best_prio (tasks s)"] by (simp add: best_prio_def)

lemma best_prio_ready: "best_prio (tasks s) \<noteq> 0xFF \<Longrightarrow> \<exists>t. ready_at (best_prio (tasks s)) s t"
  using best_fold [of "tasks s" "0xFF" "best_prio (tasks s)"]
  by (auto simp: best_prio_def ready_at_def in_set_conv_nth)

text \<open>The place where the round robin starts.\<close>

definition start_of :: "sched \<Rightarrow> nat" where
  "start_of s = (if current s = INVALID_TASK then 0 else (current s + 1) mod length (tasks s))"

lemma reach_index: "t < n \<Longrightarrow> \<exists>k < n. t = (st + k) mod n" for t n st :: nat
proof -
  assume t: "t < n"
  define k where "k = (t + (n - st mod n)) mod n"
  have "(st + k) mod n = (st mod n + (t + (n - st mod n))) mod n"
    by (simp add: k_def mod_add_left_eq mod_add_right_eq)
  also have "st mod n + (t + (n - st mod n)) = t + n"
    using mod_less_divisor [of n st] t by linarith
  finally show ?thesis using t by (intro exI [of _ k]) (simp add: k_def)
qed

text \<open>
  The selected task: the first, from the place after the current one on, of the ready tasks with
  the best priority.
\<close>

lemma select_cases:
  assumes "length (tasks s) \<le> MAX_TASKS"
  shows "(best_prio (tasks s) = 0xFF \<and> select_next s = INVALID_TASK) \<or>
    (best_prio (tasks s) \<noteq> 0xFF \<and> select_next s \<noteq> INVALID_TASK \<and>
     ready_at (best_prio (tasks s)) s (select_next s) \<and>
     (\<exists>k < length (tasks s). select_next s = (start_of s + k) mod length (tasks s) \<and>
        (\<forall>j < k. \<not> ready_at (best_prio (tasks s)) s ((start_of s + j) mod length (tasks s)))))"
proof (cases "best_prio (tasks s) = 0xFF")
  case True
  then show ?thesis by (simp add: select_next_def)
next
  case False
  let ?n = "length (tasks s)" and ?b = "best_prio (tasks s)"
  let ?P = "\<lambda>idx. state (tasks s ! idx) = READY \<and> priority (tasks s ! idx) = ?b"
  let ?is = "map (\<lambda>i. (start_of s + i) mod ?n) [0 ..< ?n]"
  obtain t where t: "ready_at ?b s t" using best_prio_ready [OF False] by blast
  then have n: "t < ?n" "0 < ?n" by (auto simp: ready_at_def)
  have sel: "select_next s = (case List.find ?P ?is of Some idx \<Rightarrow> idx | None \<Rightarrow> INVALID_TASK)"
    using False by (simp add: select_next_def start_of_def Let_def)
  obtain k where k: "k < ?n" "t = (start_of s + k) mod ?n" using reach_index [OF n(1)] by blast
  then have "t \<in> set ?is" by auto
  then have "List.find ?P ?is \<noteq> None" using t by (auto simp: find_None_iff ready_at_def)
  then obtain idx where idx: "List.find ?P ?is = Some idx" by blast
  then obtain i where i: "i < length ?is" "?P (?is ! i)" "idx = ?is ! i" "\<forall>j < i. \<not> ?P (?is ! j)"
    by (auto simp: find_Some_iff)
  have nth: "?is ! j = (start_of s + j) mod ?n" if "j < ?n" for j using that by simp
  have "\<forall>j < i. \<not> ready_at ?b s ((start_of s + j) mod ?n)"
  proof (intro allI impI)
    fix j assume "j < i"
    with i(1,4) have "j < ?n" "\<not> ?P (?is ! j)" by auto
    then show "\<not> ready_at ?b s ((start_of s + j) mod ?n)" unfolding ready_at_def nth [OF \<open>j < ?n\<close>] by blast
  qed
  moreover have x: "idx = (start_of s + i) mod ?n" "i < ?n" using i(1,3) nth by auto
  moreover have "ready_at ?b s idx"
    using i(2,3) x n(2) by (simp add: ready_at_def)
  moreover have "idx \<noteq> INVALID_TASK"
    using x(1) mod_less_divisor [OF n(2), of "start_of s + i"] assms by (simp add: MAX_TASKS_def INVALID_TASK_def)
  ultimately show ?thesis using False by (auto simp: sel idx)
qed

lemma select_ready:
  "length (tasks s) \<le> MAX_TASKS \<Longrightarrow> select_next s \<noteq> INVALID_TASK \<Longrightarrow>
   select_next s < length (tasks s) \<and> state (tasks s ! select_next s) = READY"
  using select_cases [of s] by (auto simp: ready_at_def)

section \<open>What scheduling does to the tasks\<close>

text \<open>
  \<open>timely\<close>: no sleeping task is overdue. \<open>sched_ok\<close>: the current task, and no other, is running.
  \<open>yielded p\<close>: the current task \<open>p\<close> has given up the processor.
\<close>

definition timely :: "sched \<Rightarrow> bool" where
  "timely s \<longleftrightarrow> (\<forall>t \<in> set (tasks s). sleeping t \<longrightarrow> tick_count s < resume_tick t)"

definition sched_ok :: "sched \<Rightarrow> bool" where
  "sched_ok s \<longleftrightarrow> length (tasks s) \<le> MAX_TASKS \<and>
     (current s = INVALID_TASK \<or> (current s < length (tasks s) \<and> state (tasks s ! current s) = RUNNING)) \<and>
     (\<forall>t < length (tasks s). state (tasks s ! t) = RUNNING \<longrightarrow> t = current s)"

definition yielded :: "nat \<Rightarrow> sched \<Rightarrow> bool" where
  "yielded p s \<longleftrightarrow> length (tasks s) \<le> MAX_TASKS \<and> current s = p \<and> p < length (tasks s) \<and>
     (\<forall>t \<in> set (tasks s). state t \<noteq> RUNNING)"

text \<open>The change of one task: none, it is dispatched, or it is woken and perhaps dispatched.\<close>

definition task_step :: "u32 \<Rightarrow> tcb \<Rightarrow> tcb \<Rightarrow> bool" where
  "task_step now x y \<longleftrightarrow> y = x \<or> (state x = READY \<and> y = x\<lparr>state := RUNNING\<rparr>) \<or>
     (sleeping x \<and> resume_tick x \<le> now \<and>
       (y = x\<lparr>state := READY, resume_tick := 0\<rparr> \<or> y = x\<lparr>state := RUNNING, resume_tick := 0\<rparr>))"

lemma wake_timely: "timely (wake_due s)"
  by (auto simp: timely_def wake_due_def sleeping_def)

lemma set_state_simps [simp]:
  "length (tasks (set_state t st s)) = length (tasks s)" "current (set_state t st s) = current s"
  "tick_count (set_state t st s) = tick_count s"
  "t < length (tasks s) \<Longrightarrow> tasks (set_state t st s) ! u =
     (if u = t then (tasks s ! t)\<lparr>state := st\<rparr> else tasks s ! u)"
  by (simp_all add: set_state_def nth_list_update)

lemma wake_due_simps [simp]:
  "length (tasks (wake_due s)) = length (tasks s)" "current (wake_due s) = current s"
  "tick_count (wake_due s) = tick_count s"
  by (simp_all add: wake_due_def)

lemma timely_nth: "timely s \<longleftrightarrow> (\<forall>t < length (tasks s). sleeping (tasks s ! t) \<longrightarrow> tick_count s < resume_tick (tasks s ! t))"
  by (auto simp: timely_def all_set_conv_all_nth)

lemma set_state_timely:
  "t < length (tasks s) \<Longrightarrow> timely s \<Longrightarrow> st \<noteq> BLOCKED \<Longrightarrow> timely (set_state t st s)"
  by (simp add: timely_nth sleeping_def)

lemma earliest_after: "timely s \<Longrightarrow> earliest (tasks s) \<noteq> 0xFFFFFFFF \<Longrightarrow> tick_count s < earliest (tasks s)"
  using earliest_sleeper [of "tasks s"] by (auto simp: timely_def)

text \<open>Time only moves forward, and no sleeper becomes overdue.\<close>

lemma schedule_from_time:
  "timely s \<Longrightarrow> length (tasks s) \<le> MAX_TASKS \<Longrightarrow>
   tick_count s \<le> tick_count (schedule_from p s) \<and> timely (schedule_from p s)"
proof (induction p s rule: schedule_from.induct)
  case (1 p s)
  let ?w = "wake_due (s\<lparr>tick_count := earliest (tasks s)\<rparr>)"
  consider "select_next s \<noteq> INVALID_TASK" | "select_next s = INVALID_TASK" "earliest (tasks s) = 0xFFFFFFFF"
    | "select_next s = INVALID_TASK" "earliest (tasks s) \<noteq> 0xFFFFFFFF" by blast
  then show ?case
  proof cases
    case 1
    then show ?thesis
      using select_ready [of s] "1.prems" set_state_timely [of "select_next s" s RUNNING]
        set_state_timely [of "select_next s" "s\<lparr>current := select_next s\<rparr>" RUNNING]
      by (auto simp: schedule_from.simps [of p s] Let_def timely_nth)
  next
    case 2
    then show ?thesis using "1.prems" by (simp add: schedule_from.simps [of p s] timely_nth)
  next
    case 3
    have "tick_count s \<le> tick_count ?w" using earliest_after [OF "1.prems"(1) 3(2)] by simp
    then show ?thesis
      using "1.IH" [OF refl _ 3(2)] 3 "1.prems" wake_timely
      by (subst (1 2) schedule_from.simps [of p s]) (auto simp: Let_def)
  qed
qed

lemma schedule_from_tasks:
  assumes "length (tasks s) \<le> MAX_TASKS"
  shows "list_all2 (task_step (tick_count (schedule_from p s))) (tasks s) (tasks (schedule_from p s))"
  using assms
proof (induction p s rule: schedule_from.induct)
  case (1 p s)
  let ?s = "schedule_from p s" and ?w = "wake_due (s\<lparr>tick_count := earliest (tasks s)\<rparr>)"
  consider "select_next s \<noteq> INVALID_TASK" | "select_next s = INVALID_TASK" "earliest (tasks s) = 0xFFFFFFFF"
    | "select_next s = INVALID_TASK" "earliest (tasks s) \<noteq> 0xFFFFFFFF" by blast
  then show ?case
  proof cases
    case 1
    have "tasks ?s = tasks (set_state (select_next s) RUNNING s)"
      using 1 by (simp add: schedule_from.simps [of p s] Let_def set_state_def)
    then show ?thesis
      using select_ready [OF "1.prems" 1] by (simp add: list_all2_conv_all_nth task_step_def)
  next
    case 2
    then show ?thesis by (simp add: schedule_from.simps [of p s] list_all2_conv_all_nth task_step_def)
  next
    case 3
    then have s: "?s = schedule_from p ?w" by (subst schedule_from.simps [of p s]) simp
    have "list_all2 (task_step (tick_count ?s)) (tasks ?w) (tasks ?s)"
      using "1.IH" [OF refl _ 3(2)] 3 "1.prems" unfolding s by simp
    moreover have "earliest (tasks s) \<le> tick_count ?s"
      using schedule_from_time [OF wake_timely, of "s\<lparr>tick_count := earliest (tasks s)\<rparr>" p] "1.prems" unfolding s by simp
    ultimately show ?thesis
      unfolding list_all2_conv_all_nth
      by (auto simp: wake_due_def task_step_def sleeping_def split: if_splits)
  qed
qed

lemma schedule_from_current:
  "length (tasks s) \<le> MAX_TASKS \<Longrightarrow> \<forall>t \<in> set (tasks s). state t \<noteq> RUNNING \<Longrightarrow> current s = p \<Longrightarrow>
   sched_ok (schedule_from p s)"
proof (induction p s rule: schedule_from.induct)
  case (1 p s)
  let ?w = "wake_due (s\<lparr>tick_count := earliest (tasks s)\<rparr>)"
  consider "select_next s \<noteq> INVALID_TASK" | "select_next s = INVALID_TASK" "earliest (tasks s) = 0xFFFFFFFF"
    | "select_next s = INVALID_TASK" "earliest (tasks s) \<noteq> 0xFFFFFFFF" by blast
  then show ?case
  proof cases
    case 1
    then have "schedule_from p s = set_state (select_next s) RUNNING (s\<lparr>current := select_next s\<rparr>)"
      using "1.prems"(3) by (auto simp: schedule_from.simps [of p s] Let_def set_state_def)
    then show ?thesis
      using select_ready [OF "1.prems"(1) 1] "1.prems" by (simp add: sched_ok_def)
  next
    case 2
    then show ?thesis using "1.prems" by (simp add: schedule_from.simps [of p s] sched_ok_def)
  next
    case 3
    have "\<forall>t \<in> set (tasks ?w). state t \<noteq> RUNNING" using "1.prems"(2) by (auto simp: wake_due_def)
    then show ?thesis
      using "1.IH" [OF refl _ 3(2)] 3 "1.prems" by (subst schedule_from.simps [of p s]) auto
  qed
qed

section \<open>The kernel as a transition system\<close>

text \<open>
  The calls of the kernel, from tasks, from the code around the scheduler, or from
  synchronisation objects. The scheduler is started from outside the tasks, and only a task ends.
\<close>

inductive kstep :: "sched \<Rightarrow> sched \<Rightarrow> bool" where
  k_create: "kstep s (snd (xTaskCreate p s))"
| k_start: "current s = INVALID_TASK \<Longrightarrow> kstep s (vTaskStartScheduler s)"
| k_delay: "kstep s (vTaskDelay n s)"
| k_suspend: "kstep s (vTaskSuspend t s)"
| k_resume: "kstep s (vTaskResume t s)"
| k_delete: "kstep s (vTaskDelete t s)"
| k_tick: "kstep s (tick n s)"
| k_block: "kstep s (block_current s)"
| k_unblock: "kstep s (unblock t s)"
| k_end: "current s \<noteq> INVALID_TASK \<Longrightarrow> kstep s (task_end s)"

inductive kreach :: "sched \<Rightarrow> bool" where
  k_new: "kreach new_sched"
| k_step: "kreach s \<Longrightarrow> kstep s t \<Longrightarrow> kreach t"

lemma ok_length: "sched_ok s \<Longrightarrow> length (tasks s) \<le> MAX_TASKS"
  by (simp add: sched_ok_def)

lemma ok_current:
  "sched_ok s \<Longrightarrow> current s \<noteq> INVALID_TASK \<Longrightarrow> current s < length (tasks s) \<and> state (tasks s ! current s) = RUNNING"
  by (simp add: sched_ok_def)

lemma ok_invalid: "sched_ok s \<Longrightarrow> t < length (tasks s) \<Longrightarrow> t \<noteq> INVALID_TASK"
  by (auto simp: sched_ok_def MAX_TASKS_def INVALID_TASK_def)

text \<open>A task that is not running takes another state, and a task that yields.\<close>

lemma other_ok:
  "sched_ok s \<Longrightarrow> t \<noteq> current s \<Longrightarrow> st \<noteq> RUNNING \<Longrightarrow> sched_ok (set_state t st s)"
  by (cases "t < length (tasks s)") (auto simp: sched_ok_def set_state_def nth_list_update)

lemma yield_ok:
  assumes "sched_ok s" "current s < length (tasks s)" "state x \<noteq> RUNNING"
    "tasks s' = (tasks s)[current s := x]" "current s' = current s"
  shows "sched_ok (schedule_from (current s) s')"
proof (rule schedule_from_current)
  show "\<forall>t \<in> set (tasks s'). state t \<noteq> RUNNING"
    using assms by (auto simp: sched_ok_def all_set_conv_all_nth nth_list_update)
qed (use assms ok_length in auto)

lemma yield_state_ok:
  assumes "sched_ok s" "current s < length (tasks s)" "st \<noteq> RUNNING"
  shows "sched_ok (schedule_from (current s) (set_state (current s) st s))"
  by (rule yield_ok [OF assms(1,2), of "(tasks s ! current s)\<lparr>state := st\<rparr>"]) (use assms(3) in \<open>simp_all add: set_state_def\<close>)

lemma wake_running:
  "t < length (tasks s) \<Longrightarrow> state (tasks (wake_due s) ! t) = RUNNING \<longleftrightarrow> state (tasks s ! t) = RUNNING"
  by (simp add: wake_due_def sleeping_def)

lemma wake_ok: "sched_ok s \<Longrightarrow> sched_ok (wake_due (s\<lparr>tick_count := n\<rparr>))"
proof -
  let ?w = "wake_due (s\<lparr>tick_count := n\<rparr>)"
  assume "sched_ok s"
  moreover have "state (tasks ?w ! t) = RUNNING \<longleftrightarrow> state (tasks s ! t) = RUNNING" if "t < length (tasks s)" for t
    using wake_running [of t "s\<lparr>tick_count := n\<rparr>"] that by simp
  moreover have "length (tasks ?w) = length (tasks s)" "current ?w = current s" by simp_all
  ultimately show "sched_ok ?w" unfolding sched_ok_def by metis
qed

lemma start_ok:
  "length (tasks s) \<le> MAX_TASKS \<Longrightarrow> \<forall>t < length (tasks s). state (tasks s ! t) \<noteq> RUNNING \<Longrightarrow> select_next s \<noteq> INVALID_TASK \<Longrightarrow>
   sched_ok (set_state (select_next s) RUNNING (s\<lparr>current := select_next s\<rparr>))"
  using select_ready [of s] by (simp add: sched_ok_def)

text \<open>
  The end of a task schedules as \<open>schedule_from\<close> does: the deleted task is never selected.
\<close>

lemma after_delete_eq:
  "length (tasks s) \<le> MAX_TASKS \<Longrightarrow> p < length (tasks s) \<Longrightarrow> state (tasks s ! p) = DELETED \<Longrightarrow>
   schedule_after_delete s = schedule_from p s"
proof (induction p s rule: schedule_from.induct)
  case (1 p s)
  let ?w = "wake_due (s\<lparr>tick_count := earliest (tasks s)\<rparr>)"
  have "select_next s \<noteq> INVALID_TASK \<Longrightarrow> select_next s \<noteq> p" using select_ready [of s] "1.prems" by auto
  moreover have "tasks ?w ! p = tasks s ! p"
    using "1.prems" by (simp add: wake_due_def sleeping_def)
  then have "select_next s = INVALID_TASK \<Longrightarrow> earliest (tasks s) \<noteq> 0xFFFFFFFF \<Longrightarrow>
      schedule_after_delete ?w = schedule_from p ?w"
    using "1.IH" [OF refl] "1.prems" by simp
  ultimately show ?case
    by (simp add: schedule_from.simps [of p s] schedule_after_delete.simps [of s] Let_def)
qed

lemma task_end_eq:
  "sched_ok s \<Longrightarrow> current s \<noteq> INVALID_TASK \<Longrightarrow> task_end s = schedule_from (current s) (set_state (current s) DELETED s)"
  unfolding task_end_def using ok_current [of s] ok_length [of s] by (intro after_delete_eq) simp_all

lemma delay_ok:
  assumes ok: "sched_ok s" and c: "current s \<noteq> INVALID_TASK"
  shows "sched_ok (vTaskDelay n s)"
proof (cases "n = 0")
  case True
  then show ?thesis using yield_state_ok [OF ok, of READY] ok_current [OF ok c] c by (simp add: vTaskDelay_def)
next
  case False
  let ?x = "(tasks s ! current s)\<lparr>resume_tick := tick_count s + n, state := BLOCKED\<rparr>"
  let ?s = "s\<lparr>tasks := (tasks s)[current s := (tasks s ! current s)\<lparr>resume_tick := tick_count s + n\<rparr>]\<rparr>"
  have "tasks (set_state (current s) BLOCKED ?s) = (tasks s)[current s := ?x]"
    using ok_current [OF ok c] by (simp add: set_state_def)
  then show ?thesis
    using yield_ok [OF ok, of ?x "set_state (current s) BLOCKED ?s"] ok_current [OF ok c] False c
    by (simp add: vTaskDelay_def Let_def)
qed

lemma unblock_ok:
  assumes ok: "sched_ok s"
  shows "sched_ok (unblock t s)"
proof (cases "t < length (tasks s) \<and> state (tasks s ! t) = BLOCKED")
  case True
  then have c: "t \<noteq> current s"
    using ok_current [OF ok] ok_invalid [OF ok] by fastforce
  have r: "sched_ok (set_state t READY s)" by (rule other_ok [OF ok c]) simp
  show ?thesis
    using True r ok_current [OF r] yield_state_ok [OF r, of READY] by (simp add: unblock_def Let_def)
qed (use ok in \<open>auto simp: unblock_def\<close>)

lemma tick_ok:
  assumes ok: "sched_ok s"
  shows "sched_ok (tick n s)"
proof -
  let ?s = "wake_due (s\<lparr>tick_count := tick_count s + n\<rparr>)"
  have r: "sched_ok ?s" by (rule wake_ok [OF ok])
  show ?thesis
    using r ok_current [OF r] yield_state_ok [OF r, of READY] by (simp add: tick_def Let_def)
qed

lemma current_in_ok:
  assumes ok: "sched_ok s" and t: "t < length (tasks s)" and st: "st \<noteq> RUNNING"
  shows "sched_ok (let s = set_state t st s in if t = current s then schedule_from (current s) s else s)"
  using other_ok [OF ok _ st, of t] yield_state_ok [OF ok _ st] t by (simp add: Let_def)

lemma create_ok:
  assumes ok: "sched_ok s"
  shows "sched_ok (snd (xTaskCreate p s))"
proof -
  let ?s = "s\<lparr>tasks := tasks s @ [\<lparr>priority = p, state = READY, resume_tick = 0\<rparr>]\<rparr>"
  have n: "tasks ?s ! t = (if t < length (tasks s) then tasks s ! t else \<lparr>priority = p, state = READY, resume_tick = 0\<rparr>)"
    if "t < length (tasks ?s)" for t
    using that by (auto simp: nth_append less_Suc_eq)
  have "length (tasks s) < MAX_TASKS \<Longrightarrow> sched_ok ?s"
    unfolding sched_ok_def
  proof (intro conjI allI impI)
    fix t assume "t < length (tasks ?s)" "state (tasks ?s ! t) = RUNNING"
    then show "t = current ?s" using ok n [of t] by (simp add: sched_ok_def split: if_splits)
  next
    show "current ?s = INVALID_TASK \<or> (current ?s < length (tasks ?s) \<and> state (tasks ?s ! current ?s) = RUNNING)"
      using ok_current [OF ok] n [of "current s"] by (cases "current s = INVALID_TASK") simp_all
  qed simp
  then show ?thesis using ok by (simp add: xTaskCreate_def not_le)
qed

lemma kstep_ok: "kstep s t \<Longrightarrow> sched_ok s \<Longrightarrow> sched_ok t"
proof (induction rule: kstep.induct)
  case (k_create s p)
  then show ?case by (rule create_ok)
next
  case (k_start s)
  have "state (tasks s ! t) \<noteq> RUNNING" if "t < length (tasks s)" for t
    using k_start that ok_invalid [OF k_start.prems that] unfolding sched_ok_def by metis
  then show ?case
    using start_ok [of s] ok_length [of s] k_start by (simp add: vTaskStartScheduler_def Let_def)
next
  case (k_delay s n)
  then show ?case using delay_ok [of s n] by (cases "current s = INVALID_TASK") (simp_all add: vTaskDelay_def)
next
  case (k_suspend s t)
  then show ?case using current_in_ok [of s t SUSPENDED] by (simp add: vTaskSuspend_def)
next
  case (k_resume s t)
  then show ?case
    using other_ok [of s t READY] ok_current [of s] ok_invalid [of s t]
    by (cases "t = current s") (simp_all add: vTaskResume_def)
next
  case (k_delete s t)
  then show ?case using current_in_ok [of s t DELETED] by (simp add: vTaskDelete_def)
next
  case (k_tick s n)
  then show ?case by (rule tick_ok)
next
  case (k_block s)
  then show ?case
    using ok_current [of s] yield_state_ok [of s BLOCKED] by (simp add: block_current_def)
next
  case (k_unblock s t)
  then show ?case by (rule unblock_ok)
next
  case (k_end s)
  then show ?case
    using ok_current [of s] yield_state_ok [of s DELETED] by (simp add: task_end_eq)
qed

lemma new_sched_ok: "sched_ok new_sched"
  by (simp add: new_sched_def sched_ok_def)

lemma kreach_ok: "kreach s \<Longrightarrow> sched_ok s"
  by (induction rule: kreach.induct) (rule new_sched_ok, rule kstep_ok)

end
