(* ===== verification/Waiters.thy ===== *)
theory Waiters
  imports Prelude "HOL-Library.Multiset"
begin

text \<open>
  Waiting for each other: the contract \<open>parking\<close> that the synchronisation objects of src/rtos
  (mutex.h, semaphore.h, queue.h, event_group.h) need from the kernel, and the selection of the
  waiter to wake, which the first three contain in the same words.
\<close>

section \<open>The contract of the kernel\<close>

text \<open>
  Tasks are numbers below \<open>bound\<close>. A parked task stays parked until it is woken; \<open>env\<close> is whatever
  else may happen to the kernel while nobody is inside an object.
\<close>

locale parking =
  fixes ok :: "'k \<Rightarrow> bool"
    and running :: "'k \<Rightarrow> nat"
    and none :: nat
    and bound :: nat
    and parked :: "'k \<Rightarrow> nat set"
    and active :: "'k \<Rightarrow> nat set"
    and park :: "'k \<Rightarrow> 'k"
    and wake :: "nat \<Rightarrow> 'k \<Rightarrow> 'k"
    and env :: "'k \<Rightarrow> 'k \<Rightarrow> bool"
  assumes running_active: "ok k \<Longrightarrow> running k \<noteq> none \<Longrightarrow> running k \<in> active k"
    and disjoint: "ok k \<Longrightarrow> parked k \<inter> active k = {}"
    and bounded: "ok k \<Longrightarrow> parked k \<union> active k \<subseteq> {..< bound}"
    and park_ok: "ok k \<Longrightarrow> running k \<noteq> none \<Longrightarrow> ok (park k)"
    and park_parked: "ok k \<Longrightarrow> running k \<noteq> none \<Longrightarrow> parked (park k) = insert (running k) (parked k)"
    and park_active: "ok k \<Longrightarrow> running k \<noteq> none \<Longrightarrow> active k - {running k} \<subseteq> active (park k)"
    and wake_ok: "ok k \<Longrightarrow> t \<in> parked k \<Longrightarrow> ok (wake t k)"
    and wake_parked: "ok k \<Longrightarrow> t \<in> parked k \<Longrightarrow> parked (wake t k) = parked k - {t}"
    and wake_active: "ok k \<Longrightarrow> t \<in> parked k \<Longrightarrow> insert t (active k) \<subseteq> active (wake t k)"
    and env_ok: "ok k \<Longrightarrow> env k k' \<Longrightarrow> ok k'"
    and env_parked: "ok k \<Longrightarrow> env k k' \<Longrightarrow> parked k \<subseteq> parked k'"
    and env_active: "ok k \<Longrightarrow> env k k' \<Longrightarrow> active k - {running k} \<subseteq> active k'"
begin

lemma running_not_parked: "ok k \<Longrightarrow> running k \<noteq> none \<Longrightarrow> running k \<notin> parked k"
  using running_active disjoint by blast

text \<open>The running task joins a list of waiters; there is always room for it.\<close>

lemma join_waiters:
  assumes "ok k" "running k \<noteq> none" "distinct ws" "set ws \<subseteq> parked k"
  shows "distinct (ws @ [running k]) \<and> set (ws @ [running k]) \<subseteq> parked (park k) \<and> length ws < bound"
proof -
  have n: "running k \<notin> set ws" using running_not_parked [OF assms(1,2)] assms(4) by blast
  have "insert (running k) (set ws) \<subseteq> {..< bound}"
    using bounded [OF assms(1)] running_active [OF assms(1,2)] assms(4) by blast
  then have "card (insert (running k) (set ws)) \<le> bound"
    using card_mono [of "{..< bound}"] by fastforce
  then have "length ws < bound" using n assms(3) by (simp add: distinct_card)
  with n show ?thesis using assms(3,4) park_parked [OF assms(1,2)] by auto
qed

text \<open>A waiter leaves its list and is woken; the others stay.\<close>

lemma leave_waiters:
  assumes "ok k" "distinct ws" "set ws \<subseteq> parked k" "mset ws = add_mset w (mset vs)"
  shows "distinct vs \<and> set vs \<subseteq> parked (wake w k) \<and> w \<notin> set vs"
proof -
  have s: "set ws = insert w (set vs)" using assms(4) by (metis set_mset_add_mset_insert set_mset_mset)
  have "distinct (w # vs)" using assms(2,4) mset_eq_imp_distinct_iff [of ws "w # vs"] by simp
  then show ?thesis using wake_parked [OF assms(1), of w] assms(3) s by auto
qed

lemma stay_waiters: "ok k \<Longrightarrow> w \<in> parked k \<Longrightarrow> set vs \<subseteq> parked k \<Longrightarrow> w \<notin> set vs \<Longrightarrow> set vs \<subseteq> parked (wake w k)"
  using wake_parked by blast

end

section \<open>The waiter to wake\<close>

text \<open>
  The loop over the array of waiters for the index of the best priority, and the removal: the last
  waiter takes the place of the one that leaves.
\<close>

definition best_index :: "(nat \<Rightarrow> u8) \<Rightarrow> nat list \<Rightarrow> nat" where
  "best_index prio ws =
     fst (fold (\<lambda>i (best_idx, best_prio). let p = prio (ws ! i) in if p < best_prio then (i, p) else (best_idx, best_prio))
          [1 ..< length ws] (0, prio (ws ! 0)))"

definition take_best :: "(nat \<Rightarrow> u8) \<Rightarrow> nat list \<Rightarrow> nat \<times> nat list" where
  "take_best prio ws =
     (let i = best_index prio ws in (ws ! i, butlast (ws[i := last ws])))"

lemma best_fold_index:
  "fold (\<lambda>i (bi, bp). let p = prio (ws ! i) in if p < bp then (i, p) else (bi, bp)) [1 ..< Suc n] (0, prio (ws ! 0)) = (i, p) \<Longrightarrow>
   i \<le> n \<and> p = prio (ws ! i) \<and> (\<forall>j \<le> n. p \<le> prio (ws ! j)) \<and> (\<forall>j < i. p < prio (ws ! j))"
  for prio :: "nat \<Rightarrow> u8"
proof (induction n arbitrary: i p)
  case (Suc n)
  obtain i0 p0 where f: "fold (\<lambda>i (bi, bp). let p = prio (ws ! i) in if p < bp then (i, p) else (bi, bp)) [1 ..< Suc n] (0, prio (ws ! 0)) = (i0, p0)"
    by fastforce
  have "(i, p) = (let p = prio (ws ! Suc n) in if p < p0 then (Suc n, p) else (i0, p0))"
    using Suc.prems f by (simp add: fold_append)
  then have ip: "prio (ws ! Suc n) < p0 \<and> i = Suc n \<and> p = prio (ws ! Suc n) \<or>
      p0 \<le> prio (ws ! Suc n) \<and> i = i0 \<and> p = p0"
    by (auto simp: Let_def not_less split: if_splits)
  have IH: "i0 \<le> n" "p0 = prio (ws ! i0)" "\<forall>j \<le> n. p0 \<le> prio (ws ! j)" "\<forall>j < i0. p0 < prio (ws ! j)"
    using Suc.IH [OF f] by auto
  from ip show ?case
  proof
    assume "prio (ws ! Suc n) < p0 \<and> i = Suc n \<and> p = prio (ws ! Suc n)"
    then show ?case using IH(3) by (auto simp: le_Suc_eq less_Suc_eq_le intro: order_less_imp_le order_less_le_trans)
  qed (use IH in \<open>auto simp: le_Suc_eq\<close>)
qed simp

lemma best_index:
  fixes prio :: "nat \<Rightarrow> u8"
  assumes "ws \<noteq> []"
  shows "best_index prio ws < length ws" and "\<forall>j < length ws. prio (ws ! best_index prio ws) \<le> prio (ws ! j)"
    and "\<forall>j < best_index prio ws. prio (ws ! best_index prio ws) < prio (ws ! j)"
proof -
  obtain n where n: "length ws = Suc n" using assms by (cases ws) auto
  obtain i p where f: "fold (\<lambda>i (bi, bp). let p = prio (ws ! i) in if p < bp then (i, p) else (bi, bp)) [1 ..< Suc n] (0, prio (ws ! 0)) = (i, p)"
    by fastforce
  then have "best_index prio ws = i" by (simp add: best_index_def n)
  then show "best_index prio ws < length ws" "\<forall>j < length ws. prio (ws ! best_index prio ws) \<le> prio (ws ! j)"
    "\<forall>j < best_index prio ws. prio (ws ! best_index prio ws) < prio (ws ! j)"
    using best_fold_index [OF f] n by (auto simp: less_Suc_eq_le)
qed

lemma swap_remove_mset: "i < length ws \<Longrightarrow> mset ws = add_mset (ws ! i) (mset (butlast (ws[i := last ws])))"
proof (cases ws rule: rev_cases)
  case (snoc vs x)
  assume "i < length ws"
  then show ?thesis using snoc by (cases "i < length vs") (simp_all add: list_update_append mset_update nth_append)
qed simp

text \<open>
  The one that is woken has the best priority of all waiters and stands before all others that
  have it; the rest keep waiting.
\<close>

lemma take_best:
  assumes "ws \<noteq> []" "take_best prio ws = (w, vs)"
  shows "mset ws = add_mset w (mset vs)" and "\<forall>v \<in> set ws. prio w \<le> prio v"
proof -
  let ?i = "best_index prio ws"
  have t: "w = ws ! ?i" "vs = butlast (ws[?i := last ws])" using assms(2) by (auto simp: take_best_def Let_def)
  show "mset ws = add_mset w (mset vs)" unfolding t by (rule swap_remove_mset [OF best_index(1) [OF assms(1)]])
  show "\<forall>v \<in> set ws. prio w \<le> prio v" using best_index(2) [OF assms(1), of prio] t(1) by (auto simp: in_set_conv_nth)
qed

section \<open>Calls that wait\<close>

text \<open>
  \<open>waits P A ws calls slack\<close>, with the parked tasks \<open>P\<close> and the active tasks \<open>A\<close>: of the tasks in a
  blocking call, those in the list \<open>ws\<close> wait and the others have been woken and can run; and while
  somebody waits, at least \<open>slack\<close> have been woken.
\<close>

definition waits :: "nat set \<Rightarrow> nat set \<Rightarrow> nat list \<Rightarrow> nat set \<Rightarrow> nat \<Rightarrow> bool" where
  "waits P A ws calls slack \<longleftrightarrow> distinct ws \<and> set ws \<subseteq> P \<and> set ws \<subseteq> calls \<and> calls - set ws \<subseteq> A \<and>
     (ws \<noteq> [] \<longrightarrow> slack \<le> card (calls - set ws))"

lemma waits_less: "waits P A ws calls n \<Longrightarrow> m \<le> n \<Longrightarrow> waits P A ws calls m"
  by (auto simp: waits_def)

lemma waits_nil: "waits P A [] calls n \<Longrightarrow> waits P A [] calls m"
  by (simp add: waits_def)

context parking
begin

lemma waits_env:
  "ok k \<Longrightarrow> env k k' \<Longrightarrow> running k \<notin> calls \<or> running k \<in> set ws \<Longrightarrow>
   waits (parked k) (active k) ws calls n \<Longrightarrow> waits (parked k') (active k') ws calls n"
  using env_parked env_active unfolding waits_def by blast

lemma waits_wake_other:
  "ok k \<Longrightarrow> w \<in> parked k \<Longrightarrow> w \<notin> calls \<Longrightarrow>
   waits (parked k) (active k) ws calls n \<Longrightarrow> waits (parked (wake w k)) (active (wake w k)) ws calls n"
  using wake_parked wake_active unfolding waits_def by blast

lemma finite_woken: "ok k \<Longrightarrow> waits (parked k) (active k) ws calls n \<Longrightarrow> finite (calls - set ws)"
  using bounded by (meson finite_lessThan finite_subset le_supE waits_def)

lemma waits_wake:
  assumes "ok k" "waits (parked k) (active k) ws calls n" "ws \<noteq> []" "take_best prio ws = (w, vs)"
  shows "waits (parked (wake w k)) (active (wake w k)) vs calls (Suc n)" and "w \<in> parked k" and "w \<in> calls"
proof -
  have ms: "mset ws = add_mset w (mset vs)" by (rule take_best [OF assms(3,4)])
  then have set: "set ws = insert w (set vs)" by (metis set_mset_add_mset_insert set_mset_mset)
  then show w: "w \<in> parked k" "w \<in> calls" using assms(2) by (auto simp: waits_def)
  have l: "distinct vs" "set vs \<subseteq> parked (wake w k)" "w \<notin> set vs"
    using leave_waiters [OF assms(1) _ _ ms] assms(2) by (auto simp: waits_def)
  have e: "calls - set vs = insert w (calls - set ws)" "w \<notin> calls - set ws" using set w(2) l(3) by auto
  then have "card (calls - set vs) = Suc (card (calls - set ws))"
    using finite_woken [OF assms(1,2)] by simp
  moreover have "calls - set vs \<subseteq> active (wake w k)"
    unfolding e(1) using wake_active [OF assms(1) w(1)] assms(2) by (auto simp: waits_def)
  ultimately show "waits (parked (wake w k)) (active (wake w k)) vs calls (Suc n)"
    using assms(2,3) l set by (auto simp: waits_def)
qed

text \<open>The running task returns from its call.\<close>

lemma waits_return:
  assumes "ok k" "running k \<noteq> none" "waits (parked k) (active k) ws calls n"
  shows "waits (parked k) (active k) ws (calls - {running k}) (n - 1)"
proof -
  have r: "running k \<notin> set ws"
    using running_not_parked [OF assms(1,2)] assms(3) by (auto simp: waits_def)
  have "calls - {running k} - set ws = calls - set ws - {running k}" by blast
  moreover have "n \<le> card (calls - set ws) \<Longrightarrow> n - 1 \<le> card (calls - set ws - {running k})"
    using finite_woken [OF assms(1,3)] by (cases "running k \<in> calls - set ws") simp_all
  ultimately show ?thesis using assms(3) r by (auto simp: waits_def)
qed

text \<open>The running task waits in its call.\<close>

lemma waits_park:
  assumes "ok k" "running k \<noteq> none" "waits (parked k) (active k) ws calls n"
  shows "waits (parked (park k)) (active (park k)) (ws @ [running k]) (insert (running k) calls) 0 \<and> length ws < bound"
  using join_waiters [OF assms(1,2), of ws] park_active [OF assms(1,2)] assms(3) by (auto simp: waits_def)

lemma waits_park_other:
  assumes "ok k" "running k \<noteq> none" "running k \<notin> calls" "waits (parked k) (active k) ws calls n"
  shows "waits (parked (park k)) (active (park k)) ws calls n"
  using park_parked [OF assms(1,2)] park_active [OF assms(1,2)] assms(3,4) by (auto simp: waits_def)

end

end
