(* ===== verification/Kernel.thy ===== *)
theory Kernel
  imports Scheduler Waiters
begin

text \<open>
  The scheduler of src/rtos/scheduler.cpp as the provider of the contract \<open>parking\<close>, on which the
  synchronisation objects rest: \<open>block_current\<close> parks the running task, only \<open>unblock\<close> wakes it, and
  delays, ticks, new and ended tasks leave it parked. Suspending tasks is outside the contract.
\<close>

section \<open>The contract with the synchronisation objects\<close>

text \<open>
  A parked task is blocked with no tick to resume at. \<open>clean\<close>: only blocked tasks have one; the
  calls that suspend tasks break this, and with them the contract.
\<close>

definition parked :: "sched \<Rightarrow> nat set" where
  "parked s = {t. t < length (tasks s) \<and> state (tasks s ! t) = BLOCKED \<and> resume_tick (tasks s ! t) = 0}"

definition active :: "sched \<Rightarrow> nat set" where
  "active s = {t. t < length (tasks s) \<and> (state (tasks s ! t) = READY \<or> state (tasks s ! t) = RUNNING)}"

definition clean :: "sched \<Rightarrow> bool" where
  "clean s \<longleftrightarrow> (\<forall>t < length (tasks s). state (tasks s ! t) \<noteq> BLOCKED \<longrightarrow> resume_tick (tasks s ! t) = 0)"

definition kernel_ok :: "sched \<Rightarrow> bool" where
  "kernel_ok s \<longleftrightarrow> sched_ok s \<and> clean s"

inductive benign :: "sched \<Rightarrow> sched \<Rightarrow> bool" where
  b_create: "benign s (snd (xTaskCreate p s))"
| b_start: "current s = INVALID_TASK \<Longrightarrow> benign s (vTaskStartScheduler s)"
| b_delay: "benign s (vTaskDelay n s)"
| b_tick: "benign s (tick n s)"
| b_end: "current s \<noteq> INVALID_TASK \<Longrightarrow> benign s (task_end s)"

text \<open>Changes of the task list seen by one task.\<close>

definition keeps_parked :: "tcb \<Rightarrow> tcb \<Rightarrow> bool" where
  "keeps_parked x y \<longleftrightarrow>
     (state y = BLOCKED \<and> resume_tick y = 0 \<longleftrightarrow> state x = BLOCKED \<and> resume_tick x = 0) \<and>
     (state x = READY \<or> state x = RUNNING \<longrightarrow> state y = READY \<or> state y = RUNNING) \<and>
     ((state x \<noteq> BLOCKED \<longrightarrow> resume_tick x = 0) \<longrightarrow> (state y \<noteq> BLOCKED \<longrightarrow> resume_tick y = 0)) \<and>
     priority y = priority x"

lemma task_step_parked: "task_step now x y \<Longrightarrow> keeps_parked x y"
  by (auto simp: task_step_def keeps_parked_def sleeping_def)

lemma schedule_parked:
  assumes "length (tasks s) \<le> MAX_TASKS"
  shows "length (tasks (schedule_from p s)) = length (tasks s)"
    and "parked (schedule_from p s) = parked s"
    and "active s \<subseteq> active (schedule_from p s)"
    and "clean s \<Longrightarrow> clean (schedule_from p s)"
    and "get_priority t (schedule_from p s) = get_priority t s"
proof -
  have *: "length (tasks (schedule_from p s)) = length (tasks s)"
    "\<forall>t < length (tasks s). keeps_parked (tasks s ! t) (tasks (schedule_from p s) ! t)"
    using schedule_from_tasks [OF assms, of p] task_step_parked by (auto simp: list_all2_conv_all_nth)
  then show "length (tasks (schedule_from p s)) = length (tasks s)"
    "parked (schedule_from p s) = parked s" "active s \<subseteq> active (schedule_from p s)"
    "clean s \<Longrightarrow> clean (schedule_from p s)" "get_priority t (schedule_from p s) = get_priority t s"
    by (auto simp: parked_def active_def clean_def keeps_parked_def get_priority_def)
qed

lemma wake_due_parked:
  "parked (wake_due s) = parked s" "active s \<subseteq> active (wake_due s)" "clean s \<Longrightarrow> clean (wake_due s)"
  "get_priority t (wake_due s) = get_priority t s"
proof -
  have "keeps_parked (tasks s ! t) (tasks (wake_due s) ! t)" if "t < length (tasks s)" for t
    using that by (auto simp: keeps_parked_def wake_due_def sleeping_def)
  then show "parked (wake_due s) = parked s" "active s \<subseteq> active (wake_due s)" "clean s \<Longrightarrow> clean (wake_due s)"
    "get_priority t (wake_due s) = get_priority t s"
    by (auto simp: parked_def active_def clean_def keeps_parked_def get_priority_def)
qed

text \<open>A running task that changes its state and yields.\<close>

lemma yield_parked:
  assumes ok: "kernel_ok s" and c: "current s \<noteq> INVALID_TASK"
    and s': "tasks s' = (tasks s)[current s := x]" and x: "state x \<noteq> BLOCKED \<Longrightarrow> resume_tick x = 0"
  defines "u \<equiv> schedule_from (current s) s'"
  shows "parked u = (if state x = BLOCKED \<and> resume_tick x = 0 then insert (current s) (parked s) else parked s)"
    and "active s - {current s} \<subseteq> active u" and "clean u"
    and "priority x = priority (tasks s ! current s) \<Longrightarrow> get_priority t u = get_priority t s"
proof -
  have c: "current s < length (tasks s)" "state (tasks s ! current s) = RUNNING"
    using ok c by (simp_all add: kernel_ok_def ok_current)
  have l: "length (tasks s') \<le> MAX_TASKS" using ok ok_length s' by (simp add: kernel_ok_def)
  have n: "tasks s' ! t = (if t = current s then x else tasks s ! t)" for t
    using c(1) by (simp add: s')
  have ls: "length (tasks s') = length (tasks s)" by (simp add: s')
  have p: "parked s' = (if state x = BLOCKED \<and> resume_tick x = 0 then insert (current s) (parked s) else parked s)"
    using c n ls by (auto simp: parked_def)
  have a: "active s - {current s} \<subseteq> active s'" using n ls by (auto simp: active_def)
  have "clean s'" using ok n x ls by (auto simp: clean_def kernel_ok_def)
  then show "clean u" unfolding u_def by (rule schedule_parked(4) [OF l])
  show "parked u = (if state x = BLOCKED \<and> resume_tick x = 0 then insert (current s) (parked s) else parked s)"
    using p unfolding u_def schedule_parked(2) [OF l] .
  show "active s - {current s} \<subseteq> active u" using a schedule_parked(3) [OF l] unfolding u_def by blast
  show "get_priority t u = get_priority t s" if "priority x = priority (tasks s ! current s)"
    unfolding u_def schedule_parked(5) [OF l] using n that ls by (simp add: get_priority_def)
qed

lemma running_clean:
  "kernel_ok s \<Longrightarrow> current s \<noteq> INVALID_TASK \<Longrightarrow>
   current s < length (tasks s) \<and> state (tasks s ! current s) = RUNNING \<and> resume_tick (tasks s ! current s) = 0"
  using ok_current [of s] by (auto simp: kernel_ok_def clean_def)

text \<open>\<open>block_current\<close> parks the running task and no other.\<close>

lemma block_parks:
  assumes "kernel_ok s" "current s \<noteq> INVALID_TASK"
  shows "kernel_ok (block_current s)" and "parked (block_current s) = insert (current s) (parked s)"
    and "active s - {current s} \<subseteq> active (block_current s)"
    and "get_priority t (block_current s) = get_priority t s"
proof -
  let ?x = "(tasks s ! current s)\<lparr>state := BLOCKED\<rparr>"
  have b: "block_current s = schedule_from (current s) (set_state (current s) BLOCKED s)"
    using assms(2) by (simp add: block_current_def)
  have s': "tasks (set_state (current s) BLOCKED s) = (tasks s)[current s := ?x]" by (simp add: set_state_def)
  have r: "resume_tick ?x = 0" using running_clean [OF assms] by simp
  note y = yield_parked [OF assms s' r]
  show "parked (block_current s) = insert (current s) (parked s)"
    "active s - {current s} \<subseteq> active (block_current s)" "get_priority t (block_current s) = get_priority t s"
    unfolding b using y r by simp_all
  have "sched_ok (block_current s)" using assms(1) kstep_ok [OF k_block] by (simp add: kernel_ok_def)
  then show "kernel_ok (block_current s)" using y(3) unfolding kernel_ok_def b by simp
qed

text \<open>A task made ready, and \<open>unblock\<close>.\<close>

lemma ready_parked:
  assumes ok: "kernel_ok s" and t: "t \<in> parked s"
  shows "kernel_ok (set_state t READY s)" and "parked (set_state t READY s) = parked s - {t}"
    and "insert t (active s) \<subseteq> active (set_state t READY s)"
    and "get_priority u (set_state t READY s) = get_priority u s"
proof -
  have l: "t < length (tasks s)" "state (tasks s ! t) = BLOCKED" "resume_tick (tasks s ! t) = 0"
    using t by (simp_all add: parked_def)
  then have "t \<noteq> current s" using ok_current [of s] ok_invalid [of s t] ok by (auto simp: kernel_ok_def)
  then have "sched_ok (set_state t READY s)" using ok by (auto simp: kernel_ok_def intro: other_ok)
  then show "kernel_ok (set_state t READY s)" using ok l by (auto simp: kernel_ok_def clean_def)
  show "parked (set_state t READY s) = parked s - {t}" using l by (auto simp: parked_def)
  show "insert t (active s) \<subseteq> active (set_state t READY s)" using l by (auto simp: active_def)
  show "get_priority u (set_state t READY s) = get_priority u s" using l by (simp add: get_priority_def)
qed

lemma preempt_parked:
  assumes ok: "kernel_ok s" "current s \<noteq> INVALID_TASK"
  defines "u \<equiv> schedule_from (current s) (set_state (current s) READY s)"
  shows "kernel_ok u" and "parked u = parked s" and "active s \<subseteq> active u" and "get_priority t u = get_priority t s"
proof -
  let ?x = "(tasks s ! current s)\<lparr>state := READY\<rparr>"
  have s': "tasks (set_state (current s) READY s) = (tasks s)[current s := ?x]" by (simp add: set_state_def)
  have r: "resume_tick ?x = 0" using running_clean [OF ok] by simp
  note y = yield_parked [OF ok s' r]
  show "parked u = parked s" "get_priority t u = get_priority t s" unfolding u_def using y by simp_all
  have l: "length (tasks (set_state (current s) READY s)) \<le> MAX_TASKS"
    using ok(1) by (simp add: kernel_ok_def ok_length)
  have "active s \<subseteq> active (set_state (current s) READY s)"
    using running_clean [OF ok] by (auto simp: active_def)
  then show "active s \<subseteq> active u" unfolding u_def using schedule_parked(3) [OF l] by blast
  have "sched_ok u" unfolding u_def
    by (rule yield_state_ok) (use ok running_clean [OF ok] in \<open>simp_all add: kernel_ok_def\<close>)
  then show "kernel_ok u" using y(3) unfolding kernel_ok_def u_def by simp
qed

lemma unblock_wakes:
  assumes ok: "kernel_ok s" and t: "t \<in> parked s"
  shows "kernel_ok (unblock t s)" and "parked (unblock t s) = parked s - {t}"
    and "insert t (active s) \<subseteq> active (unblock t s)" and "get_priority u (unblock t s) = get_priority u s"
proof -
  let ?r = "set_state t READY s"
  note r = ready_parked [OF ok t]
  have l: "t < length (tasks s)" "state (tasks s ! t) = BLOCKED" using t by (simp_all add: parked_def)
  consider "unblock t s = ?r" | "unblock t s = schedule_from (current ?r) (set_state (current ?r) READY ?r)"
      "current ?r \<noteq> INVALID_TASK"
    using l by (cases "current s \<noteq> INVALID_TASK \<and> priority (tasks ?r ! t) < priority (tasks ?r ! current s)")
      (simp_all add: unblock_def Let_def del: set_state_simps(4))
  then show "kernel_ok (unblock t s)" "parked (unblock t s) = parked s - {t}"
    "insert t (active s) \<subseteq> active (unblock t s)" "get_priority u (unblock t s) = get_priority u s"
    using r preempt_parked [OF r(1)] by (cases; metis order_trans)+
qed

text \<open>The other calls leave parked tasks parked.\<close>

lemma delay_parked:
  assumes ok: "kernel_ok s"
  shows "kernel_ok (vTaskDelay n s) \<and> parked s \<subseteq> parked (vTaskDelay n s) \<and>
    active s - {current s} \<subseteq> active (vTaskDelay n s) \<and> get_priority t (vTaskDelay n s) = get_priority t s"
proof (cases "current s = INVALID_TASK")
  case False
  have "sched_ok (vTaskDelay n s)" using ok kstep_ok [OF k_delay] by (simp add: kernel_ok_def)
  moreover have "parked s \<subseteq> parked (vTaskDelay n s) \<and> active s - {current s} \<subseteq> active (vTaskDelay n s) \<and>
      clean (vTaskDelay n s) \<and> get_priority t (vTaskDelay n s) = get_priority t s"
  proof (cases "n = 0")
    case True
    then have "vTaskDelay n s = schedule_from (current s) (set_state (current s) READY s)"
      using False by (simp add: vTaskDelay_def)
    then show ?thesis using preempt_parked [OF ok False] by (auto simp: kernel_ok_def)
  next
    case n: False
    let ?x = "(tasks s ! current s)\<lparr>resume_tick := tick_count s + n, state := BLOCKED\<rparr>"
    let ?s = "s\<lparr>tasks := (tasks s)[current s := (tasks s ! current s)\<lparr>resume_tick := tick_count s + n\<rparr>]\<rparr>"
    have s': "tasks (set_state (current s) BLOCKED ?s) = (tasks s)[current s := ?x]"
      using running_clean [OF ok False] by (simp add: set_state_def)
    have "vTaskDelay n s = schedule_from (current s) (set_state (current s) BLOCKED ?s)"
      using n False by (simp add: vTaskDelay_def Let_def)
    then show ?thesis using yield_parked [OF ok False s'] by auto
  qed
  ultimately show ?thesis by (simp add: kernel_ok_def)
qed (use ok in \<open>simp add: vTaskDelay_def\<close>)

lemma tick_parked:
  assumes ok: "kernel_ok s"
  shows "kernel_ok (tick n s) \<and> parked s = parked (tick n s) \<and> active s \<subseteq> active (tick n s) \<and>
    get_priority t (tick n s) = get_priority t s"
proof -
  let ?a = "s\<lparr>tick_count := tick_count s + n\<rparr>"
  let ?s = "wake_due ?a"
  have "kernel_ok ?s"
    using ok wake_ok [of s] wake_due_parked(3) [where s = ?a] by (simp add: kernel_ok_def clean_def)
  moreover have "parked ?s = parked s" "active s \<subseteq> active ?s" "get_priority t ?s = get_priority t s"
    using wake_due_parked [where s = ?a] by (simp_all add: parked_def active_def get_priority_def)
  moreover have "tick n s = ?s \<or> current ?s \<noteq> INVALID_TASK \<and>
      tick n s = schedule_from (current ?s) (set_state (current ?s) READY ?s)"
    unfolding tick_def Let_def by presburger
  ultimately show ?thesis
    using preempt_parked [of ?s] by (elim disjE; metis order_trans)
qed

lemma create_parked:
  assumes ok: "kernel_ok s"
  shows "kernel_ok (snd (xTaskCreate p s)) \<and> parked s = parked (snd (xTaskCreate p s)) \<and>
    active s \<subseteq> active (snd (xTaskCreate p s))"
  using ok create_ok [of s p]
  by (auto simp: kernel_ok_def clean_def parked_def active_def xTaskCreate_def nth_append less_Suc_eq)

lemma start_parked:
  assumes ok: "kernel_ok s" and c: "current s = INVALID_TASK"
  shows "kernel_ok (vTaskStartScheduler s) \<and> parked s = parked (vTaskStartScheduler s) \<and>
    active s \<subseteq> active (vTaskStartScheduler s)"
proof (cases "select_next s = INVALID_TASK")
  case False
  have l: "length (tasks s) \<le> MAX_TASKS" using ok by (simp add: kernel_ok_def ok_length)
  note r = select_ready [OF l False]
  have "sched_ok (vTaskStartScheduler s)" using ok kstep_ok [OF k_start [OF c]] by (simp add: kernel_ok_def)
  then show ?thesis using ok r False
    by (auto simp: kernel_ok_def clean_def parked_def active_def vTaskStartScheduler_def Let_def)
qed (use ok in \<open>simp add: vTaskStartScheduler_def\<close>)

lemma end_parked:
  assumes ok: "kernel_ok s" and c: "current s \<noteq> INVALID_TASK"
  shows "kernel_ok (task_end s) \<and> parked s = parked (task_end s) \<and> active s - {current s} \<subseteq> active (task_end s)"
proof -
  let ?x = "(tasks s ! current s)\<lparr>state := DELETED\<rparr>"
  have e: "task_end s = schedule_from (current s) (set_state (current s) DELETED s)"
    using ok c by (simp add: kernel_ok_def task_end_eq)
  have s': "tasks (set_state (current s) DELETED s) = (tasks s)[current s := ?x]" by (simp add: set_state_def)
  have "resume_tick ?x = 0" using running_clean [OF ok c] by simp
  note y = yield_parked [OF ok c s' this]
  have "sched_ok (task_end s)" using ok kstep_ok [OF k_end [OF c]] by (simp add: kernel_ok_def)
  then show ?thesis using y unfolding kernel_ok_def e by simp
qed

lemma benign_parked:
  "benign s t \<Longrightarrow> kernel_ok s \<Longrightarrow> kernel_ok t \<and> parked s \<subseteq> parked t \<and> active s - {current s} \<subseteq> active t"
proof (induction rule: benign.induct)
  case (b_create s p)
  then show ?case using create_parked [of s p] by auto
next
  case (b_start s)
  then show ?case using start_parked [of s] by auto
next
  case (b_delay s n)
  then show ?case using delay_parked [of s n] by simp
next
  case (b_tick s n)
  then show ?case using tick_parked [of s n] by auto
next
  case (b_end s)
  then show ?case using end_parked [of s] by auto
qed

interpretation kernel: parking kernel_ok current INVALID_TASK MAX_TASKS parked active block_current unblock benign
proof
  fix k k' t assume ok: "kernel_ok k"
  show "parked k \<inter> active k = {}" by (auto simp: parked_def active_def)
  show "parked k \<union> active k \<subseteq> {..< MAX_TASKS}"
    using ok ok_length [of k] by (auto simp: parked_def active_def kernel_ok_def)
  show "kernel_ok (unblock t k)" "parked (unblock t k) = parked k - {t}"
    "insert t (active k) \<subseteq> active (unblock t k)" if "t \<in> parked k"
    using unblock_wakes(1-3) [OF ok that] by simp_all
  show "kernel_ok k'" "parked k \<subseteq> parked k'" "active k - {current k} \<subseteq> active k'" if "benign k k'"
    using benign_parked [OF that ok] by simp_all
  assume c: "current k \<noteq> INVALID_TASK"
  show "current k \<in> active k" using running_clean [OF ok c] by (simp add: active_def)
  show "kernel_ok (block_current k)" "parked (block_current k) = insert (current k) (parked k)"
    "active k - {current k} \<subseteq> active (block_current k)"
    using block_parks(1-3) [OF ok c] by simp_all
qed

end
