(* ===== verification/Sched_Time.thy ===== *)
theory Sched_Time
  imports Kernel
begin

text \<open>
  What the scheduler of src/rtos/scheduler.cpp promises: which task it selects and that equal
  priorities take turns, that the loop that advances the time ends, and when sleeping tasks wake.
\<close>

section \<open>Selection\<close>

text \<open>How many places after the start of the round robin a task stands.\<close>

definition turns :: "sched \<Rightarrow> nat \<Rightarrow> nat" where
  "turns s t = (t + (length (tasks s) - start_of s mod length (tasks s))) mod length (tasks s)"

lemma start_less: "tasks s \<noteq> [] \<Longrightarrow> start_of s < length (tasks s)"
  by (simp add: start_of_def)

lemma turns_add:
  assumes "k < length (tasks s)"
  shows "turns s ((start_of s + k) mod length (tasks s)) = k"
proof -
  let ?n = "length (tasks s)"
  have n: "start_of s < ?n" using assms start_less [of s] by force
  have "turns s ((start_of s + k) mod ?n) = (start_of s + k + (?n - start_of s)) mod ?n"
    unfolding turns_def mod_less [OF n] by (rule mod_add_left_eq)
  also have "start_of s + k + (?n - start_of s) = k + ?n" using n by simp
  finally show ?thesis using assms by simp
qed

lemma turns_inverse:
  assumes "t < length (tasks s)"
  shows "(start_of s + turns s t) mod length (tasks s) = t" and "turns s t < length (tasks s)"
  using turns_add reach_index [OF assms, of "start_of s"] by auto

lemma selected:
  assumes "length (tasks s) \<le> MAX_TASKS"
  shows "(select_next s = INVALID_TASK \<longleftrightarrow> (\<forall>t < length (tasks s). state (tasks s ! t) = READY \<longrightarrow> priority (tasks s ! t) = 0xFF))"
    and "select_next s \<noteq> INVALID_TASK \<Longrightarrow> ready_at (priority (tasks s ! select_next s)) s (select_next s) \<and>
      (\<forall>u < length (tasks s). state (tasks s ! u) = READY \<longrightarrow>
         priority (tasks s ! select_next s) < priority (tasks s ! u) \<or>
         (priority (tasks s ! select_next s) = priority (tasks s ! u) \<and> turns s (select_next s) \<le> turns s u))"
proof -
  let ?b = "best_prio (tasks s)"
  have "?b = 0xFF \<Longrightarrow> (\<forall>t < length (tasks s). state (tasks s ! t) = READY \<longrightarrow> priority (tasks s ! t) = 0xFF)"
  proof (intro allI impI)
    fix t assume "?b = 0xFF" "t < length (tasks s)" "state (tasks s ! t) = READY"
    then have "0xFF \<le> priority (tasks s ! t)" using best_prio_le [of t s] by simp
    then show "priority (tasks s ! t) = 0xFF" using unsigned_less [where w = "priority (tasks s ! t)" and 'a = nat]
      by (simp add: word_le_nat_alt word_unat_eq_iff)
  qed
  moreover have "?b \<noteq> 0xFF \<Longrightarrow> \<exists>t < length (tasks s). state (tasks s ! t) = READY \<and> priority (tasks s ! t) \<noteq> 0xFF"
    using best_prio_ready [of s] by (auto simp: ready_at_def)
  ultimately show "(select_next s = INVALID_TASK \<longleftrightarrow> (\<forall>t < length (tasks s). state (tasks s ! t) = READY \<longrightarrow> priority (tasks s ! t) = 0xFF))"
    using select_cases [OF assms] by metis
  assume "select_next s \<noteq> INVALID_TASK"
  then obtain k where k: "ready_at ?b s (select_next s)" "k < length (tasks s)"
      "select_next s = (start_of s + k) mod length (tasks s)"
      "\<forall>j < k. \<not> ready_at ?b s ((start_of s + j) mod length (tasks s))"
    using select_cases [OF assms] by blast
  have p: "priority (tasks s ! select_next s) = ?b" using k(1) by (simp add: ready_at_def)
  have t: "turns s (select_next s) = k" using turns_add [OF k(2)] k(3) by simp
  show "ready_at (priority (tasks s ! select_next s)) s (select_next s) \<and>
      (\<forall>u < length (tasks s). state (tasks s ! u) = READY \<longrightarrow>
         priority (tasks s ! select_next s) < priority (tasks s ! u) \<or>
         (priority (tasks s ! select_next s) = priority (tasks s ! u) \<and> turns s (select_next s) \<le> turns s u))"
    unfolding p t
  proof (intro conjI allI impI)
    show "ready_at ?b s (select_next s)" by (rule k(1))
    fix u assume u: "u < length (tasks s)" "state (tasks s ! u) = READY"
    show "?b < priority (tasks s ! u) \<or> (?b = priority (tasks s ! u) \<and> k \<le> turns s u)"
    proof (cases "?b = priority (tasks s ! u)")
      case True
      then have "ready_at ?b s ((start_of s + turns s u) mod length (tasks s))"
        using u turns_inverse(1) [OF u(1)] by (simp add: ready_at_def)
      then show ?thesis using k(4) True by (metis not_less)
    next
      case False
      then show ?thesis using best_prio_le [OF u] by (simp add: order_less_le)
    qed
  qed
qed

section \<open>The end of the discrete-event loop\<close>

text \<open>The loop of \<open>schedule_from\<close> with a bound on its iterations.\<close>

primrec des_loop :: "nat \<Rightarrow> nat \<Rightarrow> sched \<Rightarrow> sched option" where
  "des_loop 0 prev s = None"
| "des_loop (Suc n) prev s =
     (let next = select_next s in
      if next \<noteq> INVALID_TASK then
        Some (if next = prev then set_state prev RUNNING s
              else set_state next RUNNING (s\<lparr>current := next\<rparr>))
      else if earliest (tasks s) = 0xFFFFFFFF then Some (s\<lparr>current := INVALID_TASK\<rparr>)
      else des_loop n prev (wake_due (s\<lparr>tick_count := earliest (tasks s)\<rparr>)))"

lemma des_loop_ends: "sleepers s < n \<Longrightarrow> des_loop n p s = Some (schedule_from p s)"
proof (induction n arbitrary: s)
  case (Suc n)
  show ?case
  proof (cases "earliest (tasks s) = 0xFFFFFFFF")
    case True
    then show ?thesis by (simp add: schedule_from.simps [of p s] Let_def)
  next
    case False
    have "sleepers (wake_due (s\<lparr>tick_count := earliest (tasks s)\<rparr>)) < n"
      using wake_sleepers [OF False] Suc.prems by simp
    from Suc.IH [OF this] show ?thesis
      by (simp add: schedule_from.simps [of p s] Let_def)
  qed
qed simp

section \<open>Equal priorities take turns\<close>

text \<open>The current task has the best priority of all that could run.\<close>

definition leads :: "sched \<Rightarrow> bool" where
  "leads s \<longleftrightarrow> sched_ok s \<and> current s \<noteq> INVALID_TASK \<and> priority (tasks s ! current s) \<noteq> 0xFF \<and>
     (\<forall>u < length (tasks s). state (tasks s ! u) = READY \<longrightarrow> priority (tasks s ! current s) \<le> priority (tasks s ! u))"

lemma yield_turn:
  assumes l: "leads s" and t: "ready_at (priority (tasks s ! current s)) s t"
  defines "r \<equiv> set_state (current s) READY s" and "s' \<equiv> vTaskDelay 0 s"
  shows "current s' = t \<or> (leads s' \<and> length (tasks s') = length (tasks s) \<and>
    ready_at (priority (tasks s' ! current s')) s' t \<and> turns s' t < turns s t)"
proof -
  let ?n = "length (tasks s)" and ?c = "current s" and ?p = "priority (tasks s ! current s)"
  have ok: "sched_ok s" and c: "?c \<noteq> INVALID_TASK" using l by (simp_all add: leads_def)
  note cur = ok_current [OF ok c]
  have r: "length (tasks r) = ?n" "current r = ?c" "tasks r ! u = (if u = ?c then (tasks s ! ?c)\<lparr>state := READY\<rparr> else tasks s ! u)" for u
    using cur by (simp_all add: r_def)
  have lr: "length (tasks r) \<le> MAX_TASKS" using ok_length [OF ok] by (simp add: r_def)
  have st: "start_of r = start_of s" by (simp add: start_of_def r)
  have tu: "turns r u = turns s u" for u by (simp add: turns_def st r)
  have tc: "t \<noteq> ?c" using t cur by (auto simp: ready_at_def)
  have tr: "ready_at ?p r t" using t tc r by (simp add: ready_at_def)
  let ?x = "select_next r"
  have x: "?x \<noteq> INVALID_TASK" using selected(1) [OF lr] tr l by (auto simp: ready_at_def leads_def)
  note sel = selected(2) [OF lr x]
  have px: "priority (tasks r ! ?x) = ?p"
  proof (rule antisym)
    show "priority (tasks r ! ?x) \<le> ?p" using sel tr by (force simp: ready_at_def)
    have "?x < ?n \<and> state (tasks r ! ?x) = READY" using sel r(1) by (simp add: ready_at_def)
    then show "?p \<le> priority (tasks r ! ?x)" using l r(3) [of ?x] by (cases "?x = ?c") (simp_all add: leads_def)
  qed
  have xl: "?x < ?n" using sel r(1) by (simp add: ready_at_def)
  have s': "s' = set_state ?x RUNNING (r\<lparr>current := ?x\<rparr>)"
    using c x r(2) unfolding s'_def vTaskDelay_def r_def [symmetric]
    by (auto simp: schedule_from.simps [of "current s" r] Let_def set_state_def)
  have n': "tasks s' ! u = (if u = ?x then (tasks r ! ?x)\<lparr>state := RUNNING\<rparr> else tasks r ! u)"
    "length (tasks s') = ?n" "current s' = ?x" for u
    using xl r(1) by (simp_all add: s')
  show ?thesis
  proof (cases "?x = t")
    case False
    have "turns r ?x \<le> turns r t" using sel tr px by (auto simp: ready_at_def)
    moreover have "turns r ?x \<noteq> turns r t"
      using False turns_inverse(1) [of ?x r] turns_inverse(1) [of t r] xl t r(1) by (auto simp: ready_at_def)
    ultimately have j: "turns s ?x < turns s t" by (simp add: tu)
    let ?j = "turns s ?x" and ?k = "turns s t"
    have t_less: "t < ?n" using t by (simp add: ready_at_def)
    have k: "?k < ?n" by (rule turns_inverse(2) [OF t_less])
    have "start_of s' = (?x + 1) mod ?n" using n'(2,3) x by (simp add: start_of_def)
    also have "\<dots> = (start_of s + ?j + 1) mod ?n"
      using turns_inverse(1) [OF xl] mod_add_left_eq [of "start_of s + ?j" ?n 1] by simp
    finally have "(start_of s' + (?k - ?j - 1)) mod ?n = (start_of s + ?j + 1 + (?k - ?j - 1)) mod ?n"
      by (simp only: mod_add_left_eq)
    also have "start_of s + ?j + 1 + (?k - ?j - 1) = start_of s + ?k" using j by simp
    finally have "t = (start_of s' + (?k - ?j - 1)) mod length (tasks s')"
      using turns_inverse(1) [OF t_less] n'(2) by simp
    then have "turns s' t = ?k - ?j - 1" using turns_add [of "?k - ?j - 1" s'] n'(2) k by simp
    then have "turns s' t < turns s t" using j by simp
    moreover have "ready_at (priority (tasks s' ! current s')) s' t"
      using n' px tr False r(1) by (simp add: ready_at_def)
    moreover have "sched_ok s'" unfolding s'_def by (rule delay_ok [OF ok c])
    moreover have "leads s'"
      unfolding leads_def
    proof (intro conjI allI impI)
      fix u assume u: "u < length (tasks s')" "state (tasks s' ! u) = READY"
      then have "u \<noteq> ?x" "state (tasks r ! u) = READY" "u < ?n" using n' by (auto split: if_splits)
      then show "priority (tasks s' ! current s') \<le> priority (tasks s' ! u)"
        using n' px l r(3) [of u] by (cases "u = ?c") (simp_all add: leads_def)
    qed (use \<open>sched_ok s'\<close> n' x px l in \<open>simp_all add: leads_def\<close>)
    ultimately show ?thesis using n'(2) by simp
  qed (use n'(3) in simp)
qed

lemma yields_reach:
  "leads s \<Longrightarrow> ready_at (priority (tasks s ! current s)) s t \<Longrightarrow>
   \<exists>m \<le> Suc (turns s t). current ((vTaskDelay 0 ^^ m) s) = t"
proof (induction "turns s t" arbitrary: s rule: less_induct)
  case less
  let ?s = "vTaskDelay 0 s"
  from yield_turn [OF less.prems] show ?case
  proof
    assume "current ?s = t"
    then show ?case by (intro exI [of _ 1]) simp
  next
    assume y: "leads ?s \<and> length (tasks ?s) = length (tasks s) \<and>
      ready_at (priority (tasks ?s ! current ?s)) ?s t \<and> turns ?s t < turns s t"
    then obtain m where "m \<le> Suc (turns ?s t)" "current ((vTaskDelay 0 ^^ m) ?s) = t"
      using less.hyps by blast
    then show ?case using y by (intro exI [of _ "Suc m"]) (simp add: funpow_swap1)
  qed
qed

section \<open>Sleeping\<close>

text \<open>
  The calls under the contract, with arguments that do not carry the tick counter past the end of
  its range (the last value stands for "no wake-up" in the code).
\<close>

definition in_range :: "u32 \<Rightarrow> sched \<Rightarrow> bool" where
  "in_range n s \<longleftrightarrow> unat (tick_count s) + unat n < 2 ^ 32 - 1"

inductive timed :: "sched \<Rightarrow> sched \<Rightarrow> bool" where
  t_create: "timed s (snd (xTaskCreate p s))"
| t_start: "current s = INVALID_TASK \<Longrightarrow> timed s (vTaskStartScheduler s)"
| t_delay: "in_range n s \<Longrightarrow> timed s (vTaskDelay n s)"
| t_tick: "in_range n s \<Longrightarrow> timed s (tick n s)"
| t_block: "current s \<noteq> INVALID_TASK \<Longrightarrow> timed s (block_current s)"
| t_unblock: "t \<in> parked s \<Longrightarrow> timed s (unblock t s)"
| t_end: "current s \<noteq> INVALID_TASK \<Longrightarrow> timed s (task_end s)"

inductive treach :: "sched \<Rightarrow> bool" where
  t_new: "treach new_sched"
| t_step: "treach s \<Longrightarrow> timed s t \<Longrightarrow> treach t"

definition on_time :: "sched \<Rightarrow> sched \<Rightarrow> bool" where
  "on_time s s' \<longleftrightarrow> tick_count s \<le> tick_count s' \<and> timely s' \<and> length (tasks s) \<le> length (tasks s') \<and>
     (\<forall>t < length (tasks s). sleeping (tasks s ! t) \<longrightarrow>
        tasks s' ! t = tasks s ! t \<or> (t \<in> active s' \<and> resume_tick (tasks s ! t) \<le> tick_count s'))"

lemma schedule_on_time:
  assumes "length (tasks s) \<le> MAX_TASKS" "timely s"
  shows "on_time s (schedule_from p s)"
proof -
  have "task_step now x y \<Longrightarrow> sleeping x \<Longrightarrow>
      y = x \<or> ((state y = READY \<or> state y = RUNNING) \<and> resume_tick x \<le> now)" for now x y
    by (auto simp: task_step_def sleeping_def)
  then show ?thesis
    using schedule_from_time [OF assms(2,1), of p] schedule_from_tasks [OF assms(1), of p]
    by (auto simp: on_time_def active_def list_all2_conv_all_nth)
qed

text \<open>A running task yields with a new entry that is not overdue.\<close>

lemma yield_on_time:
  assumes ok: "kernel_ok s" "current s \<noteq> INVALID_TASK" and ti: "timely s"
    and s': "tasks s' = (tasks s)[current s := x]" "tick_count s' = tick_count s"
    and x: "sleeping x \<Longrightarrow> tick_count s < resume_tick x"
  shows "on_time s (schedule_from (current s) s')"
proof -
  have c: "current s < length (tasks s)" "state (tasks s ! current s) = RUNNING"
    using running_clean [OF ok] by simp_all
  have l: "length (tasks s') = length (tasks s)" by (simp add: s')
  have n: "tasks s' ! t = (if t = current s then x else tasks s ! t)" for t using c(1) by (simp add: s')
  have "timely s'" using ti x n by (auto simp: timely_nth l s'(2))
  then have o: "on_time s' (schedule_from (current s) s')"
    using ok(1) l by (intro schedule_on_time) (simp_all add: kernel_ok_def ok_length)
  have "t \<noteq> current s" if "sleeping (tasks s ! t)" for t using that c(2) by (auto simp: sleeping_def)
  then show ?thesis using o n unfolding on_time_def l s'(2) by auto
qed

lemma on_time_refl: "timely s \<Longrightarrow> on_time s s"
  by (simp add: on_time_def)

lemma preempt_on_time:
  assumes "kernel_ok s" "current s \<noteq> INVALID_TASK" "timely s"
  shows "on_time s (schedule_from (current s) (set_state (current s) READY s))"
  by (rule yield_on_time [OF assms, of _ "(tasks s ! current s)\<lparr>state := READY\<rparr>"])
    (simp_all add: set_state_def sleeping_def)

lemma wake_on_time:
  "tick_count s \<le> n \<Longrightarrow> on_time s (wake_due (s\<lparr>tick_count := n\<rparr>))"
  using wake_timely [of "s\<lparr>tick_count := n\<rparr>"]
  by (auto simp: on_time_def wake_due_def active_def)

lemma on_time_trans:
  assumes "on_time s t" "on_time t u" "active t \<subseteq> active u" "length (tasks t) = length (tasks s)"
  shows "on_time s u"
  unfolding on_time_def
proof (intro conjI allI impI)
  show "tick_count s \<le> tick_count u" "timely u" "length (tasks s) \<le> length (tasks u)"
    using assms(1,2) by (auto simp: on_time_def)
  fix i assume i: "i < length (tasks s)" "sleeping (tasks s ! i)"
  have "resume_tick (tasks s ! i) \<le> tick_count t \<Longrightarrow> resume_tick (tasks s ! i) \<le> tick_count u"
    using assms(2) unfolding on_time_def by (blast intro: order_trans)
  then show "tasks u ! i = tasks s ! i \<or> (i \<in> active u \<and> resume_tick (tasks s ! i) \<le> tick_count u)"
    using i assms unfolding on_time_def by (metis subsetD)
qed

lemma ready_on_time:
  "t \<in> parked s \<Longrightarrow> timely s \<Longrightarrow> on_time s (set_state t READY s)"
  by (auto simp: on_time_def parked_def timely_nth sleeping_def)

lemma in_range_le: "in_range n s \<Longrightarrow> tick_count s \<le> tick_count s + n"
  and in_range_less: "in_range n s \<Longrightarrow> n \<noteq> 0 \<Longrightarrow> tick_count s < tick_count s + n"
  by (auto simp: in_range_def word_le_nat_alt word_less_nat_alt unat_word_ariths unat_gt_0)

lemma timed_on_time:
  "timed s s' \<Longrightarrow> kernel_ok s \<Longrightarrow> timely s \<Longrightarrow> on_time s s' \<and> kernel_ok s'"
proof (induction rule: timed.induct)
  case (t_create s p)
  then show ?case
    using create_parked [of s p]
    by (auto simp: on_time_def xTaskCreate_def timely_def sleeping_def nth_append)
next
  case (t_start s)
  have "on_time s (vTaskStartScheduler s)"
  proof (cases "select_next s = INVALID_TASK")
    case False
    have "length (tasks s) \<le> MAX_TASKS" using t_start by (simp add: kernel_ok_def ok_length)
    note r = select_ready [OF this False]
    then have "on_time s (set_state (select_next s) RUNNING (s\<lparr>current := select_next s\<rparr>))"
      using t_start by (auto simp: on_time_def timely_nth sleeping_def)
    then show ?thesis using False by (simp add: vTaskStartScheduler_def Let_def)
  qed (use t_start on_time_refl in \<open>simp add: vTaskStartScheduler_def\<close>)
  then show ?case using start_parked [of s] t_start by simp
next
  case (t_delay n s)
  have "on_time s (vTaskDelay n s)"
  proof (cases "current s = INVALID_TASK")
    case True
    then show ?thesis using t_delay on_time_refl by (simp add: vTaskDelay_def)
  next
    case c: False
    show ?thesis
    proof (cases "n = 0")
      case True
      then show ?thesis using preempt_on_time [of s] t_delay c by (simp add: vTaskDelay_def)
    next
      case False
      let ?x = "(tasks s ! current s)\<lparr>resume_tick := tick_count s + n, state := BLOCKED\<rparr>"
      let ?s = "s\<lparr>tasks := (tasks s)[current s := (tasks s ! current s)\<lparr>resume_tick := tick_count s + n\<rparr>]\<rparr>"
      have "tasks (set_state (current s) BLOCKED ?s) = (tasks s)[current s := ?x]"
        using running_clean [of s] t_delay c by (simp add: set_state_def)
      moreover have "tick_count s < tick_count s + n" using in_range_less [of n s] t_delay False by simp
      ultimately have "on_time s (schedule_from (current s) (set_state (current s) BLOCKED ?s))"
        using t_delay c by (intro yield_on_time [of s _ ?x]) simp_all
      then show ?thesis using False c by (simp add: vTaskDelay_def Let_def)
    qed
  qed
  then show ?case using delay_parked [of s n] t_delay by simp
next
  case (t_tick n s)
  let ?w = "wake_due (s\<lparr>tick_count := tick_count s + n\<rparr>)"
  have w: "on_time s ?w" using t_tick by (intro wake_on_time in_range_le)
  have k: "kernel_ok ?w" using t_tick wake_ok [of s] wake_due_parked(3) [where s = "s\<lparr>tick_count := tick_count s + n\<rparr>"]
    by (simp add: kernel_ok_def clean_def)
  have "tick n s = ?w \<or> current ?w \<noteq> INVALID_TASK \<and>
      tick n s = schedule_from (current ?w) (set_state (current ?w) READY ?w)"
    unfolding tick_def Let_def by presburger
  then have "on_time s (tick n s)"
  proof
    assume t: "current ?w \<noteq> INVALID_TASK \<and> tick n s = schedule_from (current ?w) (set_state (current ?w) READY ?w)"
    then show ?thesis
      using on_time_trans [OF w preempt_on_time [OF k]] preempt_parked(3) [OF k] w by (simp add: on_time_def)
  qed (use w in simp)
  then show ?case using tick_parked [of s n] t_tick by simp
next
  case (t_block s)
  let ?x = "(tasks s ! current s)\<lparr>state := BLOCKED\<rparr>"
  have "resume_tick ?x = 0" using running_clean [of s] t_block by simp
  then have "on_time s (schedule_from (current s) (set_state (current s) BLOCKED s))"
    using t_block by (intro yield_on_time [of s _ ?x]) (simp_all add: set_state_def sleeping_def)
  then show ?case using block_parks [of s] t_block by (simp add: block_current_def)
next
  case (t_unblock t s)
  let ?r = "set_state t READY s"
  note r = ready_parked [OF t_unblock(2,1)]
  have o: "on_time s ?r" using t_unblock by (intro ready_on_time)
  have "unblock t s = ?r \<or> current ?r \<noteq> INVALID_TASK \<and>
      unblock t s = schedule_from (current ?r) (set_state (current ?r) READY ?r)"
    using t_unblock(1) unfolding unblock_def Let_def parked_def by auto
  then have "on_time s (unblock t s)"
  proof
    assume t: "current ?r \<noteq> INVALID_TASK \<and> unblock t s = schedule_from (current ?r) (set_state (current ?r) READY ?r)"
    then show ?thesis
      using on_time_trans [OF o preempt_on_time [OF r(1)]] preempt_parked(3) [OF r(1)] o by (simp add: on_time_def)
  qed (use o in simp)
  then show ?case using unblock_wakes(1) [OF t_unblock(2,1)] by simp
next
  case (t_end s)
  let ?x = "(tasks s ! current s)\<lparr>state := DELETED\<rparr>"
  have "on_time s (schedule_from (current s) (set_state (current s) DELETED s))"
    using t_end by (intro yield_on_time [of s _ ?x]) (simp_all add: set_state_def sleeping_def)
  then show ?case using end_parked [of s] task_end_eq [of s] t_end by (simp add: kernel_ok_def)
qed

lemma treach_ok: "treach s \<Longrightarrow> kernel_ok s \<and> timely s"
proof (induction rule: treach.induct)
  case t_new
  show ?case using new_sched_ok by (simp add: kernel_ok_def clean_def timely_def new_sched_def)
next
  case (t_step s t)
  then show ?case using timed_on_time by (auto simp: on_time_def)
qed

section \<open>A task alone\<close>

lemma lone_select:
  "current s = 0 \<or> current s = INVALID_TASK \<Longrightarrow> tasks s = [x] \<Longrightarrow>
   select_next s = (if state x = READY \<and> priority x < 0xFF then 0 else INVALID_TASK)"
  by (auto simp: select_next_def best_prio_def INVALID_TASK_def Let_def)

lemma last_tick: "0xFFFFFFFF \<le> r \<Longrightarrow> r = 0xFFFFFFFF" for r :: u32
  using unsigned_less [where w = r and 'a = nat] by (simp add: word_le_nat_alt word_unat_eq_iff)

lemma lone_delay:
  assumes s: "tasks s = [x]" "current s = 0" "priority x < 0xFF" and n: "n \<noteq> 0"
  shows "vTaskDelay n s =
    (if tick_count s + n = 0 \<or> tick_count s + n = 0xFFFFFFFF
     then s\<lparr>tasks := [x\<lparr>resume_tick := tick_count s + n, state := BLOCKED\<rparr>], current := INVALID_TASK\<rparr>
     else s\<lparr>tasks := [x\<lparr>state := RUNNING, resume_tick := 0\<rparr>], tick_count := tick_count s + n\<rparr>)"
proof -
  let ?r = "tick_count s + n"
  let ?y = "x\<lparr>resume_tick := ?r, state := BLOCKED\<rparr>"
  let ?s = "s\<lparr>tasks := [?y]\<rparr>"
  let ?w = "wake_due (?s\<lparr>tick_count := ?r\<rparr>)"
  have d: "vTaskDelay n s = schedule_from 0 ?s"
    using s n by (simp add: vTaskDelay_def set_state_def INVALID_TASK_def Let_def)
  have e: "earliest [?y] = (if ?r = 0 then 0xFFFFFFFF else ?r)"
    using last_tick [of ?r] by (auto simp: earliest_def sleeping_def word_gt_0 min_def)
  have sel: "select_next ?s = INVALID_TASK" using s lone_select [of ?s ?y] by simp
  show ?thesis
  proof (cases "?r = 0 \<or> ?r = 0xFFFFFFFF")
    case True
    then show ?thesis using sel e by (auto simp: d schedule_from.simps [of 0 ?s])
  next
    case False
    then have w: "?w = s\<lparr>tasks := [x\<lparr>state := READY, resume_tick := 0\<rparr>], tick_count := ?r\<rparr>"
      by (simp add: wake_due_def sleeping_def word_gt_0)
    have "schedule_from 0 ?s = schedule_from 0 ?w"
      using False sel e by (subst schedule_from.simps [of 0 ?s]) simp
    also have "\<dots> = set_state 0 RUNNING ?w"
    proof -
      have "select_next ?w = 0" using s lone_select [of ?w "x\<lparr>state := READY, resume_tick := 0\<rparr>"] w by simp
      then show ?thesis by (simp add: schedule_from.simps [of 0 ?w] INVALID_TASK_def)
    qed
    finally show ?thesis using False unfolding d w by (simp add: set_state_def)
  qed
qed

section \<open>Properties\<close>

text \<open>C13. The scheduler selects a ready task of the best priority and, among those, the first after
  the current one in cyclic order; it selects none exactly when no task below the priority 255
  is ready.\<close>

theorem scheduler_selects:
  assumes "length (tasks s) \<le> MAX_TASKS"
  shows "case select_next s of x \<Rightarrow>
    if x = INVALID_TASK then (\<forall>t < length (tasks s). state (tasks s ! t) = READY \<longrightarrow> priority (tasks s ! t) = 0xFF)
    else x < length (tasks s) \<and> state (tasks s ! x) = READY \<and>
      (\<forall>u < length (tasks s). state (tasks s ! u) = READY \<longrightarrow>
         priority (tasks s ! x) < priority (tasks s ! u) \<or>
         (priority (tasks s ! x) = priority (tasks s ! u) \<and> turns s x \<le> turns s u))"
  using selected [OF assms] by (auto simp: ready_at_def)

theorem scheduler_selects_witness:
  "select_next \<lparr>tasks = [\<lparr>priority = 2, state = READY, resume_tick = 0\<rparr>, \<lparr>priority = 1, state = READY, resume_tick = 0\<rparr>],
     tick_count = 0, current = INVALID_TASK\<rparr> \<noteq> INVALID_TASK"
  using scheduler_selects [of "\<lparr>tasks = [\<lparr>priority = 2, state = READY, resume_tick = 0\<rparr>, \<lparr>priority = 1, state = READY, resume_tick = 0\<rparr>],
     tick_count = 0, current = INVALID_TASK\<rparr>"]
  by (auto simp: MAX_TASKS_def All_less_Suc split: if_splits)

text \<open>C12. In every state the kernel reaches by its calls, at most 16 tasks exist, the running tasks are
  exactly the current one, and what a task does when it is switched to again changes nothing.\<close>

theorem running_is_current:
  assumes "kreach s"
  shows "{t. t < length (tasks s) \<and> state (tasks s ! t) = RUNNING} =
      (if current s = INVALID_TASK then {} else {current s}) \<and>
    length (tasks s) \<le> 16 \<and> (current s \<noteq> INVALID_TASK \<longrightarrow> rescheduled (current s) s = s)"
proof -
  have ok: "sched_ok s" by (rule kreach_ok [OF assms])
  have "rescheduled t s = s" if "t < length (tasks s)" "state (tasks s ! t) = RUNNING" for t
    using that by (simp add: rescheduled_def set_state_def flip: that(2))
  then show ?thesis using ok ok_invalid [OF ok] by (auto simp: sched_ok_def MAX_TASKS_def)
qed

theorem running_is_current_witness:
  "{t. t < length (tasks (vTaskStartScheduler (snd (xTaskCreate 3 new_sched)))) \<and>
     state (tasks (vTaskStartScheduler (snd (xTaskCreate 3 new_sched))) ! t) = RUNNING} = {0}"
proof -
  let ?s = "vTaskStartScheduler (snd (xTaskCreate 3 new_sched))"
  have "kreach (snd (xTaskCreate 3 new_sched))" by (rule k_step [OF k_new k_create])
  then have "kreach ?s" by (rule k_step) (rule k_start, simp add: xTaskCreate_def new_sched_def MAX_TASKS_def)
  moreover have "current ?s = 0"
    using lone_select [of "snd (xTaskCreate 3 new_sched)"]
    by (simp add: vTaskStartScheduler_def xTaskCreate_def new_sched_def MAX_TASKS_def INVALID_TASK_def)
  ultimately show ?thesis using running_is_current [of ?s] by (simp add: INVALID_TASK_def)
qed

text \<open>C26. The loop that advances the simulated time ends: \<open>schedule_from\<close> needs at most one iteration
  more than there are sleeping tasks.\<close>

theorem schedule_terminates: "des_loop (Suc (sleepers s)) prev s = Some (schedule_from prev s)"
  by (rule des_loop_ends) simp

text \<open>C27. Equal priorities take turns: when the current task has the best priority and every task that
  runs yields, a ready task of the same priority runs after at most as many yields as its
  distance in the cyclic order, so at most as many as there are tasks.\<close>

theorem round_robin_is_fair:
  assumes "leads s" "ready_at (priority (tasks s ! current s)) s t"
  shows "\<exists>m \<le> length (tasks s). current ((vTaskDelay 0 ^^ m) s) = t"
proof -
  have "Suc (turns s t) \<le> length (tasks s)"
    using turns_inverse(2) [of t s] assms(2) by (simp add: ready_at_def)
  then show ?thesis using yields_reach [OF assms] order_trans by blast
qed

theorem round_robin_is_fair_witness:
  "\<exists>m \<le> 3. current ((vTaskDelay 0 ^^ m)
     \<lparr>tasks = [\<lparr>priority = 1, state = RUNNING, resume_tick = 0\<rparr>, \<lparr>priority = 1, state = READY, resume_tick = 0\<rparr>,
        \<lparr>priority = 1, state = READY, resume_tick = 0\<rparr>], tick_count = 0, current = 0\<rparr>) = 2"
proof -
  let ?s = "\<lparr>tasks = [\<lparr>priority = 1, state = RUNNING, resume_tick = 0\<rparr>, \<lparr>priority = 1, state = READY, resume_tick = 0\<rparr>,
        \<lparr>priority = 1, state = READY, resume_tick = 0\<rparr>], tick_count = 0, current = 0\<rparr>"
  have "leads ?s"
    by (simp add: leads_def sched_ok_def MAX_TASKS_def INVALID_TASK_def All_less_Suc)
  moreover have "ready_at (priority (tasks ?s ! current ?s)) ?s 2"
    by (simp add: ready_at_def)
  ultimately show ?thesis using round_robin_is_fair [of ?s 2] by (simp add: numeral_3_eq_3)
qed



text \<open>A task alone that delays wakes exactly when its time has come, modulo \<open>2 ^ 32\<close>: the sum wraps,
  so that the simulated time can go back, and if it is 0 or the largest number the task never
  wakes.\<close>

theorem delay_wraps:
  assumes "tasks s = [x]" "current s = 0" "priority x < 0xFF" "n \<noteq> 0"
  shows "vTaskDelay n s =
    (if tick_count s + n = 0 \<or> tick_count s + n = 0xFFFFFFFF
     then s\<lparr>tasks := [x\<lparr>resume_tick := tick_count s + n, state := BLOCKED\<rparr>], current := INVALID_TASK\<rparr>
     else s\<lparr>tasks := [x\<lparr>state := RUNNING, resume_tick := 0\<rparr>], tick_count := tick_count s + n\<rparr>)"
  using assms by (rule lone_delay)

theorem delay_wraps_witness:
  "tick_count (vTaskDelay 0x20 \<lparr>tasks = [\<lparr>priority = 1, state = RUNNING, resume_tick = 0\<rparr>],
     tick_count = 0xFFFFFFF0, current = 0\<rparr>) = 0x10 \<and>
   current (vTaskDelay 0x10 \<lparr>tasks = [\<lparr>priority = 1, state = RUNNING, resume_tick = 0\<rparr>],
     tick_count = 0xFFFFFFF0, current = 0\<rparr>) = INVALID_TASK"
  using delay_wraps [of "\<lparr>tasks = [\<lparr>priority = 1, state = RUNNING, resume_tick = 0\<rparr>], tick_count = 0xFFFFFFF0, current = 0\<rparr>"]
  by simp

end
