(* ===== verification/Sched_Priority.thy ===== *)
theory Sched_Priority
  imports Sched_Time
begin

text \<open>
  Priorities: the calls of src/rtos/scheduler.cpp keep the processor with a task of the best
  priority among all that could run, but for the two calls that make a task ready without
  scheduling, \<open>xTaskCreate\<close> and \<open>vTaskResume\<close>.
\<close>

section \<open>The invariant\<close>

definition foremost :: "sched \<Rightarrow> bool" where
  "foremost s \<longleftrightarrow> current s = INVALID_TASK \<or>
     (\<forall>u < length (tasks s). state (tasks s ! u) = READY \<longrightarrow> priority (tasks s ! current s) \<le> priority (tasks s ! u))"

text \<open>A task may be made ready by one of the two calls when it is not better than the current one.\<close>

definition yields_to :: "sched \<Rightarrow> u8 \<Rightarrow> bool" where
  "yields_to s p \<longleftrightarrow> current s = INVALID_TASK \<or> priority (tasks s ! current s) \<le> p"

inductive pstep :: "sched \<Rightarrow> sched \<Rightarrow> bool" where
  p_create: "yields_to s p \<Longrightarrow> pstep s (snd (xTaskCreate p s))"
| p_start: "current s = INVALID_TASK \<Longrightarrow> pstep s (vTaskStartScheduler s)"
| p_delay: "pstep s (vTaskDelay n s)"
| p_suspend: "pstep s (vTaskSuspend t s)"
| p_resume: "yields_to s (get_priority t s) \<Longrightarrow> pstep s (vTaskResume t s)"
| p_delete: "pstep s (vTaskDelete t s)"
| p_tick: "pstep s (tick n s)"
| p_block: "pstep s (block_current s)"
| p_unblock: "pstep s (unblock t s)"
| p_end: "current s \<noteq> INVALID_TASK \<Longrightarrow> pstep s (task_end s)"

inductive preach :: "sched \<Rightarrow> bool" where
  p_new: "preach new_sched"
| p_step: "preach s \<Longrightarrow> pstep s t \<Longrightarrow> preach t"

lemma pstep_kstep: "pstep s t \<Longrightarrow> kstep s t"
  by (induction rule: pstep.induct) (auto intro: kstep.intros)

lemma selected_best:
  assumes "length (tasks s) \<le> MAX_TASKS" "select_next s \<noteq> INVALID_TASK"
    and "u < length (tasks s)" "state (tasks s ! u) = READY"
  shows "priority (tasks s ! select_next s) \<le> priority (tasks s ! u)"
  using selected(2) [OF assms(1,2)] assms(3,4) by (auto intro: order_less_imp_le)

lemma dispatch_foremost:
  assumes "length (tasks s) \<le> MAX_TASKS" "select_next s \<noteq> INVALID_TASK"
  shows "foremost (set_state (select_next s) RUNNING (s\<lparr>current := select_next s\<rparr>))"
  using selected(2) [OF assms] by (auto simp: foremost_def ready_at_def order_less_imp_le)

lemma schedule_foremost:
  "length (tasks s) \<le> MAX_TASKS \<Longrightarrow> current s = p \<Longrightarrow> foremost (schedule_from p s)"
proof (induction p s rule: schedule_from.induct)
  case (1 p s)
  consider "select_next s \<noteq> INVALID_TASK" | "select_next s = INVALID_TASK" "earliest (tasks s) = 0xFFFFFFFF"
    | "select_next s = INVALID_TASK" "earliest (tasks s) \<noteq> 0xFFFFFFFF" by blast
  then show ?case
  proof cases
    case 1
    then have "schedule_from p s = set_state (select_next s) RUNNING (s\<lparr>current := select_next s\<rparr>)"
      using "1.prems"(2) by (auto simp: schedule_from.simps [of p s] Let_def set_state_def)
    then show ?thesis using dispatch_foremost [OF "1.prems"(1) 1] by simp
  next
    case 2
    then show ?thesis by (simp add: schedule_from.simps [of p s] foremost_def)
  next
    case 3
    then show ?thesis using "1.IH" [OF refl _ 3(2)] "1.prems" by (subst schedule_from.simps [of p s]) simp
  qed
qed

text \<open>A task other than the current one leaves or enters the set of ready tasks.\<close>

lemma other_foremost:
  assumes "sched_ok s" "foremost s" "t < length (tasks s)" "t \<noteq> current s"
    and "st = READY \<Longrightarrow> yields_to s (priority (tasks s ! t))"
  shows "foremost (set_state t st s)"
  using assms ok_current [OF assms(1)] by (auto simp: foremost_def yields_to_def)

lemma state_foremost:
  assumes "sched_ok s" "foremost s" "t < length (tasks s)" "st \<noteq> READY"
  shows "foremost (let s = set_state t st s in if t = current s then schedule_from (current s) s else s)"
proof (cases "t = current s")
  case True
  then show ?thesis
    using schedule_foremost [of "set_state t st s" "current s"] ok_length [OF assms(1)] by (simp add: Let_def)
next
  case False
  then show ?thesis using other_foremost [OF assms(1-3) False, of st] assms(4) by (simp add: Let_def)
qed

lemma pstep_foremost: "pstep s t \<Longrightarrow> sched_ok s \<Longrightarrow> foremost s \<Longrightarrow> foremost t"
proof (induction rule: pstep.induct)
  case (p_create s p)
  then show ?case
    using ok_current [of s] by (auto simp: xTaskCreate_def foremost_def yields_to_def nth_append less_Suc_eq)
next
  case (p_start s)
  then show ?case
    using dispatch_foremost [of s] ok_length [of s] by (auto simp: vTaskStartScheduler_def Let_def)
next
  case (p_delay s n)
  then show ?case using ok_length [of s] by (auto simp: vTaskDelay_def Let_def intro!: schedule_foremost)
next
  case (p_suspend s t)
  then show ?case using state_foremost [of s t SUSPENDED] by (simp add: vTaskSuspend_def)
next
  case (p_resume s t)
  have "t \<noteq> current s" if "t < length (tasks s)" "state (tasks s ! t) = SUSPENDED"
    using that p_resume(2) ok_current [of s] ok_invalid [of s t] by auto
  then show ?case
    using p_resume other_foremost [of s t READY] by (auto simp: vTaskResume_def get_priority_def)
next
  case (p_delete s t)
  then show ?case using state_foremost [of s t DELETED] by (simp add: vTaskDelete_def)
next
  case (p_tick s n)
  let ?w = "wake_due (s\<lparr>tick_count := tick_count s + n\<rparr>)"
  have l: "length (tasks ?w) \<le> MAX_TASKS" using p_tick(1) by (simp add: ok_length)
  show ?case
  proof (cases "select_next ?w \<noteq> INVALID_TASK \<and> current ?w \<noteq> INVALID_TASK \<and>
      priority (tasks ?w ! select_next ?w) < priority (tasks ?w ! current ?w)")
    case True
    then have "tick n s = schedule_from (current ?w) (set_state (current ?w) READY ?w)"
      by (simp add: tick_def Let_def)
    then show ?thesis using schedule_foremost [of "set_state (current ?w) READY ?w"] l by simp
  next
    case False
    then have e: "tick n s = ?w" by (auto simp: tick_def Let_def)
    have top: "p \<le> 0xFF" for p :: u8
      using unsigned_less [where w = p and 'a = nat] by (simp add: word_le_nat_alt)
    show ?thesis
    proof (cases "select_next ?w = INVALID_TASK")
      case True
      then show ?thesis using selected(1) [OF l] top unfolding e foremost_def by metis
    next
      case sel: False
      note selected_best [OF l sel]
      moreover have "current ?w = INVALID_TASK \<or> priority (tasks ?w ! current ?w) \<le> priority (tasks ?w ! select_next ?w)"
        using False sel by (simp only: not_less de_Morgan_conj not_not) blast
      ultimately show ?thesis unfolding e foremost_def by (meson order_trans)
    qed
  qed
next
  case (p_block s)
  then show ?case using schedule_foremost [of "set_state (current s) BLOCKED s"] ok_length [of s]
    by (auto simp: block_current_def)
next
  case (p_unblock s t)
  show ?case
  proof (cases "t < length (tasks s) \<and> state (tasks s ! t) = BLOCKED")
    case False
    then show ?thesis using p_unblock by (auto simp: unblock_def not_less)
  next
    case True
    let ?r = "set_state t READY s"
    have tc: "t \<noteq> current s" using True ok_current [of s] ok_invalid [of s t] p_unblock(1) by auto
    show ?thesis
    proof (cases "current s \<noteq> INVALID_TASK \<and> priority (tasks ?r ! t) < priority (tasks ?r ! current s)")
      case better: True
      then have "unblock t s = schedule_from (current ?r) (set_state (current ?r) READY ?r)"
        using True by (simp add: unblock_def Let_def)
      then show ?thesis
        using schedule_foremost [of "set_state (current ?r) READY ?r"] ok_length [OF p_unblock(1)] by simp
    next
      case same: False
      then have "unblock t s = ?r" using True by (auto simp: unblock_def Let_def)
      moreover have "yields_to s (priority (tasks s ! t))"
        using same True tc ok_current [OF p_unblock(1)] by (auto simp: yields_to_def not_less)
      ultimately show ?thesis using other_foremost [OF p_unblock] True tc by simp
    qed
  qed
next
  case (p_end s)
  then show ?case
    using schedule_foremost [of "set_state (current s) DELETED s"] ok_length [of s] task_end_eq [of s] by simp
qed

lemma preach_ok: "preach s \<Longrightarrow> sched_ok s \<and> foremost s"
proof (induction rule: preach.induct)
  case p_new
  show ?case using new_sched_ok by (simp add: foremost_def new_sched_def)
next
  case (p_step s t)
  then show ?case using pstep_foremost kstep_ok [OF pstep_kstep] by blast
qed

section \<open>Properties\<close>



text \<open>Resuming a task of a better priority leaves the processor with the caller.\<close>

theorem resume_does_not_preempt:
  "case vTaskResume 1 \<lparr>tasks = [\<lparr>priority = 5, state = RUNNING, resume_tick = 0\<rparr>,
      \<lparr>priority = 0, state = SUSPENDED, resume_tick = 0\<rparr>], tick_count = t, current = 0\<rparr> of s \<Rightarrow>
     current s = 0 \<and> state (tasks s ! 1) = READY \<and> priority (tasks s ! 1) < priority (tasks s ! current s)"
  by (simp add: vTaskResume_def set_state_def)

end
