(* ===== verification/Mutex.thy ===== *)
theory Mutex
  imports Kernel
begin

text \<open>
  The mutex of src/rtos/mutex.h. An operation gives the mutex and the kernel at the point where it
  returns or hands over the processor; \<open>mutex_lock\<close> also tells whether it has returned. The tasks
  that use a mutex are a transition system, in which mutual exclusion is an invariant.
\<close>

section \<open>Operations\<close>

text \<open>The list holds the first \<open>wait_count_\<close> entries of the array \<open>waiters_\<close>.\<close>

record mutex =
  owner :: nat
  waiters :: "nat list"

definition new_mutex :: mutex where
  "new_mutex = \<lparr>owner = INVALID_TASK, waiters = []\<rparr>"

definition mutex_lock :: "mutex \<times> sched \<Rightarrow> bool \<times> mutex \<times> sched" where
  "mutex_lock = (\<lambda>(m, k).
     let me = current k in
     if owner m = INVALID_TASK then (True, m\<lparr>owner := me\<rparr>, k)
     else (False, if length (waiters m) < MAX_TASKS then m\<lparr>waiters := waiters m @ [me]\<rparr> else m,
           block_current k))"

definition mutex_unlock :: "mutex \<times> sched \<Rightarrow> mutex \<times> sched" where
  "mutex_unlock = (\<lambda>(m, k).
     if waiters m \<noteq> [] then
       (let (w, ws) = take_best (\<lambda>t. get_priority t k) (waiters m)
        in (m\<lparr>owner := w, waiters := ws\<rparr>, unblock w k))
     else (m\<lparr>owner := INVALID_TASK\<rparr>, k))"

definition mutex_try_lock :: "mutex \<times> sched \<Rightarrow> bool \<times> mutex" where
  "mutex_try_lock = (\<lambda>(m, k).
     if owner m \<noteq> INVALID_TASK then (False, m) else (True, m\<lparr>owner := current k\<rparr>))"

definition is_locked :: "mutex \<Rightarrow> bool" where
  "is_locked m = (owner m \<noteq> INVALID_TASK)"

text \<open>\<open>Guard\<close>: the constructor locks, the destructor unlocks.\<close>

definition lock_guard :: "mutex \<times> sched \<Rightarrow> bool \<times> mutex \<times> sched" where
  "lock_guard = mutex_lock"

definition guard_release :: "mutex \<times> sched \<Rightarrow> mutex \<times> sched" where
  "guard_release = mutex_unlock"

text \<open>A scope with a guard leaves a free mutex free.\<close>

lemma guard_scope:
  "\<not> is_locked m \<Longrightarrow> waiters m = [] \<Longrightarrow>
   \<exists>m'. lock_guard (m, k) = (True, m', k) \<and> owner m' = current k \<and> guard_release (m', k) = (m, k)"
  by (cases m) (simp add: lock_guard_def guard_release_def mutex_lock_def mutex_unlock_def is_locked_def Let_def)

section \<open>Tasks that use a mutex\<close>

text \<open>
  Each task is outside the critical section, in a call of \<open>lock\<close> that waits, or inside. The call
  returns when its task is current again. Other calls of the kernel, as far as the contract allows
  them, happen when the current task is not in \<open>lock\<close>; a task may delay, or end, inside.
\<close>

datatype lock_phase = Outside | Locking | Inside

record msys =
  kern :: sched
  mtx :: mutex
  at :: "nat \<Rightarrow> lock_phase"

inductive mstep :: "msys \<Rightarrow> msys \<Rightarrow> bool" where
  m_kernel: "current (kern s) = INVALID_TASK \<or> at s (current (kern s)) \<noteq> Locking \<Longrightarrow> benign (kern s) k \<Longrightarrow>
    mstep s (s\<lparr>kern := k\<rparr>)"
| m_lock: "current (kern s) = t \<Longrightarrow> t \<noteq> INVALID_TASK \<Longrightarrow> at s t = Outside \<Longrightarrow>
    mutex_lock (mtx s, kern s) = (r, m, k) \<Longrightarrow>
    mstep s \<lparr>kern = k, mtx = m, at = (at s)(t := if r then Inside else Locking)\<rparr>"
| m_resume: "current (kern s) = t \<Longrightarrow> t \<noteq> INVALID_TASK \<Longrightarrow> at s t = Locking \<Longrightarrow>
    mstep s (s\<lparr>at := (at s)(t := Inside)\<rparr>)"
| m_try: "current (kern s) = t \<Longrightarrow> t \<noteq> INVALID_TASK \<Longrightarrow> at s t = Outside \<Longrightarrow>
    mutex_try_lock (mtx s, kern s) = (r, m) \<Longrightarrow>
    mstep s (s\<lparr>mtx := m, at := (at s)(t := if r then Inside else Outside)\<rparr>)"
| m_unlock: "current (kern s) = t \<Longrightarrow> t \<noteq> INVALID_TASK \<Longrightarrow> at s t = Inside \<Longrightarrow>
    mutex_unlock (mtx s, kern s) = (m, k) \<Longrightarrow>
    mstep s \<lparr>kern = k, mtx = m, at = (at s)(t := Outside)\<rparr>"

inductive_cases mstep_elim: "mstep s t"

inductive mreach :: "msys \<Rightarrow> bool" where
  m_new: "mreach \<lparr>kern = new_sched, mtx = new_mutex, at = (\<lambda>_. Outside)\<rparr>"
| m_step: "mreach s \<Longrightarrow> mstep s t \<Longrightarrow> mreach t"

section \<open>The invariant\<close>

text \<open>
  The waiters are distinct parked tasks in \<open>lock\<close>. Whoever is inside owns the mutex; whoever is in
  \<open>lock\<close> and does not wait has been given it, and is able to run.
\<close>

definition minv :: "msys \<Rightarrow> bool" where
  "minv s \<longleftrightarrow> kernel_ok (kern s) \<and> distinct (waiters (mtx s)) \<and> set (waiters (mtx s)) \<subseteq> parked (kern s) \<and>
     (\<forall>t. at s t = Inside \<longrightarrow> owner (mtx s) = t) \<and>
     (\<forall>t. at s t = Locking \<longrightarrow> t \<in> set (waiters (mtx s)) \<or> (owner (mtx s) = t \<and> t \<in> active (kern s))) \<and>
     (\<forall>t \<in> set (waiters (mtx s)). at s t = Locking \<and> t \<noteq> owner (mtx s)) \<and>
     (owner (mtx s) \<noteq> INVALID_TASK \<longrightarrow> at s (owner (mtx s)) \<noteq> Outside) \<and>
     (waiters (mtx s) \<noteq> [] \<longrightarrow> owner (mtx s) \<noteq> INVALID_TASK) \<and> at s INVALID_TASK = Outside"

lemma new_kernel_ok: "kernel_ok new_sched"
  using new_sched_ok by (simp add: kernel_ok_def clean_def new_sched_def)

lemma handed_over:
  assumes "minv s" "current (kern s) = t" "t \<noteq> INVALID_TASK" "at s t = Locking"
  shows "owner (mtx s) = t"
  using assms kernel.running_not_parked [of "kern s"] unfolding minv_def by blast

lemma mstep_minv: "mstep s s' \<Longrightarrow> minv s \<Longrightarrow> minv s'"
proof (induction rule: mstep.induct)
  case (m_kernel s k)
  have "kernel_ok k" "parked (kern s) \<subseteq> parked k" "active (kern s) - {current (kern s)} \<subseteq> active k"
    using m_kernel kernel.env_ok kernel.env_parked kernel.env_active by (auto simp: minv_def)
  moreover have "t \<noteq> current (kern s)" if "at s t = Locking" for t
    using that m_kernel by (auto simp: minv_def)
  ultimately show ?case using m_kernel(3) unfolding minv_def by (auto dest: subsetD) blast+
next
  case (m_lock s t r m k)
  show ?case
  proof (cases "owner (mtx s) = INVALID_TASK")
    case True
    then have "r" "m = (mtx s)\<lparr>owner := t\<rparr>" "k = kern s" "waiters (mtx s) = []"
      using m_lock by (auto simp: mutex_lock_def minv_def Let_def)
    then show ?thesis using m_lock True by (auto simp: minv_def)
  next
    case False
    have ok: "kernel_ok (kern s)" "current (kern s) \<noteq> INVALID_TASK" using m_lock by (simp_all add: minv_def)
    have j: "distinct (waiters (mtx s) @ [t]) \<and> set (waiters (mtx s) @ [t]) \<subseteq> parked (block_current (kern s)) \<and>
        length (waiters (mtx s)) < MAX_TASKS"
      using kernel.join_waiters [OF ok, of "waiters (mtx s)"] m_lock by (simp add: minv_def)
    then have m: "\<not> r" "m = (mtx s)\<lparr>waiters := waiters (mtx s) @ [t]\<rparr>" "k = block_current (kern s)"
      using m_lock False by (simp_all add: mutex_lock_def Let_def)
    have "kernel_ok k" "active (kern s) - {t} \<subseteq> active k"
      using kernel.park_ok [OF ok] kernel.park_active [OF ok] m_lock(1) by (simp_all add: m)
    moreover have "t \<noteq> owner (mtx s)" using m_lock False by (auto simp: minv_def)
    ultimately show ?thesis using False j m m_lock(2,3,5) by (auto simp: minv_def)
  qed
next
  case (m_resume s t)
  then show ?case using handed_over [OF m_resume(4,1,2,3)] by (auto simp: minv_def)
next
  case (m_try s t r m)
  then show ?case by (auto simp: minv_def mutex_try_lock_def split: if_splits)
next
  case (m_unlock s t m k)
  show ?case
  proof (cases "waiters (mtx s) = []")
    case True
    then show ?thesis using m_unlock by (auto simp: mutex_unlock_def minv_def)
  next
    case False
    obtain w ws where b: "take_best (\<lambda>t. get_priority t (kern s)) (waiters (mtx s)) = (w, ws)" by fastforce
    have m: "m = (mtx s)\<lparr>owner := w, waiters := ws\<rparr>" "k = unblock w (kern s)"
      using m_unlock(4) False b by (simp_all add: mutex_unlock_def)
    have ms: "mset (waiters (mtx s)) = add_mset w (mset ws)" using take_best [OF False b] by simp
    then have set: "set (waiters (mtx s)) = insert w (set ws)"
      by (metis set_mset_add_mset_insert set_mset_mset)
    have ok: "kernel_ok (kern s)" "w \<in> parked (kern s)" "at s w = Locking" "w \<noteq> t"
      using m_unlock set by (auto simp: minv_def)
    have l: "distinct ws \<and> set ws \<subseteq> parked k \<and> w \<notin> set ws"
      using kernel.leave_waiters [OF ok(1) _ _ ms] m_unlock by (simp add: minv_def m)
    have "kernel_ok k" "w \<in> active k"
      using kernel.wake_ok [OF ok(1,2)] kernel.wake_active [OF ok(1,2)] by (simp_all add: m)
    moreover have "w \<noteq> INVALID_TASK" "at s INVALID_TASK = Outside" using ok(3) m_unlock(5) by (auto simp: minv_def)
    moreover have "u \<in> insert w (set ws)" if "at s u = Locking" for u
      using that m_unlock set by (auto simp: minv_def)
    moreover have "u = t" if "at s u = Inside" for u
      using that m_unlock(3,5) unfolding minv_def by metis
    moreover have "\<forall>u \<in> set ws. at s u = Locking \<and> u \<noteq> w \<and> u \<noteq> t"
      using m_unlock(3,5) set l by (auto simp: minv_def)
    ultimately show ?thesis using l ok(3,4) m_unlock(2) unfolding minv_def m by auto
  qed
qed

lemma mreach_minv: "mreach s \<Longrightarrow> minv s"
  by (induction rule: mreach.induct)
    (simp_all add: mstep_minv, simp add: minv_def new_mutex_def new_kernel_ok)

section \<open>Two tasks\<close>

text \<open>Evaluation of concrete runs.\<close>

lemma schedule_to:
  "select_next s = x \<Longrightarrow> x \<noteq> INVALID_TASK \<Longrightarrow> x \<noteq> p \<Longrightarrow>
   schedule_from p s = set_state x RUNNING (s\<lparr>current := x\<rparr>)"
  by (subst schedule_from.simps) (simp add: Let_def)

lemmas select_eval = select_next_def best_prio_def Let_def upt_rec INVALID_TASK_def

section \<open>Properties\<close>



text \<open>\<open>unlock\<close> hands the mutex to a waiter of the best priority, and only to a waiter; the others
  keep waiting. Without waiters the mutex becomes free.\<close>

theorem unlock_hands_over:
  "case mutex_unlock (m, k) of (m', k') \<Rightarrow>
     if waiters m = [] then owner m' = INVALID_TASK \<and> waiters m' = [] \<and> k' = k
     else mset (waiters m) = add_mset (owner m') (mset (waiters m')) \<and> k' = unblock (owner m') k \<and>
       list_all (\<lambda>v. get_priority (owner m') k \<le> get_priority v k) (waiters m)"
proof (cases "waiters m = []")
  case False
  obtain w ws where "take_best (\<lambda>t. get_priority t k) (waiters m) = (w, ws)" by fastforce
  with take_best [OF False this] False show ?thesis by (simp add: mutex_unlock_def list_all_iff)
qed (simp add: mutex_unlock_def)

text \<open>Suspending and resuming a task breaks the mutex: a task that waits in \<open>lock\<close> is made ready by
  \<open>vTaskResume\<close>, and when it is current again its call returns although another task owns the
  mutex (here task 1 waits for task 0, which suspends and resumes it and yields).\<close>

theorem resume_breaks_mutex:
  "case mutex_lock (\<lparr>owner = 0, waiters = []\<rparr>,
      \<lparr>tasks = [\<lparr>priority = 1, state = READY, resume_tick = 0\<rparr>, \<lparr>priority = 1, state = RUNNING, resume_tick = 0\<rparr>],
       tick_count = n, current = 1\<rparr>) of (returned, m, k) \<Rightarrow>
     \<not> returned \<and> current k = 0 \<and>
     current (vTaskDelay 0 (vTaskResume 1 (vTaskSuspend 1 k))) = 1 \<and> owner m = 0"
proof -
  let ?t = "\<lambda>st. \<lparr>priority = 1, state = st, resume_tick = 0\<rparr> :: tcb"
  let ?k = "\<lambda>a b c. \<lparr>tasks = [?t a, ?t b], tick_count = n, current = c\<rparr> :: sched"
  have sel: "select_next (?k READY BLOCKED 1) = 0" "select_next (?k READY READY 0) = 1"
    by (simp_all add: select_eval)
  have b: "block_current (?k READY RUNNING 1) = ?k RUNNING BLOCKED 0"
    using schedule_to [OF sel(1), of 1] by (simp add: block_current_def set_state_def INVALID_TASK_def)
  have r: "vTaskResume 1 (vTaskSuspend 1 (?k RUNNING BLOCKED 0)) = ?k RUNNING READY 0"
    by (simp add: vTaskResume_def vTaskSuspend_def set_state_def Let_def)
  have d: "vTaskDelay 0 (?k RUNNING READY 0) = ?k READY RUNNING 1"
    using schedule_to [OF sel(2), of 0] by (simp add: vTaskDelay_def set_state_def INVALID_TASK_def)
  show ?thesis
    by (simp add: mutex_lock_def b r d INVALID_TASK_def Let_def del: One_nat_def)
qed

end
