(* ===== verification/Semaphore.thy ===== *)
theory Semaphore
  imports Kernel
begin

text \<open>
  The counting semaphore of src/rtos/semaphore.h, and the tasks that use one: permits are neither
  made nor lost. \<open>sem_take\<close> tells whether the call has returned, or waits.
\<close>

section \<open>Operations\<close>

record semaphore =
  sem_count :: int
  sem_max :: int
  sem_waiters :: "nat list"

definition new_semaphore :: "int \<Rightarrow> int \<Rightarrow> semaphore" where
  "new_semaphore initial_count max_count = \<lparr>sem_count = initial_count, sem_max = max_count, sem_waiters = []\<rparr>"

definition sem_take :: "semaphore \<times> sched \<Rightarrow> bool \<times> semaphore \<times> sched" where
  "sem_take = (\<lambda>(m, k).
     if sem_count m > 0 then (True, m\<lparr>sem_count := sem_count m - 1\<rparr>, k)
     else (False,
       if length (sem_waiters m) < MAX_TASKS then m\<lparr>sem_waiters := sem_waiters m @ [current k]\<rparr> else m,
       block_current k))"

definition sem_give :: "semaphore \<times> sched \<Rightarrow> semaphore \<times> sched" where
  "sem_give = (\<lambda>(m, k).
     if sem_waiters m \<noteq> [] then
       (let (w, ws) = take_best (\<lambda>t. get_priority t k) (sem_waiters m)
        in (m\<lparr>sem_waiters := ws\<rparr>, unblock w k))
     else if sem_count m < sem_max m then (m\<lparr>sem_count := sem_count m + 1\<rparr>, k)
     else (m, k))"

definition sem_try_take :: "semaphore \<Rightarrow> bool \<times> semaphore" where
  "sem_try_take m = (if sem_count m \<le> 0 then (False, m) else (True, m\<lparr>sem_count := sem_count m - 1\<rparr>))"

section \<open>Tasks that use a semaphore\<close>

text \<open>
  \<open>taking\<close> are the tasks in a call of \<open>take\<close> that waits; \<open>taken\<close> counts the calls that returned with a
  permit, \<open>given\<close> the calls of \<open>give\<close> that the semaphore did not drop at its maximum. Tasks and the
  code around the scheduler may give.
\<close>

record ssys =
  skern :: sched
  sem :: semaphore
  taking :: "nat set"
  taken :: nat
  given :: nat

definition accepted :: "semaphore \<Rightarrow> nat" where
  "accepted m = (if sem_waiters m \<noteq> [] \<or> sem_count m < sem_max m then 1 else 0)"

inductive sstep :: "ssys \<Rightarrow> ssys \<Rightarrow> bool" where
  s_kernel: "current (skern s) = INVALID_TASK \<or> current (skern s) \<notin> taking s \<Longrightarrow> benign (skern s) k \<Longrightarrow>
    sstep s (s\<lparr>skern := k\<rparr>)"
| s_take: "current (skern s) = t \<Longrightarrow> t \<noteq> INVALID_TASK \<Longrightarrow> t \<notin> taking s \<Longrightarrow>
    sem_take (sem s, skern s) = (r, m, k) \<Longrightarrow>
    sstep s (s\<lparr>skern := k, sem := m, taking := if r then taking s else insert t (taking s),
               taken := if r then taken s + 1 else taken s\<rparr>)"
| s_return: "current (skern s) = t \<Longrightarrow> t \<noteq> INVALID_TASK \<Longrightarrow> t \<in> taking s \<Longrightarrow>
    sstep s (s\<lparr>taking := taking s - {t}, taken := taken s + 1\<rparr>)"
| s_try: "current (skern s) = t \<Longrightarrow> t \<noteq> INVALID_TASK \<Longrightarrow> t \<notin> taking s \<Longrightarrow>
    sem_try_take (sem s) = (r, m) \<Longrightarrow>
    sstep s (s\<lparr>sem := m, taken := if r then taken s + 1 else taken s\<rparr>)"
| s_give: "current (skern s) = INVALID_TASK \<or> current (skern s) \<notin> taking s \<Longrightarrow>
    sem_give (sem s, skern s) = (m, k) \<Longrightarrow>
    sstep s (s\<lparr>skern := k, sem := m, given := given s + accepted (sem s)\<rparr>)"

inductive sreach :: "int \<Rightarrow> int \<Rightarrow> ssys \<Rightarrow> bool" for c mx where
  s_new: "sreach c mx \<lparr>skern = new_sched, sem = new_semaphore c mx, taking = {}, taken = 0, given = 0\<rparr>"
| s_step: "sreach c mx s \<Longrightarrow> sstep s t \<Longrightarrow> sreach c mx t"

section \<open>The invariant\<close>

definition granted :: "ssys \<Rightarrow> nat set" where
  "granted s = taking s - set (sem_waiters (sem s))"

definition sinv :: "int \<Rightarrow> int \<Rightarrow> ssys \<Rightarrow> bool" where
  "sinv c mx s \<longleftrightarrow> kernel_ok (skern s) \<and> distinct (sem_waiters (sem s)) \<and>
     set (sem_waiters (sem s)) \<subseteq> parked (skern s) \<and> set (sem_waiters (sem s)) \<subseteq> taking s \<and>
     granted s \<subseteq> active (skern s) \<and> INVALID_TASK \<notin> taking s \<and> finite (taking s) \<and>
     0 \<le> sem_count (sem s) \<and> sem_count (sem s) \<le> mx \<and> sem_max (sem s) = mx \<and>
     (sem_waiters (sem s) \<noteq> [] \<longrightarrow> sem_count (sem s) = 0) \<and>
     c + int (given s) = sem_count (sem s) + int (taken s) + int (card (granted s))"

lemma sstep_sinv: "sstep s s' \<Longrightarrow> sinv c mx s \<Longrightarrow> sinv c mx s'"
proof (induction rule: sstep.induct)
  case (s_kernel s k)
  have "kernel_ok k" "parked (skern s) \<subseteq> parked k" "active (skern s) - {current (skern s)} \<subseteq> active k"
    using s_kernel kernel.env_ok kernel.env_parked kernel.env_active by (auto simp: sinv_def)
  moreover have "current (skern s) \<notin> granted s" using s_kernel by (auto simp: granted_def sinv_def)
  ultimately show ?case using s_kernel(3) by (auto simp: sinv_def granted_def)
next
  case (s_take s t r m k)
  show ?case
  proof (cases "sem_count (sem s) > 0")
    case True
    then show ?thesis using s_take by (auto simp: sem_take_def sinv_def granted_def)
  next
    case False
    let ?ws = "sem_waiters (sem s)"
    have ok: "kernel_ok (skern s)" "current (skern s) \<noteq> INVALID_TASK" using s_take by (simp_all add: sinv_def)
    have j: "distinct (?ws @ [t]) \<and> set (?ws @ [t]) \<subseteq> parked (block_current (skern s)) \<and> length ?ws < MAX_TASKS"
      using kernel.join_waiters [OF ok, of ?ws] s_take by (simp add: sinv_def)
    then have m: "\<not> r" "m = (sem s)\<lparr>sem_waiters := ?ws @ [t]\<rparr>" "k = block_current (skern s)"
      using s_take False by (simp_all add: sem_take_def)
    have "kernel_ok k" "active (skern s) - {t} \<subseteq> active k"
      using kernel.park_ok [OF ok] kernel.park_active [OF ok] s_take(1) by (simp_all add: m)
    moreover have g: "granted (s\<lparr>skern := k, sem := m, taking := insert t (taking s)\<rparr>) = granted s" "t \<notin> granted s"
      using s_take(3) by (auto simp: granted_def m)
    ultimately show ?thesis using j m s_take(2,5) False unfolding sinv_def granted_def by auto
  qed
next
  case (s_return s t)
  have "t \<notin> set (sem_waiters (sem s))"
    using s_return kernel.running_not_parked [of "skern s"] by (auto simp: sinv_def)
  then have g: "t \<in> granted s" using s_return by (simp add: granted_def)
  let ?s = "s\<lparr>taking := taking s - {t}, taken := taken s + 1\<rparr>"
  have "granted ?s = granted s - {t}" by (auto simp: granted_def)
  moreover have "finite (granted s)" using s_return by (simp add: sinv_def granted_def)
  ultimately have "card (granted s) = Suc (card (granted ?s))" using g by (metis card.remove)
  moreover have "granted ?s \<subseteq> granted s" by (auto simp: granted_def)
  ultimately show ?case
    using s_return(4) \<open>t \<notin> set _\<close> unfolding sinv_def by auto
next
  case (s_try s t r m)
  then show ?case by (auto simp: sem_try_take_def sinv_def granted_def split: if_splits)
next
  case (s_give s m k)
  show ?case
  proof (cases "sem_waiters (sem s) = []")
    case True
    then show ?thesis using s_give by (auto simp: sem_give_def sinv_def granted_def accepted_def split: if_splits)
  next
    case False
    let ?ws = "sem_waiters (sem s)"
    obtain w ws where b: "take_best (\<lambda>t. get_priority t (skern s)) ?ws = (w, ws)" by fastforce
    have m: "m = (sem s)\<lparr>sem_waiters := ws\<rparr>" "k = unblock w (skern s)"
      using s_give(2) False b by (simp_all add: sem_give_def)
    have ms: "mset ?ws = add_mset w (mset ws)" using take_best [OF False b] by simp
    then have set: "set ?ws = insert w (set ws)" by (metis set_mset_add_mset_insert set_mset_mset)
    have ok: "kernel_ok (skern s)" "w \<in> parked (skern s)" "w \<in> taking s"
      using s_give set by (auto simp: sinv_def)
    have l: "distinct ws \<and> set ws \<subseteq> parked k \<and> w \<notin> set ws"
      using kernel.leave_waiters [OF ok(1) _ _ ms] s_give by (simp add: sinv_def m)
    have k: "kernel_ok k" "insert w (active (skern s)) \<subseteq> active k"
      using kernel.wake_ok [OF ok(1,2)] kernel.wake_active [OF ok(1,2)] by (simp_all add: m)
    let ?s = "s\<lparr>skern := k, sem := m, given := given s + accepted (sem s)\<rparr>"
    have g: "granted ?s = insert w (granted s)" using ok(3) l set by (auto simp: granted_def m)
    moreover have "w \<notin> granted s" "finite (granted s)" using set s_give by (auto simp: granted_def sinv_def)
    ultimately have "card (granted ?s) = Suc (card (granted s))" by simp
    moreover have "granted ?s \<subseteq> active k" using g k s_give(3) by (auto simp: sinv_def)
    ultimately show ?thesis
      using k l m s_give(3) set False unfolding sinv_def by (simp add: accepted_def)
  qed
qed

lemma sreach_sinv: "sreach c mx s \<Longrightarrow> 0 \<le> c \<Longrightarrow> c \<le> mx \<Longrightarrow> sinv c mx s"
proof (induction rule: sreach.induct)
  case s_new
  have "kernel_ok new_sched"
    using new_sched_ok by (simp add: kernel_ok_def clean_def new_sched_def)
  then show ?case using s_new by (simp add: sinv_def new_semaphore_def granted_def)
qed (use sstep_sinv in blast)

section \<open>Properties\<close>



end
