(* ===== verification/Queue.thy ===== *)
theory Queue
  imports Kernel Fifo
begin

text \<open>
  The blocking queue of src/rtos/queue.h, a template over the element type and the capacity, which
  is the argument \<open>n\<close> here. The tasks that send and receive are a transition system: what is
  received is what was sent, in order, and no wake-up is lost.
\<close>

section \<open>Operations\<close>

text \<open>\<open>items\<close> stands for \<open>buf_\<close>, \<open>head_\<close>, \<open>tail_\<close> and \<open>count_\<close>.\<close>

record 'a queue =
  items :: "'a ring"
  send_waiters :: "nat list"
  recv_waiters :: "nat list"

definition new_queue :: "nat \<Rightarrow> 'a \<Rightarrow> 'a queue" where
  "new_queue n x = \<lparr>items = ring_empty n x, send_waiters = [], recv_waiters = []\<rparr>"

definition wake_receiver :: "'a queue \<times> sched \<Rightarrow> 'a queue \<times> sched" where
  "wake_receiver = (\<lambda>(q, k).
     if recv_waiters q = [] then (q, k)
     else (let (w, ws) = take_best (\<lambda>t. get_priority t k) (recv_waiters q)
           in (q\<lparr>recv_waiters := ws\<rparr>, unblock w k)))"

definition wake_sender :: "'a queue \<times> sched \<Rightarrow> 'a queue \<times> sched" where
  "wake_sender = (\<lambda>(q, k).
     if send_waiters q = [] then (q, k)
     else (let (w, ws) = take_best (\<lambda>t. get_priority t k) (send_waiters q)
           in (q\<lparr>send_waiters := ws\<rparr>, unblock w k)))"

text \<open>
  \<open>send\<close> and \<open>receive\<close> from the test of their loop on: when the result says that the call has not
  returned, it goes on with that test when its task runs again.
\<close>

definition queue_send :: "nat \<Rightarrow> 'a \<Rightarrow> 'a queue \<times> sched \<Rightarrow> bool \<times> 'a queue \<times> sched" where
  "queue_send n x = (\<lambda>(q, k).
     if count (items q) = n then
       (False,
        if length (send_waiters q) < MAX_TASKS then q\<lparr>send_waiters := send_waiters q @ [current k]\<rparr> else q,
        block_current k)
     else (True, wake_receiver (q\<lparr>items := snd (ring_push n x (items q))\<rparr>, k)))"

definition queue_receive :: "nat \<Rightarrow> 'a queue \<times> sched \<Rightarrow> 'a option \<times> 'a queue \<times> sched" where
  "queue_receive n = (\<lambda>(q, k).
     if count (items q) = 0 then
       (None,
        if length (recv_waiters q) < MAX_TASKS then q\<lparr>recv_waiters := recv_waiters q @ [current k]\<rparr> else q,
        block_current k)
     else (let (x, r) = ring_pop n (items q) in (x, wake_sender (q\<lparr>items := r\<rparr>, k))))"

definition queue_try_send :: "nat \<Rightarrow> 'a \<Rightarrow> 'a queue \<times> sched \<Rightarrow> bool \<times> 'a queue \<times> sched" where
  "queue_try_send n x = (\<lambda>(q, k).
     if count (items q) = n then (False, q, k)
     else (True, wake_receiver (q\<lparr>items := snd (ring_push n x (items q))\<rparr>, k)))"

definition queue_try_receive :: "nat \<Rightarrow> 'a queue \<times> sched \<Rightarrow> 'a option \<times> 'a queue \<times> sched" where
  "queue_try_receive n = (\<lambda>(q, k).
     if count (items q) = 0 then (None, q, k)
     else (let (x, r) = ring_pop n (items q) in (x, wake_sender (q\<lparr>items := r\<rparr>, k))))"

text \<open>\<open>empty\<close>, \<open>full\<close> and \<open>size\<close>; the capacity is the parameter \<open>n\<close>.\<close>

definition queue_empty :: "'a queue \<Rightarrow> bool" where
  "queue_empty q = (count (items q) = 0)"

definition queue_full :: "nat \<Rightarrow> 'a queue \<Rightarrow> bool" where
  "queue_full n q = (count (items q) = n)"

definition queue_size :: "'a queue \<Rightarrow> nat" where
  "queue_size q = count (items q)"

text \<open>The calls that do not wait fail exactly on a full queue and on an empty one.\<close>

lemma try_send_fails: "fst (queue_try_send n x (q, k)) \<longleftrightarrow> \<not> queue_full n q"
  and try_receive_fails: "fst (queue_try_receive n (q, k)) = None \<longleftrightarrow> queue_empty q"
  by (auto simp: queue_try_send_def queue_try_receive_def queue_full_def queue_empty_def ring_pop_def split: prod.splits)

section \<open>Queues with one waiting receiver\<close>

text \<open>
  The calls on a queue of eight places that holds \<open>xs\<close>, while the tasks \<open>ws\<close> wait to receive: what
  the demo programs need.
\<close>

definition holds :: "'a list \<Rightarrow> nat list \<Rightarrow> 'a queue \<Rightarrow> bool" where
  "holds xs ws q \<longleftrightarrow> ring_inv 8 (items q) \<and> ring_list 8 (items q) = xs \<and> recv_waiters q = ws \<and>
     send_waiters q = []"

lemma holds_count: "holds xs ws q \<Longrightarrow> count (items q) = length xs"
  using ring_length [of 8 "items q"] by (simp add: holds_def)

lemma new_holds: "holds [] [] (new_queue 8 x)"
  by (simp add: holds_def new_queue_def ring_empty_inv ring_empty_list)

lemma send_waking:
  assumes "holds [] [w] q"
  shows "\<exists>p. queue_send 8 x (q, k) = (True, p, unblock w k) \<and> holds [x] [] p"
proof -
  have c: "count (items q) = 0" using holds_count [OF assms] by simp
  obtain i where i: "ring_push 8 x (items q) = (True, i)" "ring_inv 8 i" "ring_list 8 i = [x]"
    using ring.push_room [of 8 "items q" x] assms c by (auto simp: holds_def)
  show ?thesis using assms i c
    by (simp add: queue_send_def wake_receiver_def holds_def take_best_def best_index_def)
qed

lemma send_quiet:
  assumes "holds [] [] q"
  shows "\<exists>p. queue_send 8 x (q, k) = (True, p, k) \<and> holds [x] [] p"
proof -
  have c: "count (items q) = 0" using holds_count [OF assms] by simp
  obtain i where i: "ring_push 8 x (items q) = (True, i)" "ring_inv 8 i" "ring_list 8 i = [x]"
    using ring.push_room [of 8 "items q" x] assms c by (auto simp: holds_def)
  show ?thesis using assms i c by (simp add: queue_send_def wake_receiver_def holds_def)
qed

lemma receive_item:
  assumes "holds [x] ws q"
  shows "\<exists>p. queue_receive 8 (q, k) = (Some x, p, k) \<and> holds [] ws p"
proof -
  have c: "count (items q) = 1" using holds_count [OF assms] by simp
  obtain i where i: "ring_pop 8 (items q) = (Some x, i)" "ring_inv 8 i" "ring_list 8 i = []"
    using ring.pop_first [of 8 "items q" x] assms by (auto simp: holds_def)
  show ?thesis using assms i c by (simp add: queue_receive_def wake_sender_def holds_def)
qed

lemma receive_waits:
  assumes "holds [] [] q"
  shows "\<exists>p. queue_receive 8 (q, k) = (None, p, block_current k) \<and> holds [] [current k] p"
  using assms holds_count [OF assms] by (simp add: queue_receive_def holds_def MAX_TASKS_def)

section \<open>Tasks that use a queue\<close>

text \<open>
  \<open>sending t\<close> is the item of a waiting call of \<open>send\<close>, \<open>receiving\<close> the tasks that wait in \<open>receive\<close>;
  \<open>sent\<close> and \<open>got\<close> log the items in the order in which they were stored and handed out.
\<close>

record 'a qsys =
  qkern :: sched
  que :: "'a queue"
  sending :: "nat \<Rightarrow> 'a option"
  receiving :: "nat set"
  sent :: "'a list"
  got :: "'a list"

definition senders :: "'a qsys \<Rightarrow> nat set" where
  "senders s = {t. sending s t \<noteq> None}"

definition busy :: "'a qsys \<Rightarrow> bool" where
  "busy s \<longleftrightarrow> current (qkern s) \<noteq> INVALID_TASK \<and> current (qkern s) \<in> senders s \<union> receiving s"

inductive qstep :: "nat \<Rightarrow> 'a qsys \<Rightarrow> 'a qsys \<Rightarrow> bool" for n where
  q_kernel: "\<not> busy s \<Longrightarrow> benign (qkern s) k \<Longrightarrow> qstep n s (s\<lparr>qkern := k\<rparr>)"
| q_send: "current (qkern s) = t \<Longrightarrow> t \<noteq> INVALID_TASK \<Longrightarrow> t \<notin> receiving s \<Longrightarrow>
    sending s t = None \<or> sending s t = Some x \<Longrightarrow> queue_send n x (que s, qkern s) = (r, q, k) \<Longrightarrow>
    qstep n s (s\<lparr>qkern := k, que := q, sending := (sending s)(t := if r then None else Some x),
                 sent := if r then sent s @ [x] else sent s\<rparr>)"
| q_receive: "current (qkern s) = t \<Longrightarrow> t \<noteq> INVALID_TASK \<Longrightarrow> t \<notin> senders s \<Longrightarrow>
    queue_receive n (que s, qkern s) = (r, q, k) \<Longrightarrow>
    qstep n s (s\<lparr>qkern := k, que := q,
                 receiving := (case r of None \<Rightarrow> insert t (receiving s) | Some x \<Rightarrow> receiving s - {t}),
                 got := (case r of None \<Rightarrow> got s | Some x \<Rightarrow> got s @ [x])\<rparr>)"
| q_try_send: "\<not> busy s \<Longrightarrow> queue_try_send n x (que s, qkern s) = (r, q, k) \<Longrightarrow>
    qstep n s (s\<lparr>qkern := k, que := q, sent := if r then sent s @ [x] else sent s\<rparr>)"
| q_try_receive: "\<not> busy s \<Longrightarrow> queue_try_receive n (que s, qkern s) = (r, q, k) \<Longrightarrow>
    qstep n s (s\<lparr>qkern := k, que := q, got := (case r of None \<Rightarrow> got s | Some x \<Rightarrow> got s @ [x])\<rparr>)"

inductive qreach :: "nat \<Rightarrow> 'a qsys \<Rightarrow> bool" for n where
  q_new: "qreach n \<lparr>qkern = new_sched, que = new_queue n x, sending = (\<lambda>_. None), receiving = {},
            sent = [], got = []\<rparr>"
| q_step: "qreach n s \<Longrightarrow> qstep n s t \<Longrightarrow> qreach n t"

section \<open>The invariant\<close>

text \<open>
  While somebody waits to receive, as many receivers have been woken as there are items; while
  somebody waits to send, as many senders as there are free places.
\<close>

definition qinv :: "nat \<Rightarrow> 'a qsys \<Rightarrow> bool" where
  "qinv n s \<longleftrightarrow> kernel_ok (qkern s) \<and> ring_inv n (items (que s)) \<and>
     got s @ ring_list n (items (que s)) = sent s \<and>
     waits (parked (qkern s)) (active (qkern s)) (send_waiters (que s)) (senders s) (n - count (items (que s))) \<and>
     waits (parked (qkern s)) (active (qkern s)) (recv_waiters (que s)) (receiving s) (count (items (que s))) \<and>
     senders s \<inter> receiving s = {} \<and> INVALID_TASK \<notin> senders s \<union> receiving s"

text \<open>Storing an item and waking a receiver; taking one and waking a sender.\<close>

lemma store_item:
  assumes ok: "kernel_ok k" and r: "ring_inv n (items q)" "count (items q) \<noteq> n"
    and snd: "waits (parked k) (active k) (send_waiters q) S (n - count (items q) - 1)"
    and rcv: "waits (parked k) (active k) (recv_waiters q) R (count (items q))"
    and dis: "S \<inter> R = {}"
    and w: "wake_receiver (q\<lparr>items := snd (ring_push n x (items q))\<rparr>, k) = (q', k')"
  shows "kernel_ok k' \<and> ring_inv n (items q') \<and> ring_list n (items q') = ring_list n (items q) @ [x] \<and>
    waits (parked k') (active k') (send_waiters q') S (n - count (items q')) \<and>
    waits (parked k') (active k') (recv_waiters q') R (count (items q'))"
proof -
  let ?i = "snd (ring_push n x (items q))"
  have "length (ring_list n (items q)) < n" using r by (simp add: ring_inv_def)
  from ring.push_room [OF r(1) this, of x]
  have i: "ring_inv n ?i" "ring_list n ?i = ring_list n (items q) @ [x]" by auto
  have c: "count ?i = Suc (count (items q))" using i(2) ring_length [of n ?i] by simp
  show ?thesis
  proof (cases "recv_waiters q = []")
    case True
    then have "q' = q\<lparr>items := ?i\<rparr>" "k' = k" using w by (simp_all add: wake_receiver_def)
    then show ?thesis using ok i c snd rcv True by (auto intro: waits_nil)
  next
    case False
    obtain v vs where b: "take_best (\<lambda>t. get_priority t k) (recv_waiters q) = (v, vs)" by fastforce
    have q': "q' = q\<lparr>items := ?i, recv_waiters := vs\<rparr>" "k' = unblock v k"
      using w False b by (simp_all add: wake_receiver_def)
    note a = kernel.waits_wake [OF ok rcv False b]
    have "v \<notin> S" using a(3) dis by blast
    then show ?thesis
      using i c q' a kernel.wake_ok [OF ok a(2)] kernel.waits_wake_other [OF ok a(2) _ snd] by simp
  qed
qed

lemma take_item:
  assumes ok: "kernel_ok k" and r: "ring_inv n (items q)" "count (items q) \<noteq> 0"
    and snd: "waits (parked k) (active k) (send_waiters q) S (n - count (items q))"
    and rcv: "waits (parked k) (active k) (recv_waiters q) R (count (items q) - 1)"
    and dis: "S \<inter> R = {}"
    and w: "(let (x, i) = ring_pop n (items q) in (x, wake_sender (q\<lparr>items := i\<rparr>, k))) = (r, q', k')"
  shows "\<exists>x. r = Some x \<and> kernel_ok k' \<and> ring_inv n (items q') \<and> ring_list n (items q) = x # ring_list n (items q') \<and>
    waits (parked k') (active k') (send_waiters q') S (n - count (items q')) \<and>
    waits (parked k') (active k') (recv_waiters q') R (count (items q'))"
proof -
  obtain x xs where l: "ring_list n (items q) = x # xs"
    using r(2) ring_length [of n "items q"] by (cases "ring_list n (items q)") auto
  from ring.pop_first [OF r(1) l] obtain i where
    i: "ring_pop n (items q) = (Some x, i)" "ring_inv n i" "ring_list n i = xs" by blast
  have c: "count (items q) = Suc (count i)" using i(3) l ring_length [of n i] ring_length [of n "items q"] by simp
  have cn: "count (items q) \<le> n" using r(1) by (simp add: ring_inv_def)
  have w: "r = Some x" "wake_sender (q\<lparr>items := i\<rparr>, k) = (q', k')" using w by (simp_all add: i(1))
  show ?thesis
  proof (cases "send_waiters q = []")
    case True
    then have "q' = q\<lparr>items := i\<rparr>" "k' = k" using w(2) by (simp_all add: wake_sender_def)
    then show ?thesis using ok i l c snd rcv w(1) True by (auto intro: waits_nil)
  next
    case False
    obtain v vs where b: "take_best (\<lambda>t. get_priority t k) (send_waiters q) = (v, vs)" by fastforce
    have q': "q' = q\<lparr>items := i, send_waiters := vs\<rparr>" "k' = unblock v k"
      using w(2) False b by (simp_all add: wake_sender_def)
    note a = kernel.waits_wake [OF ok snd False b]
    have "v \<notin> R" using a(3) dis by blast
    moreover have "n - count i = Suc (n - count (items q))" using c cn by simp
    ultimately show ?thesis
      using i l c q' w(1) a kernel.wake_ok [OF ok a(2)] kernel.waits_wake_other [OF ok a(2) _ rcv] by simp
  qed
qed

lemma queue_send_step:
  assumes inv: "qinv n s" and t: "current (qkern s) = t" "t \<noteq> INVALID_TASK" "t \<notin> receiving s"
    and q: "queue_send n x (que s, qkern s) = (r, q, k)"
  shows "qinv n (s\<lparr>qkern := k, que := q, sending := (sending s)(t := if r then None else Some x),
                 sent := if r then sent s @ [x] else sent s\<rparr>)" (is "qinv n ?s")
proof -
  let ?k = "qkern s" and ?q = "que s"
  have ok: "kernel_ok ?k" "current ?k \<noteq> INVALID_TASK" using inv t by (simp_all add: qinv_def)
  have snd: "waits (parked ?k) (active ?k) (send_waiters ?q) (senders s) (n - count (items ?q))"
    and rcv: "waits (parked ?k) (active ?k) (recv_waiters ?q) (receiving s) (count (items ?q))"
    and r: "ring_inv n (items ?q)" and dis: "senders s \<inter> receiving s = {}"
    using inv by (simp_all add: qinv_def)
  show ?thesis
  proof (cases "count (items ?q) = n")
    case True
    have j: "waits (parked (block_current ?k)) (active (block_current ?k)) (send_waiters ?q @ [t]) (insert t (senders s)) 0"
      "length (send_waiters ?q) < MAX_TASKS"
      using kernel.waits_park [OF ok snd] t(1) by simp_all
    then have e: "\<not> r" "q = ?q\<lparr>send_waiters := send_waiters ?q @ [t]\<rparr>" "k = block_current ?k"
      using q True t(1) by (simp_all add: queue_send_def)
    have "senders ?s = insert t (senders s)" using e(1) by (auto simp: senders_def)
    moreover have "waits (parked k) (active k) (recv_waiters ?q) (receiving s) (count (items ?q))"
      using kernel.waits_park_other [OF ok _ rcv] t e(3) by simp
    ultimately show ?thesis
      using inv j e True t(3) t(2) [symmetric] dis kernel.park_ok [OF ok] by (simp add: qinv_def)
  next
    case False
    have e: "r" "wake_receiver (?q\<lparr>items := snd (ring_push n x (items ?q))\<rparr>, ?k) = (q, k)"
      using q False by (simp_all add: queue_send_def)
    have "waits (parked ?k) (active ?k) (send_waiters ?q) (senders s - {t}) (n - count (items ?q) - 1)"
      using kernel.waits_return [OF ok snd] t(1) by simp
    moreover have d: "(senders s - {t}) \<inter> receiving s = {}" using dis by blast
    ultimately have st: "kernel_ok k \<and> ring_inv n (items q) \<and> ring_list n (items q) = ring_list n (items ?q) @ [x] \<and>
        waits (parked k) (active k) (send_waiters q) (senders s - {t}) (n - count (items q)) \<and>
        waits (parked k) (active k) (recv_waiters q) (receiving s) (count (items q))"
      using store_item [OF ok(1) r False _ rcv _ e(2)] by blast
    have "senders ?s = senders s - {t}" using e(1) by (auto simp: senders_def)
    then show ?thesis using inv st d e(1) by (simp add: qinv_def)
  qed
qed

lemma queue_receive_step:
  assumes inv: "qinv n s" and t: "current (qkern s) = t" "t \<noteq> INVALID_TASK" "t \<notin> senders s"
    and q: "queue_receive n (que s, qkern s) = (r, q, k)"
  shows "qinv n (s\<lparr>qkern := k, que := q,
                 receiving := (case r of None \<Rightarrow> insert t (receiving s) | Some x \<Rightarrow> receiving s - {t}),
                 got := (case r of None \<Rightarrow> got s | Some x \<Rightarrow> got s @ [x])\<rparr>)" (is "qinv n ?s")
proof -
  let ?k = "qkern s" and ?q = "que s"
  have ok: "kernel_ok ?k" "current ?k \<noteq> INVALID_TASK" using inv t by (simp_all add: qinv_def)
  have snd: "waits (parked ?k) (active ?k) (send_waiters ?q) (senders s) (n - count (items ?q))"
    and rcv: "waits (parked ?k) (active ?k) (recv_waiters ?q) (receiving s) (count (items ?q))"
    and r: "ring_inv n (items ?q)" and dis: "senders s \<inter> receiving s = {}"
    using inv by (simp_all add: qinv_def)
  have sn: "senders ?s = senders s" by (simp add: senders_def)
  show ?thesis
  proof (cases "count (items ?q) = 0")
    case True
    have j: "waits (parked (block_current ?k)) (active (block_current ?k)) (recv_waiters ?q @ [t]) (insert t (receiving s)) 0"
      "length (recv_waiters ?q) < MAX_TASKS"
      using kernel.waits_park [OF ok rcv] t(1) by simp_all
    then have e: "r = None" "q = ?q\<lparr>recv_waiters := recv_waiters ?q @ [t]\<rparr>" "k = block_current ?k"
      using q True t(1) by (simp_all add: queue_receive_def)
    moreover have "waits (parked k) (active k) (send_waiters ?q) (senders s) (n - count (items ?q))"
      using kernel.waits_park_other [OF ok _ snd] t e(3) by simp
    ultimately show ?thesis
      using inv j True t(3) t(2) [symmetric] dis kernel.park_ok [OF ok] sn by (simp add: qinv_def)
  next
    case False
    have e: "(let (x, i) = ring_pop n (items ?q) in (x, wake_sender (?q\<lparr>items := i\<rparr>, ?k))) = (r, q, k)"
      using q False by (simp add: queue_receive_def)
    have "waits (parked ?k) (active ?k) (recv_waiters ?q) (receiving s - {t}) (count (items ?q) - 1)"
      using kernel.waits_return [OF ok rcv] t(1) by simp
    moreover have d: "senders s \<inter> (receiving s - {t}) = {}" using dis by blast
    ultimately obtain x where "r = Some x" "kernel_ok k" "ring_inv n (items q)"
      "ring_list n (items ?q) = x # ring_list n (items q)"
      "waits (parked k) (active k) (send_waiters q) (senders s) (n - count (items q))"
      "waits (parked k) (active k) (recv_waiters q) (receiving s - {t}) (count (items q))"
      using take_item [OF ok(1) r False snd _ _ e] by blast
    then show ?thesis using inv sn d by (simp add: qinv_def)
  qed
qed

lemma qstep_qinv: "qstep n s s' \<Longrightarrow> qinv n s \<Longrightarrow> qinv n s'"
proof (induction rule: qstep.induct)
  case (q_kernel s k)
  have ok: "kernel_ok (qkern s)" using q_kernel by (simp add: qinv_def)
  have r: "current (qkern s) \<notin> senders s \<or> current (qkern s) \<in> set (send_waiters (que s))"
    "current (qkern s) \<notin> receiving s \<or> current (qkern s) \<in> set (recv_waiters (que s))"
    using q_kernel by (auto simp: busy_def qinv_def)
  have "senders (s\<lparr>qkern := k\<rparr>) = senders s" by (simp add: senders_def)
  then show ?case
    using q_kernel(3) kernel.env_ok [OF ok q_kernel(2)] kernel.waits_env [OF ok q_kernel(2) r(1)]
      kernel.waits_env [OF ok q_kernel(2) r(2)]
    by (simp add: qinv_def)
next
  case (q_send s t x r q k)
  show ?case by (rule queue_send_step [OF q_send(6,1,2,3,5)])
next
  case (q_receive s t r q k)
  show ?case by (rule queue_receive_step [OF q_receive(5,1,2,3,4)])
next
  case (q_try_send s x r q k)
  show ?case
  proof (cases "count (items (que s)) = n")
    case True
    then show ?thesis using q_try_send by (simp add: queue_try_send_def qinv_def senders_def)
  next
    case False
    have e: "r" "wake_receiver ((que s)\<lparr>items := snd (ring_push n x (items (que s)))\<rparr>, qkern s) = (q, k)"
      using q_try_send(2) False by (simp_all add: queue_try_send_def)
    have "waits (parked (qkern s)) (active (qkern s)) (send_waiters (que s)) (senders s) (n - count (items (que s)) - 1)"
      using q_try_send(3) by (auto simp: qinv_def intro: waits_less)
    from store_item [OF _ _ False this _ _ e(2)] q_try_send(3)
    show ?thesis using e(1) by (auto simp: qinv_def senders_def)
  qed
next
  case (q_try_receive s r q k)
  show ?case
  proof (cases "count (items (que s)) = 0")
    case True
    then show ?thesis using q_try_receive by (simp add: queue_try_receive_def qinv_def senders_def)
  next
    case False
    have e: "(let (x, i) = ring_pop n (items (que s)) in (x, wake_sender ((que s)\<lparr>items := i\<rparr>, qkern s))) = (r, q, k)"
      using q_try_receive(2) False by (simp add: queue_try_receive_def)
    have "waits (parked (qkern s)) (active (qkern s)) (recv_waiters (que s)) (receiving s) (count (items (que s)) - 1)"
      using q_try_receive(3) by (auto simp: qinv_def intro: waits_less)
    then obtain x where "r = Some x" "kernel_ok k" "ring_inv n (items q)"
      "ring_list n (items (que s)) = x # ring_list n (items q)"
      "waits (parked k) (active k) (send_waiters q) (senders s) (n - count (items q))"
      "waits (parked k) (active k) (recv_waiters q) (receiving s) (count (items q))"
      using take_item [OF _ _ False _ _ _ e, where S = "senders s"] q_try_receive(3) unfolding qinv_def by blast
    then show ?thesis using q_try_receive(3) by (simp add: qinv_def senders_def)
  qed
qed

lemma qreach_qinv: "qreach n s \<Longrightarrow> 0 < n \<Longrightarrow> qinv n s"
proof (induction rule: qreach.induct)
  case (q_new x)
  have "kernel_ok new_sched" using new_sched_ok by (simp add: kernel_ok_def clean_def new_sched_def)
  then show ?case using q_new
    by (simp add: qinv_def new_queue_def ring_empty_inv ring_empty_list senders_def waits_def)
qed (rule qstep_qinv)

text \<open>When nobody runs and nobody can be selected, no task is active.\<close>

lemma idle_inactive:
  assumes ok: "kernel_ok k" and c: "current k = INVALID_TASK" and s: "select_next k = INVALID_TASK"
    and p: "\<forall>t < length (tasks k). priority (tasks k ! t) \<noteq> 0xFF"
  shows "active k = {}"
proof -
  have l: "length (tasks k) \<le> MAX_TASKS" using ok by (simp add: kernel_ok_def ok_length)
  have "best_prio (tasks k) = 0xFF" using select_cases [OF l] s by blast
  then have "state (tasks k ! t) \<noteq> READY" if "t < length (tasks k)" for t
    using best_prio_le [OF that] p that unsigned_less [where w = "priority (tasks k ! t)" and 'a = nat]
    by (auto simp: word_le_nat_alt word_unat_eq_iff)
  moreover have "state (tasks k ! t) \<noteq> RUNNING" if "t < length (tasks k)" for t
    using ok that ok_invalid [of k t] c by (auto simp: kernel_ok_def sched_ok_def)
  ultimately show ?thesis by (auto simp: active_def)
qed

section \<open>Properties\<close>

text \<open>C7. The queue is first in, first out across all tasks, whatever they block, yield and are
  preempted: the items handed out, followed by those stored, are those sent, in order; and it
  never holds more than its capacity.\<close>

theorem queue_is_fifo:
  assumes "qreach n s" "0 < n"
  shows "sent s = got s @ ring_list n (items (que s)) \<and> length (sent s) - length (got s) \<le> n"
  using qreach_qinv [OF assms] by (auto simp: qinv_def ring_inv_def dest: sym)

theorem queue_is_fifo_witness:
  "\<exists>s :: nat qsys. qreach 2 s \<and> sent s = [7] \<and> got s = [] \<and> ring_list 2 (items (que s)) = [7]"
proof -
  let ?s = "\<lparr>qkern = new_sched, que = new_queue 2 0, sending = (\<lambda>_. None), receiving = {}, sent = [], got = []\<rparr> :: nat qsys"
  let ?q = "(new_queue 2 0)\<lparr>items := snd (ring_push 2 7 (items (new_queue 2 0)))\<rparr> :: nat queue"
  let ?t = "?s\<lparr>qkern := new_sched, que := ?q, sent := [7]\<rparr>"
  have "queue_try_send 2 7 (new_queue 2 (0 :: nat), new_sched) = (True, ?q, new_sched)"
    by (simp add: queue_try_send_def wake_receiver_def new_queue_def ring_empty_def)
  moreover have "\<not> busy ?s" by (simp add: busy_def new_sched_def)
  ultimately have "qstep 2 ?s ?t"
    using q_try_send [where s = ?s and x = 7 and r = True and q = ?q and k = new_sched] by simp
  then have r: "qreach 2 ?t" by (rule q_step [OF q_new])
  from queue_is_fifo [OF r] have "ring_list 2 (items (que ?t)) = [7]" by simp
  with r show ?thesis by (intro exI [of _ ?t]) simp
qed



end
