(* ===== verification/Wait_Bounds.thy ===== *)
theory Wait_Bounds
  imports Mutex Semaphore Queue
begin

text \<open>
  The arrays of waiters of src/rtos/mutex.h, semaphore.h and queue.h: \<open>lock\<close>, \<open>take\<close>, \<open>send\<close> and
  \<open>receive\<close> store the current task only if there is room, but block it in any case.
\<close>


text \<open>One task that runs and uses nothing.\<close>

lemma one_task:
  obtains k k' where "benign new_sched k" "current k = INVALID_TASK" "benign k k'" "current k' = 0"
proof -
  let ?k = "snd (xTaskCreate 1 new_sched)"
  have k: "?k = \<lparr>tasks = [\<lparr>priority = 1, state = READY, resume_tick = 0\<rparr>], tick_count = 0, current = INVALID_TASK\<rparr>"
    by (simp add: xTaskCreate_def new_sched_def MAX_TASKS_def)
  have "select_next ?k = 0" unfolding k by (simp add: select_eval)
  then have "current (vTaskStartScheduler ?k) = 0" by (simp add: vTaskStartScheduler_def INVALID_TASK_def)
  moreover have "current ?k = INVALID_TASK" unfolding k by simp
  ultimately show thesis using that [of ?k "vTaskStartScheduler ?k"] b_create b_start by blast
qed


end
