(* ===== verification/Event_Group.thy ===== *)
theory Event_Group
  imports Kernel
begin

text \<open>
  The event group of src/rtos/event_group.h. Waking a waiter in the middle of \<open>check_waiters\<close> may
  hand the processor over; the loop then pauses and goes on when its task runs again, on whatever
  the other tasks have made of the group. The array of waiters is kept with its counter, whose
  wrap-around matters.
\<close>

section \<open>Operations\<close>

record waiter =
  wtask :: nat
  wait_bits :: u32
  wall :: bool

record event_group =
  bits :: u32
  slots :: "waiter list"
  wcount :: u8

definition new_group :: event_group where
  "new_group = \<lparr>bits = 0, slots = replicate MAX_TASKS \<lparr>wtask = 0, wait_bits = 0, wall = False\<rparr>, wcount = 0\<rparr>"

definition satisfied :: "u32 \<Rightarrow> bool \<Rightarrow> event_group \<Rightarrow> bool" where
  "satisfied b all g = (if all then bits g AND b = b else bits g AND b \<noteq> 0)"

text \<open>
  How the loop ends: through its test, paused in the body after the call that handed over the
  processor, or with an access outside the array, whose outcome C++ leaves open.
\<close>

datatype check_result = Finished | Paused nat | OutOfBounds

function check_from :: "nat \<Rightarrow> event_group \<times> sched \<Rightarrow> check_result \<times> event_group \<times> sched" where
  "check_from i (g, k) =
     (if \<not> i < unat (wcount g) then (Finished, g, k)
      else if i \<ge> MAX_TASKS then (OutOfBounds, g, k)
      else if satisfied (wait_bits (slots g ! i)) (wall (slots g ! i)) g then
        (let k' = unblock (wtask (slots g ! i)) k; c = wcount g - 1 in
         if current k' \<noteq> current k then (Paused i, g, k')
         else if unat c \<ge> MAX_TASKS then (OutOfBounds, g\<lparr>wcount := c\<rparr>, k')
         else check_from i (g\<lparr>slots := (slots g)[i := slots g ! unat c], wcount := c\<rparr>, k'))
      else check_from (i + 1) (g, k))"
  by pat_completeness auto
termination
proof (relation "measure (\<lambda>(i, g, k). unat (wcount g) - i)"; clarsimp)
  fix i g assume "i < unat (wcount (g :: event_group))"
  moreover from this have "unat (wcount g - 1) = unat (wcount g) - 1"
    by (simp add: unat_sub_if_size word_less_nat_alt word_le_nat_alt)
  ultimately show "unat (wcount g - 1) - i < unat (wcount g) - i" by simp
qed auto

declare check_from.simps [simp del]

text \<open>The loop goes on: the rest of the body for \<open>i\<close>, then the loop.\<close>

definition check_resume :: "nat \<Rightarrow> event_group \<times> sched \<Rightarrow> check_result \<times> event_group \<times> sched" where
  "check_resume i = (\<lambda>(g, k).
     let c = wcount g - 1 in
     if unat c \<ge> MAX_TASKS then (OutOfBounds, g\<lparr>wcount := c\<rparr>, k)
     else check_from i (g\<lparr>slots := (slots g)[i := slots g ! unat c], wcount := c\<rparr>, k))"

definition set_bits :: "u32 \<Rightarrow> event_group \<times> sched \<Rightarrow> check_result \<times> event_group \<times> sched" where
  "set_bits b = (\<lambda>(g, k). check_from 0 (g\<lparr>bits := bits g OR b\<rparr>, k))"

definition clear_bits :: "u32 \<Rightarrow> event_group \<Rightarrow> event_group" where
  "clear_bits b g = g\<lparr>bits := bits g AND NOT b\<rparr>"

definition check_bits :: "u32 \<Rightarrow> bool \<Rightarrow> event_group \<Rightarrow> bool" where
  "check_bits b all g = satisfied b all g"

text \<open>\<open>wait_bits\<close> from the test of its loop on; without a result the call waits.\<close>

definition await_bits :: "u32 \<Rightarrow> bool \<Rightarrow> bool \<Rightarrow> event_group \<times> sched \<Rightarrow> u32 option \<times> event_group \<times> sched" where
  "await_bits b all clear_on_exit = (\<lambda>(g, k).
     if \<not> satisfied b all g then
       (None,
        if unat (wcount g) < MAX_TASKS
        then g\<lparr>slots := (slots g)[unat (wcount g) := \<lparr>wtask = current k, wait_bits = b, wall = all\<rparr>], wcount := wcount g + 1\<rparr>
        else g,
        block_current k)
     else (Some (bits g), if clear_on_exit then g\<lparr>bits := bits g AND NOT b\<rparr> else g, k))"

section \<open>The loop without preemption\<close>

definition waiting :: "event_group \<Rightarrow> waiter list" where
  "waiting g = take (unat (wcount g)) (slots g)"

definition met :: "u32 \<Rightarrow> waiter \<Rightarrow> bool" where
  "met b w = (if wall w then b AND wait_bits w = wait_bits w else b AND wait_bits w \<noteq> 0)"

text \<open>The tasks in \<open>T\<close>, as far as they are blocked, made ready.\<close>

definition released :: "nat set \<Rightarrow> sched \<Rightarrow> sched" where
  "released T k = k\<lparr>tasks := map (\<lambda>t. if t \<in> T \<and> state (tasks k ! t) = BLOCKED
     then (tasks k ! t)\<lparr>state := READY\<rparr> else tasks k ! t) [0 ..< length (tasks k)]\<rparr>"

lemma released_empty: "released {} k = k"
  by (simp add: released_def map_nth)

lemma released_simps [simp]:
  "length (tasks (released T k)) = length (tasks k)" "current (released T k) = current k"
  "t < length (tasks k) \<Longrightarrow> tasks (released T k) ! t =
     (if t \<in> T \<and> state (tasks k ! t) = BLOCKED then (tasks k ! t)\<lparr>state := READY\<rparr> else tasks k ! t)"
  by (simp_all add: released_def)

text \<open>A task that does not preempt the current one.\<close>

definition calm :: "nat \<Rightarrow> sched \<Rightarrow> bool" where
  "calm t k \<longleftrightarrow> current k = INVALID_TASK \<or> \<not> priority (tasks k ! t) < priority (tasks k ! current k)"

lemma unblock_calm:
  assumes "calm t k" "current k = INVALID_TASK \<or> current k < length (tasks k)"
  shows "unblock t k = released {t} k"
proof (cases "t < length (tasks k) \<and> state (tasks k ! t) = BLOCKED")
  case True
  then have "unblock t k = set_state t READY k"
    using assms by (auto simp: unblock_def calm_def Let_def)
  also have "\<dots> = released {t} k"
    using True unfolding set_state_def released_def
    by (intro arg_cong2 [where f = "\<lambda>x k. k\<lparr>tasks := x\<rparr>"] refl nth_equalityI) (auto simp: nth_list_update)
  finally show ?thesis .
next
  case False
  then have "unblock t k = k" by (auto simp: unblock_def)
  also have "tasks k = tasks (released {t} k)" using False by (intro nth_equalityI) auto
  then have "k = released {t} k" by (simp add: released_def)
  finally show ?thesis .
qed

lemma calm_released:
  "t < length (tasks k) \<Longrightarrow> current k = INVALID_TASK \<or> current k < length (tasks k) \<Longrightarrow>
   calm t (released T k) \<longleftrightarrow> calm t k"
proof -
  have "u < length (tasks k) \<Longrightarrow> priority (tasks (released T k) ! u) = priority (tasks k ! u)" for u by simp
  then show "t < length (tasks k) \<Longrightarrow> current k = INVALID_TASK \<or> current k < length (tasks k) \<Longrightarrow>
      calm t (released T k) \<longleftrightarrow> calm t k"
    by (auto simp: calm_def simp del: released_simps(3))
qed

lemma released_twice: "released T (released U k) = released (T \<union> U) k"
  unfolding released_def by (auto intro!: nth_equalityI)

lemma satisfied_met: "satisfied (wait_bits w) (wall w) g \<longleftrightarrow> met (bits g) w"
  by (simp add: satisfied_def met_def)

text \<open>The compaction of the array, seen on the list of waiters.\<close>

lemma compact_waiting:
  assumes "length (slots g) = MAX_TASKS" "unat (wcount g) \<le> MAX_TASKS" "i < unat (wcount g)"
  defines "h \<equiv> g\<lparr>slots := (slots g)[i := slots g ! unat (wcount g - 1)], wcount := wcount g - 1\<rparr>"
  shows "unat (wcount h) = unat (wcount g) - 1" and "waiting h = butlast ((waiting g)[i := last (waiting g)])"
proof -
  show w: "unat (wcount h) = unat (wcount g) - 1"
    using assms(3) by (simp add: h_def unat_sub_if_size word_less_nat_alt word_le_nat_alt)
  let ?n = "unat (wcount g)"
  have "last (waiting g) = slots g ! (?n - 1)"
    using assms by (subst last_conv_nth) (auto simp: waiting_def min_def)
  then have "(waiting g)[i := last (waiting g)] = take ?n ((slots g)[i := slots g ! (?n - 1)])"
    by (simp add: waiting_def take_update_swap)
  moreover have "unat (wcount g - 1) = ?n - 1" using w by (simp add: h_def)
  ultimately show "waiting h = butlast ((waiting g)[i := last (waiting g)])"
    using assms by (simp add: waiting_def h_def butlast_take min_def)
qed

lemma check_calm:
  "length (slots g) = MAX_TASKS \<Longrightarrow> unat (wcount g) \<le> MAX_TASKS \<Longrightarrow> i \<le> unat (wcount g) \<Longrightarrow>
   current k = INVALID_TASK \<or> current k < length (tasks k) \<Longrightarrow>
   \<forall>w \<in> set (waiting g). wtask w < length (tasks k) \<and> calm (wtask w) k \<Longrightarrow>
   \<exists>h. check_from i (g, k) = (Finished, h, released (wtask ` {w \<in> set (drop i (waiting g)). met (bits g) w}) k) \<and>
     bits h = bits g \<and>
     mset (waiting h) = mset (take i (waiting g)) + filter_mset (\<lambda>w. \<not> met (bits g) w) (mset (drop i (waiting g)))"
proof (induction "unat (wcount g) - i" arbitrary: i g k rule: less_induct)
  case less
  let ?W = "waiting g" and ?w = "slots g ! i"
  have lW: "length ?W = unat (wcount g)" using less.prems by (simp add: waiting_def)
  show ?case
  proof (cases "i < unat (wcount g)")
    case False
    then have "drop i ?W = []" "take i ?W = ?W" using lW less.prems(3) by simp_all
    then show ?thesis using False by (simp add: check_from.simps [of i g] released_empty)
  next
    case True
    then have iM: "\<not> i \<ge> MAX_TASKS" using less.prems(2) by simp
    have W: "?W ! i = ?w" "?w \<in> set ?W" "drop i ?W = ?w # drop (Suc i) ?W"
      using True lW by (auto simp: waiting_def Cons_nth_drop_Suc [symmetric] in_set_conv_nth)
    show ?thesis
    proof (cases "met (bits g) ?w")
      case False
      then have ns: "\<not> satisfied (wait_bits ?w) (wall ?w) g" by (simp add: satisfied_met)
      have "unat (wcount g) - Suc i < unat (wcount g) - i" using True by linarith
      then obtain h where h: "check_from (Suc i) (g, k) =
          (Finished, h, released (wtask ` {w \<in> set (drop (Suc i) ?W). met (bits g) w}) k)" "bits h = bits g"
          "mset (waiting h) = mset (take (Suc i) ?W) + filter_mset (\<lambda>w. \<not> met (bits g) w) (mset (drop (Suc i) ?W))"
        using less.hyps [of g "Suc i" k] True less.prems by auto
      have "check_from i (g, k) = check_from (Suc i) (g, k)"
        using True iM ns by (simp add: check_from.simps [of i g])
      moreover have "{w \<in> set (drop i ?W). met (bits g) w} = {w \<in> set (drop (Suc i) ?W). met (bits g) w}"
        using W(3) False by auto
      ultimately show ?thesis
        using h False W True lW by (intro exI [of _ h]) (simp add: take_Suc_conv_app_nth)
    next
      case met: True
      let ?k = "unblock (wtask ?w) k" and ?c = "wcount g - 1"
      let ?g = "g\<lparr>slots := (slots g)[i := slots g ! unat ?c], wcount := ?c\<rparr>"
      have k: "?k = released {wtask ?w} k"
        using less.prems(4,5) W(2) by (intro unblock_calm) auto
      note c = compact_waiting [OF less.prems(1,2) True]
      have cM: "\<not> unat ?c \<ge> MAX_TASKS" using c(1) True less.prems(2) by simp
      have step: "check_from i (g, k) = check_from i (?g, ?k)"
        using True iM met cM by (simp add: check_from.simps [of i g] satisfied_met k Let_def)
      have mW: "mset ?W = add_mset ?w (mset (waiting ?g))"
        unfolding c(2) using swap_remove_mset [of i ?W] True lW W(1) by simp
      then have sW: "set (waiting ?g) \<subseteq> set ?W" by (metis set_mset_mset set_mset_add_mset_insert subset_insertI)
      have cal: "\<forall>w \<in> set (waiting ?g). wtask w < length (tasks ?k) \<and> calm (wtask w) ?k"
      proof
        fix w assume "w \<in> set (waiting ?g)"
        then have "wtask w < length (tasks k)" "calm (wtask w) k" using sW less.prems(5) by auto
        then show "wtask w < length (tasks ?k) \<and> calm (wtask w) ?k"
          using less.prems(4) by (simp add: calm_released k)
      qed
      have m: "unat (wcount ?g) - i < unat (wcount g) - i" "unat (wcount ?g) \<le> MAX_TASKS" "i \<le> unat (wcount ?g)"
        using True c(1) less.prems(2) by linarith+
      have l: "length (slots ?g) = MAX_TASKS" "current ?k = INVALID_TASK \<or> current ?k < length (tasks ?k)"
        using less.prems(1,4) by (simp_all add: k)
      obtain h where h: "check_from i (?g, ?k) =
          (Finished, h, released (wtask ` {w \<in> set (drop i (waiting ?g)). met (bits g) w}) ?k)" "bits h = bits g"
          "mset (waiting h) = mset (take i (waiting ?g)) + filter_mset (\<lambda>w. \<not> met (bits g) w) (mset (drop i (waiting ?g)))"
        using less.hyps [OF m(1) l(1) m(2,3) l(2) cal] by auto
      have tk: "take i (waiting ?g) = take i ?W"
        unfolding c(2) using True lW by (simp add: take_butlast)
      have "mset (take i ?W) + mset (drop i ?W) = add_mset ?w (mset (take i (waiting ?g)) + mset (drop i (waiting ?g)))"
        using mW by (metis append_take_drop_id mset_append)
      then have dr: "mset (drop i ?W) = add_mset ?w (mset (drop i (waiting ?g)))"
        unfolding tk by (metis add_left_cancel union_mset_add_mset_right)
      then have "set (drop i ?W) = insert ?w (set (drop i (waiting ?g)))"
        by (metis set_mset_add_mset_insert set_mset_mset)
      then have "wtask ` {w \<in> set (drop i ?W). met (bits g) w} =
          wtask ` {w \<in> set (drop i (waiting ?g)). met (bits g) w} \<union> {wtask ?w}"
        using met by auto
      then show ?thesis
        using h met dr tk by (intro exI [of _ h]) (simp add: step k released_twice)
    qed
  qed
qed

section \<open>Properties\<close>

text \<open>Setting bits wakes exactly the waiters whose condition holds: when none of the waiters has a
  better priority than the current task, the loop over the array ends, the tasks of those waiters
  are ready if they were blocked, no other task changes, and the other waiters stay in the array.\<close>

theorem set_bits_wakes_satisfied:
  assumes "length (slots g) = MAX_TASKS" "unat (wcount g) \<le> MAX_TASKS"
    "current k = INVALID_TASK \<or> current k < length (tasks k)"
    "\<forall>w \<in> set (waiting g). wtask w < length (tasks k) \<and> calm (wtask w) k"
  shows "\<exists>h. set_bits b (g, k) =
      (Finished, h, released (wtask ` {w \<in> set (waiting g). met (bits g OR b) w}) k) \<and>
    bits h = bits g OR b \<and>
    mset (waiting h) = filter_mset (\<lambda>w. \<not> met (bits g OR b) w) (mset (waiting g))"
  using check_calm [of "g\<lparr>bits := bits g OR b\<rparr>" 0 k] assms by (simp add: set_bits_def waiting_def)

theorem set_bits_wakes_satisfied_witness:
  "\<exists>h. set_bits 1 (new_group\<lparr>slots := (slots new_group)[0 := \<lparr>wtask = 0, wait_bits = 1, wall = True\<rparr>], wcount := 1\<rparr>,
      \<lparr>tasks = [\<lparr>priority = 1, state = BLOCKED, resume_tick = 0\<rparr>], tick_count = 0, current = INVALID_TASK\<rparr>) =
    (Finished, h, \<lparr>tasks = [\<lparr>priority = 1, state = READY, resume_tick = 0\<rparr>], tick_count = 0, current = INVALID_TASK\<rparr>) \<and>
    waiting h = []"
proof -
  let ?g = "new_group\<lparr>slots := (slots new_group)[0 := \<lparr>wtask = 0, wait_bits = 1, wall = True\<rparr>], wcount := 1\<rparr>"
  let ?k = "\<lambda>st. \<lparr>tasks = [\<lparr>priority = 1, state = st, resume_tick = 0\<rparr>], tick_count = 0, current = INVALID_TASK\<rparr> :: sched"
  have w: "waiting ?g = [\<lparr>wtask = 0, wait_bits = 1, wall = True\<rparr>]"
    by (simp add: waiting_def new_group_def MAX_TASKS_def numeral_eq_Suc)
  have m: "{w \<in> set (waiting ?g). met (bits ?g OR 1) w} = {\<lparr>wtask = 0, wait_bits = 1, wall = True\<rparr>}"
    unfolding w by (auto simp: met_def new_group_def)
  have "released {0} (?k BLOCKED) = ?k READY" by (simp add: released_def)
  moreover have "\<exists>h. set_bits 1 (?g, ?k BLOCKED) = (Finished, h, released (wtask ` {w \<in> set (waiting ?g). met (bits ?g OR 1) w}) (?k BLOCKED)) \<and>
    bits h = bits ?g OR 1 \<and> mset (waiting h) = filter_mset (\<lambda>w. \<not> met (bits ?g OR 1) w) (mset (waiting ?g))"
    by (rule set_bits_wakes_satisfied) (simp_all add: w calm_def, simp_all add: new_group_def MAX_TASKS_def)
  ultimately show ?thesis unfolding m unfolding w by (auto simp: met_def new_group_def)
qed

text \<open>Setting bits in a task that was just woken corrupts the group: a waiter of a better priority
  preempts the loop that wakes it, and if it sets bits itself before the loop goes on, the inner
  loop removes its entry, and the outer loop then counts the waiters down from 0 to 255 and reads
  outside the array (here task 0 sets bit 0 for task 1, which sets bit 1 and delays).\<close>

theorem nested_set_bits_corrupts:
  "case set_bits 1 (new_group\<lparr>slots := (slots new_group)[0 := \<lparr>wtask = 1, wait_bits = 1, wall = True\<rparr>], wcount := 1\<rparr>,
      \<lparr>tasks = [\<lparr>priority = 2, state = RUNNING, resume_tick = 0\<rparr>, \<lparr>priority = 1, state = BLOCKED, resume_tick = 0\<rparr>],
       tick_count = 0, current = 0\<rparr>) of (r1, g1, k1) \<Rightarrow>
     r1 = Paused 0 \<and> current k1 = 1 \<and> await_bits 1 True False (g1, k1) = (Some 1, g1, k1) \<and>
     (case set_bits 2 (g1, k1) of (r2, g2, k2) \<Rightarrow>
        r2 = Finished \<and> wcount g2 = 0 \<and> current (vTaskDelay 5 k2) = 0 \<and>
        (case check_resume 0 (g2, vTaskDelay 5 k2) of (r3, g3, k3) \<Rightarrow> r3 = OutOfBounds \<and> wcount g3 = 255))"
proof -
  let ?w = "\<lparr>wtask = 1, wait_bits = 1, wall = True\<rparr>"
  let ?g = "\<lambda>b c. \<lparr>bits = b, slots = (slots new_group)[0 := ?w], wcount = c\<rparr>"
  let ?k = "\<lambda>a b r c. \<lparr>tasks = [\<lparr>priority = 2, state = a, resume_tick = 0\<rparr>, \<lparr>priority = 1, state = b, resume_tick = r\<rparr>],
       tick_count = 0, current = c\<rparr> :: sched"
  have sel: "select_next (?k READY READY 0 0) = 1" "select_next (?k READY BLOCKED 5 1) = 0"
    by (simp_all add: select_next_def best_prio_def Let_def upt_rec INVALID_TASK_def)
  have u: "unblock 1 (?k RUNNING BLOCKED 0 0) = ?k READY RUNNING 0 1"
    using sel(1) by (simp add: unblock_def set_state_def INVALID_TASK_def schedule_from.simps [of 0] Let_def)
  have u2: "unblock 1 (?k READY RUNNING 0 1) = ?k READY RUNNING 0 1"
    by (simp add: unblock_def)
  have d: "vTaskDelay 5 (?k READY RUNNING 0 1) = ?k RUNNING BLOCKED 5 0"
    using sel(2) by (simp add: vTaskDelay_def set_state_def INVALID_TASK_def schedule_from.simps [of "Suc 0"] Let_def)
  have s: "(slots new_group)[0 := ?w] ! 0 = ?w" "(slots new_group)[0 := ?w, 0 := ?w] = (slots new_group)[0 := ?w]"
    by (simp_all add: new_group_def MAX_TASKS_def)
  have 1: "set_bits 1 (?g 0 1, ?k RUNNING BLOCKED 0 0) = (Paused 0, ?g 1 1, ?k READY RUNNING 0 1)"
    using u s by (simp add: set_bits_def check_from.simps [of 0] satisfied_def MAX_TASKS_def)
  have 2: "set_bits 2 (?g 1 1, ?k READY RUNNING 0 1) = (Finished, ?g 3 0, ?k READY RUNNING 0 1)"
    using u2 s by (simp add: set_bits_def check_from.simps [of 0] satisfied_def MAX_TASKS_def)
  have 3: "check_resume 0 (?g 3 0, ?k RUNNING BLOCKED 5 0) = (OutOfBounds, ?g 3 255, ?k RUNNING BLOCKED 5 0)"
  proof -
    have "(- 1 :: u8) = 255" by simp
    then have "unat (- 1 :: u8) = 255" by (simp only: \<open>- 1 = 255\<close>) simp
    then show ?thesis by (simp add: check_resume_def MAX_TASKS_def Let_def)
  qed
  have g: "new_group\<lparr>slots := (slots new_group)[0 := ?w], wcount := 1\<rparr> = ?g 0 1" by (simp add: new_group_def)
  show ?thesis unfolding g 1 by (simp add: 2 3 d await_bits_def satisfied_def del: One_nat_def)
qed

end
