(* ===== verification/Event_System.thy ===== *)
theory Event_System
  imports Event_Group
begin

text \<open>
  The tasks that use an event group (src/rtos/event_group.h) as a transition system. Bits are set
  only while no waiter has a better priority than the task that sets them, since a waiter that
  preempts the loop over the waiters can corrupt it (\<open>nested_set_bits_corrupts\<close>).
\<close>

section \<open>Tasks that use an event group\<close>

text \<open>
  \<open>calls\<close> holds the arguments of the calls of \<open>wait_bits\<close> that have not returned. The loop of such a
  call tests its condition again whenever its task is current.
\<close>

record esys =
  ekern :: sched
  grp :: event_group
  calls :: "nat \<Rightarrow> (u32 \<times> bool \<times> bool) option"

definition at_rest :: "esys \<Rightarrow> bool" where
  "at_rest s \<longleftrightarrow> current (ekern s) = INVALID_TASK \<or> calls s (current (ekern s)) = None"

definition polite :: "esys \<Rightarrow> bool" where
  "polite s \<longleftrightarrow> (\<forall>w \<in> set (waiting (grp s)). calm (wtask w) (ekern s))"

inductive estep :: "esys \<Rightarrow> esys \<Rightarrow> bool" where
  e_kernel: "at_rest s \<Longrightarrow> benign (ekern s) k \<Longrightarrow> estep s (s\<lparr>ekern := k\<rparr>)"
| e_wait: "current (ekern s) = t \<Longrightarrow> t \<noteq> INVALID_TASK \<Longrightarrow> calls s t = None \<or> calls s t = Some (b, all, cl) \<Longrightarrow>
    await_bits b all cl (grp s, ekern s) = (r, g, k) \<Longrightarrow>
    estep s \<lparr>ekern = k, grp = g, calls = (calls s)(t := if r = None then Some (b, all, cl) else None)\<rparr>"
| e_set: "at_rest s \<Longrightarrow> polite s \<Longrightarrow> set_bits b (grp s, ekern s) = (Finished, g, k) \<Longrightarrow>
    estep s (s\<lparr>ekern := k, grp := g\<rparr>)"
| e_clear: "at_rest s \<Longrightarrow> estep s (s\<lparr>grp := clear_bits b (grp s)\<rparr>)"

inductive ereach :: "esys \<Rightarrow> bool" where
  e_new: "ereach \<lparr>ekern = new_sched, grp = new_group, calls = (\<lambda>_. None)\<rparr>"
| e_step: "ereach s \<Longrightarrow> estep s t \<Longrightarrow> ereach t"

section \<open>Conditions and bits\<close>

lemma bits_clear:
  "(x AND NOT y) AND v = v \<Longrightarrow> x AND v = v" "x AND v = 0 \<Longrightarrow> (x AND NOT y) AND v = 0" for x y v :: u32
proof -
  show "x AND v = v" if "(x AND NOT y) AND v = v"
  proof (rule bit_word_eqI)
    fix n show "bit (x AND v) n = bit v n" using arg_cong [OF that, of "\<lambda>v. bit v n"] by (auto simp: bit_and_iff)
  qed
  show "(x AND NOT y) AND v = 0" if "x AND v = 0"
  proof (rule bit_word_eqI)
    fix n show "bit ((x AND NOT y) AND v) n = bit (0 :: u32) n"
      using arg_cong [OF that, of "\<lambda>v. bit v n"] by (auto simp: bit_and_iff)
  qed
qed

lemma met_clear: "met (x AND NOT y) w \<Longrightarrow> met x w"
  using bits_clear(1) [of x y "wait_bits w"] bits_clear(2) [of x "wait_bits w" y]
  by (cases "wall w") (auto simp: met_def)

section \<open>Waiters that are released\<close>

lemma released_insert:
  assumes "t < length (tasks k)" "state (tasks k ! t) = BLOCKED"
  shows "released (insert t T) k = set_state t READY (released T k)"
proof -
  have "tasks (released (insert t T) k) = tasks (set_state t READY (released T k))"
    using assms by (intro nth_equalityI) (auto simp: nth_list_update)
  then show ?thesis by (simp add: released_def set_state_def)
qed

lemma released_parked:
  assumes "finite T" "T \<subseteq> parked k" "kernel_ok k"
  shows "kernel_ok (released T k) \<and> parked (released T k) = parked k - T \<and> active k \<union> T \<subseteq> active (released T k)"
  using assms
proof (induction T)
  case empty
  then show ?case by (simp add: released_empty)
next
  case (insert t T)
  then have ih: "kernel_ok (released T k)" "parked (released T k) = parked k - T" "active k \<union> T \<subseteq> active (released T k)"
    by auto
  have t: "t < length (tasks k)" "state (tasks k ! t) = BLOCKED" "t \<in> parked (released T k)"
    using insert.prems(1) insert.hyps(2) ih(2) by (auto simp: parked_def)
  note r = ready_parked [OF ih(1) t(3), folded released_insert [OF t(1,2)]]
  show ?case using r ih by auto
qed

text \<open>The loop keeps the array and never adds to it.\<close>

lemma check_shape:
  "check_from i (g, k) = (r, h, k') \<Longrightarrow> length (slots h) = length (slots g) \<and> unat (wcount h) \<le> unat (wcount g)"
proof (induction i "(g, k)" arbitrary: g k rule: check_from.induct)
  case (1 i g k)
  have le: "unat (wcount g - 1) \<le> unat (wcount g)" if "i < unat (wcount g)"
    using that by (simp add: unat_sub_if_size word_less_nat_alt word_le_nat_alt)
  show ?case
    using 1(3) 1(1,2) le unfolding check_from.simps [of i g k]
    by (fastforce simp: Let_def split: if_splits)
qed

section \<open>The invariant\<close>

text \<open>
  The waiters are distinct parked tasks in their calls, and none of their conditions holds; whoever
  is in a call and does not wait can run.
\<close>

definition einv :: "esys \<Rightarrow> bool" where
  "einv s \<longleftrightarrow> kernel_ok (ekern s) \<and> length (slots (grp s)) = MAX_TASKS \<and> unat (wcount (grp s)) \<le> MAX_TASKS \<and>
     distinct (map wtask (waiting (grp s))) \<and> wtask ` set (waiting (grp s)) \<subseteq> parked (ekern s) \<and>
     (\<forall>w \<in> set (waiting (grp s)). \<not> met (bits (grp s)) w \<and> (\<exists>cl. calls s (wtask w) = Some (wait_bits w, wall w, cl))) \<and>
     (\<forall>t. calls s t \<noteq> None \<longrightarrow> t \<in> wtask ` set (waiting (grp s)) \<or> t \<in> active (ekern s)) \<and>
     calls s INVALID_TASK = None"

lemma polite_current: "kernel_ok k \<Longrightarrow> current k = INVALID_TASK \<or> current k < length (tasks k)"
  using ok_current [of k] by (auto simp: kernel_ok_def)

text \<open>The loop of \<open>set_bits\<close> in a state of the invariant.\<close>

lemma set_bits_polite:
  fixes s b
  assumes "einv s" "polite s"
  defines "T \<equiv> wtask ` {w \<in> set (waiting (grp s)). met (bits (grp s) OR b) w}"
  obtains h where "set_bits b (grp s, ekern s) = (Finished, h, released T (ekern s))" "bits h = bits (grp s) OR b"
    "mset (waiting h) = filter_mset (\<lambda>w. \<not> met (bits (grp s) OR b) w) (mset (waiting (grp s)))"
    "length (slots h) = MAX_TASKS" "unat (wcount h) \<le> MAX_TASKS"
proof -
  let ?g = "(grp s)\<lparr>bits := bits (grp s) OR b\<rparr>"
  have w: "\<forall>w \<in> set (waiting ?g). wtask w < length (tasks (ekern s)) \<and> calm (wtask w) (ekern s)"
    using assms(1,2) by (auto simp: einv_def polite_def waiting_def parked_def)
  have i: "length (slots ?g) = MAX_TASKS" "unat (wcount ?g) \<le> MAX_TASKS" "0 \<le> unat (wcount ?g)"
    using assms(1) by (simp_all add: einv_def)
  have c: "current (ekern s) = INVALID_TASK \<or> current (ekern s) < length (tasks (ekern s))"
    using assms(1) by (intro polite_current) (simp add: einv_def)
  obtain h where h: "check_from 0 (?g, ekern s) = (Finished, h, released (wtask ` {w \<in> set (drop 0 (waiting ?g)). met (bits ?g) w}) (ekern s))"
    "bits h = bits ?g" "mset (waiting h) = mset (take 0 (waiting ?g)) + filter_mset (\<lambda>w. \<not> met (bits ?g) w) (mset (drop 0 (waiting ?g)))"
    using check_calm [OF i c w] by blast
  have g: "waiting ?g = waiting (grp s)" by (simp add: waiting_def)
  show thesis
  proof (rule that)
    show "set_bits b (grp s, ekern s) = (Finished, h, released T (ekern s))"
      using h(1) by (simp add: set_bits_def T_def g)
    show "length (slots h) = MAX_TASKS" "unat (wcount h) \<le> MAX_TASKS"
      using check_shape [OF h(1)] i by auto
  qed (use h(2,3) in \<open>simp_all add: g\<close>)
qed

lemma waiting_append:
  fixes g w
  assumes "length (slots g) = MAX_TASKS" "unat (wcount g) < MAX_TASKS"
  defines "h \<equiv> g\<lparr>slots := (slots g)[unat (wcount g) := w], wcount := wcount g + 1\<rparr>"
  shows "waiting h = waiting g @ [w]" and "unat (wcount h) = unat (wcount g) + 1" and "length (slots h) = MAX_TASKS"
    and "bits h = bits g"
proof -
  show n: "unat (wcount h) = unat (wcount g) + 1"
    using assms(2) by (simp add: h_def MAX_TASKS_def unat_word_ariths)
  show "waiting h = waiting g @ [w]"
    unfolding waiting_def n using assms(1,2) by (simp add: h_def take_Suc_conv_app_nth)
qed (use assms(1) in \<open>simp_all add: h_def\<close>)

lemma estep_einv: "estep s s' \<Longrightarrow> einv s \<Longrightarrow> einv s'"
proof (induction rule: estep.induct)
  case (e_kernel s k)
  let ?W = "wtask ` set (waiting (grp s))"
  have k: "kernel_ok k" "parked (ekern s) \<subseteq> parked k" "active (ekern s) - {current (ekern s)} \<subseteq> active k"
    using e_kernel kernel.env_ok kernel.env_parked kernel.env_active by (auto simp: einv_def)
  have "t \<noteq> current (ekern s)" if "calls s t \<noteq> None" for t
    using that e_kernel by (auto simp: at_rest_def einv_def)
  then have "\<forall>t. calls s t \<noteq> None \<longrightarrow> t \<in> ?W \<or> t \<in> active k" "?W \<subseteq> parked k"
    using k e_kernel(3) unfolding einv_def by blast+
  then show ?case using e_kernel(3) k(1) by (simp add: einv_def)
next
  case (e_wait s t b all cl r g k)
  let ?G = "grp s"
  have ok: "kernel_ok (ekern s)" "current (ekern s) \<noteq> INVALID_TASK" using e_wait by (simp_all add: einv_def)
  have nw: "t \<notin> wtask ` set (waiting ?G)"
    using e_wait(1,5) kernel.running_not_parked [OF ok] by (auto simp: einv_def)
  show ?case
  proof (cases "satisfied b all ?G")
    case True
    then have r: "r = Some (bits ?G)" "k = ekern s" "g = ?G \<or> g = ?G\<lparr>bits := bits ?G AND NOT b\<rparr>"
      using e_wait(4) by (auto simp: await_bits_def split: if_splits)
    have m: "waiting g = waiting ?G" "slots g = slots ?G" "wcount g = wcount ?G" "met (bits g) w \<Longrightarrow> met (bits ?G) w" for w
      using r(3) met_clear by (auto simp: waiting_def)
    show ?thesis using e_wait(2,5) nw m(4) by (auto simp: einv_def r(1,2) m(1-3))
  next
    case False
    let ?w = "\<lparr>wtask = t, wait_bits = b, wall = all\<rparr>"
    have j: "distinct (map wtask (waiting ?G) @ [t]) \<and> set (map wtask (waiting ?G) @ [t]) \<subseteq> parked (block_current (ekern s)) \<and>
        length (map wtask (waiting ?G)) < MAX_TASKS"
      using kernel.join_waiters [OF ok, of "map wtask (waiting ?G)"] e_wait(1,5) by (simp add: einv_def)
    then have n: "unat (wcount ?G) < MAX_TASKS" "length (slots ?G) = MAX_TASKS"
      using e_wait(5) by (auto simp: einv_def waiting_def)
    have r: "r = None" "k = block_current (ekern s)" "g = ?G\<lparr>slots := (slots ?G)[unat (wcount ?G) := ?w], wcount := wcount ?G + 1\<rparr>"
      using e_wait(1,4) False n by (simp_all add: await_bits_def)
    note a = waiting_append [OF n(2,1), of ?w, folded r(3)]
    have k: "kernel_ok k" "active (ekern s) - {t} \<subseteq> active k"
      using kernel.park_ok [OF ok] kernel.park_active [OF ok] e_wait(1) by (simp_all add: r)
    moreover have "u \<in> wtask ` set (waiting ?G) \<or> u \<in> active k" if "u \<noteq> t" "calls s u \<noteq> None" for u
      using that k(2) e_wait(5) unfolding einv_def by blast
    moreover have "\<not> met (bits g) ?w" using False by (simp add: a(4) met_def satisfied_def split: if_splits)
    ultimately show ?thesis
      using e_wait(2,5) nw j n unfolding einv_def by (auto simp: a r(1,2))
  qed
next
  case (e_set s b g k)
  obtain h where h: "set_bits b (grp s, ekern s) =
      (Finished, h, released (wtask ` {w \<in> set (waiting (grp s)). met (bits (grp s) OR b) w}) (ekern s))"
    "bits h = bits (grp s) OR b" "mset (waiting h) = filter_mset (\<lambda>w. \<not> met (bits (grp s) OR b) w) (mset (waiting (grp s)))"
    "length (slots h) = MAX_TASKS" "unat (wcount h) \<le> MAX_TASKS"
    using set_bits_polite [OF e_set(4,2)] .
  let ?W = "waiting (grp s)" and ?T = "wtask ` {w \<in> set (waiting (grp s)). met (bits (grp s) OR b) w}"
  have g: "g = h" "k = released ?T (ekern s)" using h(1) e_set(3) by auto
  have T: "kernel_ok k \<and> parked k = parked (ekern s) - ?T \<and> active (ekern s) \<union> ?T \<subseteq> active k"
    unfolding g by (rule released_parked) (use e_set(4) in \<open>auto simp: einv_def\<close>)
  have s: "set (waiting h) = {w \<in> set ?W. \<not> met (bits (grp s) OR b) w}"
    by (metis h(3) set_mset_filter set_mset_mset)
  have "mset (map wtask (waiting h)) = mset (map wtask (filter (\<lambda>w. \<not> met (bits (grp s) OR b) w) ?W))"
    by (simp add: h(3))
  moreover have d: "distinct (map wtask ?W)" using e_set(4) by (simp add: einv_def)
  then have "distinct (map wtask (filter (\<lambda>w. \<not> met (bits (grp s) OR b) w) ?W))" by (rule distinct_map_filter)
  ultimately have "distinct (map wtask (waiting h))" using mset_eq_imp_distinct_iff by blast
  moreover have "wtask w \<notin> ?T" if "w \<in> set (waiting h)" for w
    using that d unfolding s by (auto simp: distinct_map inj_on_def)
  moreover have "u \<in> wtask ` set (waiting h) \<or> u \<in> active k" if "calls s u \<noteq> None" for u
    using that T e_set(4) unfolding s einv_def by blast
  ultimately show ?case
    using e_set(4) T h(2,4,5) unfolding einv_def by (auto simp: g s)
next
  case (e_clear s b)
  then show ?case using met_clear by (auto simp: einv_def clear_bits_def waiting_def)
qed

lemma ereach_einv: "ereach s \<Longrightarrow> einv s"
proof (induction rule: ereach.induct)
  case e_new
  have "kernel_ok new_sched" using new_sched_ok by (simp add: kernel_ok_def clean_def new_sched_def)
  then show ?case by (simp add: einv_def new_group_def waiting_def)
qed (rule estep_einv)

section \<open>Properties\<close>



end
