(* ===== verification/Messages.thy ===== *)
theory Messages
  imports Prelude
begin

text \<open>
  Text that several components write: decimal and hexadecimal numbers as \<open>std::to_string\<close>,
  \<open>std::ostream\<close> and \<open>std::printf\<close> format them, and the messages of the exceptions of
  src/src/memory.h, src/src/cpu.h, src/src/loader.h and src/peripherals/peripheral.h.
\<close>

section \<open>Numbers\<close>

text \<open>Decimal digits, as \<open>std::to_string\<close> writes them.\<close>

fun to_string :: "nat \<Rightarrow> string" where
  "to_string n = (if n < 10 then [char_of (48 + n)] else to_string (n div 10) @ [char_of (48 + n mod 10)])"

declare to_string.simps [simp del]

text \<open>\<open>%d\<close>\<close>

definition int_string :: "int \<Rightarrow> string" where
  "int_string i = (if i < 0 then CHR ''-'' # to_string (nat (- i)) else to_string (nat i))"

definition hex_digit_char :: "bool \<Rightarrow> nat \<Rightarrow> char" where
  "hex_digit_char upper d = char_of (if d < 10 then 48 + d else if upper then 55 + d else 87 + d)"

text \<open>\<open>os << std::hex << n\<close>, with \<open>std::uppercase\<close> or without.\<close>

fun hex_number :: "bool \<Rightarrow> nat \<Rightarrow> string" where
  "hex_number upper n =
     (if n < 16 then [hex_digit_char upper n]
      else hex_number upper (n div 16) @ [hex_digit_char upper (n mod 16)])"

declare hex_number.simps [simp del]

lemma hex_steps:
  "n < 16 \<Longrightarrow> hex_number upper n = [hex_digit_char upper n]"
  "\<not> n < 16 \<Longrightarrow> hex_number upper n = hex_number upper (n div 16) @ [hex_digit_char upper (n mod 16)]"
  by (subst hex_number.simps, simp)+

text \<open>\<open>std::setw(n) << std::setfill(c)\<close>\<close>

definition setw :: "nat \<Rightarrow> char \<Rightarrow> string \<Rightarrow> string" where
  "setw n c t = replicate (n - length t) c @ t"

lemma to_string_nonempty [simp]: "to_string n \<noteq> []"
  by (subst to_string.simps) simp

section \<open>Messages of the exceptions\<close>

definition fault_hex :: "u32 \<Rightarrow> string" where
  "fault_hex v = setw 8 CHR ''0'' (hex_number True (unat v))"

definition opcode_hex :: "u16 \<Rightarrow> string" where
  "opcode_hex v = setw 4 CHR ''0'' (hex_number True (unat v))"

text \<open>\<open>%08X\<close> of peripheral.h, in a buffer of 12 characters.\<close>

definition address_hex :: "u32 \<Rightarrow> string" where
  "address_hex v = take 11 (setw 8 CHR ''0'' (hex_number True (unat v)))"

primrec what :: "exn \<Rightarrow> string" where
  "what (BusFaultException addr) = ''Bus fault at 0x'' @ fault_hex addr"
| "what (UndefinedInstructionException op) = ''Undefined instruction: 0x'' @ opcode_hex op"
| "what (LoaderError msg) = msg"
| "what (PeripheralError msg) = ''Peripheral error: '' @ msg"
| "what (AddressError addr) = ''Peripheral error: '' @ ''unmapped address 0x'' @ address_hex addr"

section \<open>Hexadecimal text\<close>

lemma hex_length: "n < 16 ^ k \<Longrightarrow> k \<noteq> 0 \<Longrightarrow> length (hex_number upper n) \<le> k"
proof (induction upper n arbitrary: k rule: hex_number.induct)
  case (1 upper n)
  show ?case
  proof (cases "n < 16")
    case False
    obtain j where k: "k = Suc j" using 1(3) by (cases k) auto
    have "j \<noteq> 0" using 1(2) False k by (cases j) auto
    moreover have "n div 16 < 16 ^ j" using 1(2) k by (simp add: less_mult_imp_div_less mult.commute)
    ultimately have "length (hex_number upper (n div 16)) \<le> j" using 1(1) [OF False] by simp
    with False k show ?thesis by (subst hex_number.simps) simp
  next
    case True
    with 1(3) show ?thesis by (subst hex_number.simps) simp
  qed
qed

text \<open>Reading the digits back.\<close>

definition digit_value :: "char \<Rightarrow> nat" where
  "digit_value c = (let n = of_char c in if n < 65 then n - 48 else if n < 97 then n - 55 else n - 87)"

definition hex_value :: "string \<Rightarrow> nat" where
  "hex_value s = foldl (\<lambda>v c. 16 * v + digit_value c) 0 s"

lemma digit_back: "d < 16 \<Longrightarrow> digit_value (hex_digit_char upper d) = d"
  by (auto simp: digit_value_def hex_digit_char_def Let_def)

lemma hex_back: "hex_value (hex_number upper n) = n"
proof (induction upper n rule: hex_number.induct)
  case (1 upper n)
  then show ?case
    by (subst hex_number.simps) (simp add: hex_value_def digit_back)
qed

lemma hex_value_zeros: "hex_value (setw n CHR ''0'' s) = hex_value s"
proof -
  have "foldl (\<lambda>v c. 16 * v + digit_value c) 0 (replicate k CHR ''0'') = 0" for k
    by (induction k) (simp_all add: digit_value_def)
  then show ?thesis by (simp add: hex_value_def setw_def)
qed

lemma hex_texts_back:
  "length (fault_hex v) = 8" "hex_value (fault_hex v) = unat v" "address_hex v = fault_hex v"
  "length (opcode_hex w) = 4" "hex_value (opcode_hex w) = unat w"
proof -
  show l: "length (fault_hex v) = 8"
    using hex_length [of "unat v" 8 True] unsigned_less [where w = v and 'a = nat] by (simp add: fault_hex_def setw_def)
  then show "address_hex v = fault_hex v" by (simp add: address_hex_def fault_hex_def)
  show "length (opcode_hex w) = 4"
    using hex_length [of "unat w" 4 True] unsigned_less [where w = w and 'a = nat] by (simp add: opcode_hex_def setw_def)
qed (simp_all add: fault_hex_def opcode_hex_def hex_value_zeros hex_back)

lemma fault_hex_inj: "fault_hex v = fault_hex w \<longleftrightarrow> v = w"
  using hex_texts_back(2) [of v] hex_texts_back(2) [of w] by (metis word_unat_eq_iff)

lemma opcode_hex_inj: "opcode_hex v = opcode_hex w \<longleftrightarrow> v = w"
  using hex_texts_back(5) [of v] hex_texts_back(5) [of w] by (metis word_unat_eq_iff)

text \<open>
  The message of a fault of the processor tells which fault it was, and where: it is not empty, and
  no other exception of the processor has the same.
\<close>

lemma what_tells: "cpu_exn d \<Longrightarrow> cpu_exn e \<Longrightarrow> what d = what e \<longleftrightarrow> d = e"
  and what_nonempty: "cpu_exn e \<Longrightarrow> what e \<noteq> []"
  by (cases d; cases e; simp add: cpu_exn_def fault_hex_inj opcode_hex_inj)+

end
