(* ===== verification/Runner.thy ===== *)
theory Runner
  imports Cpu_Run Messages
begin

text \<open>
  The parallel runner of src/src/parallel_sim.h: one simulation (\<open>run_one\<close>), with the records it
  pushes to the trace collector, and the simulations of \<open>SimulationRunner::run\<close> side by side, as a
  transition system in which each step is one locked call of the collector or the end of a
  thread. The wall-clock time is left out.
\<close>

section \<open>Tasks, results and records\<close>

record sim_record =
  sim_id :: u32
  label :: string
  event :: string
  at_cycle :: u64
  at_pc :: u32

record sim_task =
  task_id :: u32
  task_label :: string
  instructions :: "u16 list"
  max_steps :: nat
  initial_sp :: u32
  checkpoint_every_10k :: bool

record sim_result =
  result_id :: u32
  result_label :: string
  result_cycles :: u64
  completed :: bool
  exception_msg :: string
  final_regs :: "u32 list"

definition sim_event :: "sim_task \<Rightarrow> string \<Rightarrow> u64 \<Rightarrow> u32 \<Rightarrow> sim_record" where
  "sim_event task e c p =
     \<lparr>sim_id = task_id task, label = task_label task, event = e, at_cycle = c, at_pc = p\<rparr>"

section \<open>One simulation\<close>

text \<open>The instructions are stored from address 0 on, until a store faults.\<close>

primrec load_instructions :: "u16 list \<Rightarrow> u32 \<Rightarrow> flat_mem \<Rightarrow> exn option \<times> flat_mem" where
  "load_instructions [] addr m = (None, m)"
| "load_instructions (i # is) addr m =
     (case write16 m addr i of
        Inl e \<Rightarrow> (Some e, m)
      | Inr m' \<Rightarrow> load_instructions is (addr + 2) m')"

definition start_cpu :: "sim_task \<Rightarrow> machine \<Rightarrow> machine" where
  "start_cpu task s = set_reg SP (initial_sp task) (set_reg LR 0 (set_reg PC 0 (reset s)))"

text \<open>
  The loop with checkpoints: whether the machine halted, and the records pushed. The step count it
  keeps is not used afterwards.
\<close>

function checkpoint_loop :: "sim_task \<Rightarrow> nat \<Rightarrow> machine \<Rightarrow> (exn + bool) \<times> machine \<times> sim_record list" where
  "checkpoint_loop task remaining s =
     (if remaining = 0 then (Inr False, s, [])
      else let batch = min 10000 remaining in
        (case run batch s of
           (Inl e, t) \<Rightarrow> (Inl e, t, [])
         | (Inr n, t) \<Rightarrow>
             if n < batch then (Inr True, t, [])
             else (let (r, u, l) = checkpoint_loop task (remaining - n) t
                   in (r, u, sim_event task ''CHECKPOINT'' (cycles t) (reg t PC) # l))))"
  by pat_completeness auto
termination by (relation "measure (\<lambda>(task, remaining, s). remaining)") (auto split: if_splits)

declare checkpoint_loop.simps [simp del]

text \<open>The body of the \<open>try\<close> block after the load: what it gives \<open>completed\<close>, or an exception.\<close>

definition run_body :: "sim_task \<Rightarrow> machine \<Rightarrow> (exn + bool) \<times> machine \<times> sim_record list" where
  "run_body task s =
     (if \<not> checkpoint_every_10k task then
        (case run (max_steps task) s of
           (Inl e, t) \<Rightarrow> (Inl e, t, [])
         | (Inr n, t) \<Rightarrow> (Inr (n < max_steps task), t, []))
      else checkpoint_loop task (max_steps task) s)"

definition run_one :: "sim_task \<Rightarrow> sim_result \<times> sim_record list" where
  "run_one task =
     (let (r, s, l) =
        (case load_instructions (instructions task) 0 new_flat_mem of
           (Some e, m) \<Rightarrow> (Inl e, new_machine m, [])
         | (None, m) \<Rightarrow> run_body task (start_cpu task (new_machine m)));
        out = \<lparr>result_id = task_id task, result_label = task_label task, result_cycles = cycles s,
               completed = (case r of Inl _ \<Rightarrow> False | Inr c \<Rightarrow> c),
               exception_msg = (case r of Inl e \<Rightarrow> what e | Inr _ \<Rightarrow> []),
               final_regs = map (reg s) [0 ..< 16]\<rparr>
      in (out, sim_event task ''START'' 0 0 # l @
           [sim_event task (if exception_msg out = [] then ''DONE'' else ''EXCEPTION'')
              (result_cycles out) (final_regs out ! 15)]))"

section \<open>Checkpoints\<close>

text \<open>One turn of the loop.\<close>

lemma checkpoint_turn:
  assumes "n \<noteq> 0" "run (min 10000 n) s = (q, t)"
  shows "checkpoint_loop task n s =
    (case q of
       Inl e \<Rightarrow> (Inl e, t, [])
     | Inr k \<Rightarrow>
         if k < min 10000 n then (Inr True, t, [])
         else (case checkpoint_loop task (n - min 10000 n) t of
                 (r, u, l) \<Rightarrow> (r, u, sim_event task ''CHECKPOINT'' (cycles t) (reg t PC) # l)))"
proof (cases q)
  case (Inr k)
  have "k \<le> min 10000 n" using run_count [of s "min 10000 n"] assms Inr by (auto split: if_splits)
  then have "\<not> k < min 10000 n \<Longrightarrow> k = min 10000 n" by (simp only: not_less antisym)
  with Inr assms show ?thesis by (subst checkpoint_loop.simps) (auto simp: Let_def split: prod.splits)
qed (use assms in \<open>subst checkpoint_loop.simps, simp add: Let_def\<close>)

text \<open>
  The loop is one run: the same machine, and the same outcome. It pushes a checkpoint after each
  full batch.
\<close>

lemma checkpoint_run:
  "(case checkpoint_loop task n s of (r, t, l) \<Rightarrow>
      (r, t) = (case run n s of (Inl e, t) \<Rightarrow> (Inl e, t) | (Inr k, t) \<Rightarrow> (Inr (k < n), t)) \<and>
      (\<forall>e \<in> set l. e = sim_event task ''CHECKPOINT'' (at_cycle e) (at_pc e)) \<and>
      (case run n s of (Inl e, u) \<Rightarrow> True
       | (Inr k, u) \<Rightarrow> length l = (if k < n then k div 10000 else (n + 9999) div 10000)))"
proof (induction n arbitrary: s rule: less_induct)
  case (less n)
  show ?case
  proof (cases "n = 0")
    case n: False
    define b where "b = min 10000 n"
    have b: "b + (n - b) = n" "b \<noteq> 0" "b \<le> 10000" "n - b < n" using n by (auto simp: b_def)
    obtain q t where r: "run b s = (q, t)" by (cases "run b s")
    note turn = checkpoint_turn [OF n r [unfolded b_def], folded b_def]
    note split = run_split [of b "n - b" s, unfolded b(1) r]
    show ?thesis
    proof (cases q)
      case (Inl e)
      then show ?thesis using turn [of task] split by simp
    next
      case (Inr k)
      show ?thesis
      proof (cases "k < b")
        case True
        then have "k div 10000 = 0" "k < n" using b by auto
        with True Inr show ?thesis using turn [of task] split by simp
      next
        case False
        moreover have "k \<le> b" using run_count [of s b] r Inr by (auto split: if_splits)
        ultimately have k: "k = b" by simp
        obtain r' u l where c: "checkpoint_loop task (n - b) t = (r', u, l)"
          by (cases "checkpoint_loop task (n - b) t")
        obtain q2 u2 where r2: "run (n - b) t = (q2, u2)" by (cases "run (n - b) t")
        have "run n s = plus_steps b (q2, u2)" using split Inr k r2 by simp
        moreover have "n - b \<noteq> 0 \<Longrightarrow> b = 10000" by (auto simp: b_def)
        moreover have "Suc ((n + 9999 - b) div 10000) = (n + 9999) div 10000"
          using n by (cases "n \<le> 10000") (auto simp: b_def min_def div_if)
        ultimately show ?thesis
          using less.IH [OF b(4), of t] turn [of task] c r2 Inr k b
          by (cases q2) (auto simp: sim_event_def split: if_splits)
      qed
    qed
  qed (simp add: checkpoint_loop.simps)
qed


section \<open>The program in memory\<close>

definition program_bytes :: "u16 list \<Rightarrow> u8 list" where
  "program_bytes is = concat (map (\<lambda>i. [byte 0 i, byte 1 i]) is)"

lemma program_bytes_Nil: "program_bytes [] = []"
  by (simp add: program_bytes_def)

lemma program_bytes_Cons: "program_bytes (i # is) = byte 0 i # byte 1 i # program_bytes is"
  by (simp add: program_bytes_def)

lemma load_instructions_fits:
  "unat a + 2 * length is \<le> SIZE \<Longrightarrow>
   load_instructions is a m = (None, m\<lparr>bytes := copy_bytes (bytes m) (unat a) (program_bytes is)\<rparr>)"
proof (induction "is" arbitrary: a m)
  case (Cons i "is")
  then have a: "unat a + 2 \<le> SIZE" by simp
  then have w: "write16 m a i = Inr (m\<lparr>bytes := copy_bytes (bytes m) (unat a) [byte 0 i, byte 1 i]\<rparr>)"
    by (simp add: write16_def translate_def SIZE_def)
  show ?case
  proof (cases "is")
    case Nil
    with w show ?thesis by (simp add: program_bytes_Cons program_bytes_Nil fun_upd_def)
  next
    case (Cons j js)
    with Cons.prems have "unat (a + 2) = unat a + 2" by (simp add: unat_word_ariths SIZE_def)
    with w Cons.IH [of "a + 2"] Cons.prems show ?thesis by (simp add: program_bytes_Cons)
  qed
qed (simp add: program_bytes_Nil)

lemma load_instructions_full:
  "unat a + 2 * k = SIZE \<Longrightarrow> k < length is \<Longrightarrow> fst (load_instructions is a m) = Some (BusFaultException 0x10000)"
proof (induction "is" arbitrary: a m k)
  case (Cons i "is")
  show ?case
  proof (cases k)
    case 0
    with Cons.prems have "unat a = unat (0x10000 :: u32)" by (simp add: SIZE_def)
    then have "a = 0x10000" by (simp only: word_unat_eq_iff)
    then have "write16 m a i = Inl (BusFaultException 0x10000)"
      by (simp add: write16_def translate_def SIZE_def SRAM_BASE_def)
    then show ?thesis by simp
  next
    case (Suc j)
    then have "unat a + 2 \<le> SIZE" using Cons.prems by simp
    then have w: "write16 m a i = Inr (m\<lparr>bytes := copy_bytes (bytes m) (unat a) [byte 0 i, byte 1 i]\<rparr>)"
      by (simp add: write16_def translate_def SIZE_def)
    have "unat (a + 2) = unat a + 2" using Cons.prems Suc by (simp add: unat_word_ariths SIZE_def)
    then show ?thesis using w Cons.IH [of "a + 2" j] Cons.prems Suc by simp
  qed
qed simp

lemma fault_at_end: "fault_hex 0x10000 = ''00010000''"
  by (simp add: fault_hex_def setw_def hex_steps hex_digit_char_def char_of_def) (simp add: numeral_3_eq_3 bit_0)

text \<open>C29. A simulation is one run of the processor, with checkpoints or without: the instructions lie in
  memory from address 0 on, the registers are cleared but for the stack pointer, and the result
  is the machine that the run ends in. It counts as completed exactly when that machine has
  halted, and the last record is DONE, or EXCEPTION when the run raised one. A program of more
  than 64 KiB ends with a bus fault before the first instruction.\<close>

theorem simulation_is_one_run:
  "case run_one task of (out, l) \<Rightarrow>
     if length (instructions task) > 0x8000
     then exception_msg out = ''Bus fault at 0x00010000'' \<and> event (last l) = ''EXCEPTION'' \<and>
       \<not> completed out \<and> result_cycles out = 0
     else (case run (max_steps task)
              (new_machine \<lparr>bytes = copy_bytes (\<lambda>_. 0) 0 (program_bytes (instructions task))\<rparr>
               \<lparr>regs := (\<lambda>_. 0)(SP := initial_sp task)\<rparr>) of
             (Inl e, t) \<Rightarrow> exception_msg out = what e \<and> event (last l) = ''EXCEPTION'' \<and>
               \<not> completed out \<and> result_cycles out = cycles t \<and> final_regs out = map (regs t) [0 ..< 16]
           | (Inr k, t) \<Rightarrow> exception_msg out = [] \<and> event (last l) = ''DONE'' \<and>
               completed out = halted t \<and> result_cycles out = cycles t \<and>
               cycles t = of_nat k + of_bool (halted t) \<and> final_regs out = map (regs t) [0 ..< 16])"
proof (cases "length (instructions task) > 0x8000")
  case True
  then have "fst (load_instructions (instructions task) 0 new_flat_mem) = Some (BusFaultException 0x10000)"
    by (intro load_instructions_full [of _ "0x8000"]) (simp_all add: SIZE_def)
  with True show ?thesis
    by (cases "load_instructions (instructions task) 0 new_flat_mem")
      (simp add: run_one_def sim_event_def new_machine_def reset_def fault_at_end Let_def)
next
  case False
  let ?m = "\<lparr>bytes = copy_bytes (\<lambda>_. 0) 0 (program_bytes (instructions task))\<rparr>"
  let ?s = "new_machine ?m\<lparr>regs := (\<lambda>_. 0)(SP := initial_sp task)\<rparr>"
  have "load_instructions (instructions task) 0 new_flat_mem = (None, ?m)"
    using False by (subst load_instructions_fits) (simp_all add: SIZE_def new_flat_mem_def)
  moreover have "start_cpu task (new_machine ?m) = ?s"
    by (simp add: start_cpu_def new_machine_def reset_def set_reg_def reg_index fun_eq_iff)
  moreover obtain q t where r: "run (max_steps task) ?s = (q, t)" by (cases "run (max_steps task) ?s")
  moreover obtain r u l where b: "run_body task ?s = (r, u, l)" by (cases "run_body task ?s")
  moreover have "\<not> halted ?s" "cycles ?s = 0" by (simp_all add: new_machine_def reset_def)
  moreover note run_count [of ?s "max_steps task", unfolded r]
  moreover have "(r, u) = (case q of Inl e \<Rightarrow> (Inl e, t) | Inr k \<Rightarrow> (Inr (k < max_steps task), t))"
    using b r checkpoint_run [where task = task and n = "max_steps task" and s = ?s]
    by (cases "checkpoint_every_10k task") (auto simp: run_body_def split: sum.splits)
  moreover have "what e \<noteq> []" if "q = Inl e" for e
    using run_raises what_nonempty r that by blast
  ultimately show ?thesis
    using False by (cases q) (simp_all add: run_one_def sim_event_def Let_def reg_def [abs_def])
qed

section \<open>The trace collector and the threads\<close>

text \<open>Each call of the collector holds its lock, so that it is one step.\<close>

definition push :: "sim_record \<Rightarrow> sim_record list \<Rightarrow> sim_record list" where
  "push r m_log = m_log @ [r]"

definition drain :: "sim_record list \<Rightarrow> sim_record list \<times> sim_record list" where
  "drain m_log = (m_log, [])"

text \<open>
  What a thread does that others can see: it pushes records, fills in its own element of the
  results before the last push, and counts itself. \<open>results\<close> is the vector that the threads refer
  to; it is taken to be the one that \<open>run\<close> returns, as it is when the compiler constructs the
  returned object in place.
\<close>

datatype call = Push sim_record | Store sim_result | CountRun

definition thread_calls :: "sim_task \<Rightarrow> call list" where
  "thread_calls task =
     (let (out, l) = run_one task in map Push (butlast l) @ [Store out, Push (last l), CountRun])"

record par =
  trace_log :: "sim_record list"
  drained :: "sim_record list"
  results :: "sim_result list"
  total_run :: u64
  progress :: "nat \<Rightarrow> nat"

definition no_result :: "sim_task \<Rightarrow> sim_result" where
  "no_result task = \<lparr>result_id = task_id task, result_label = task_label task, result_cycles = 0,
     completed = False, exception_msg = [], final_regs = replicate 16 0\<rparr>"

definition spawn :: "sim_task list \<Rightarrow> par" where
  "spawn tasks = \<lparr>trace_log = [], drained = [], results = map no_result tasks, total_run = 0, progress = (\<lambda>_. 0)\<rparr>"

fun perform :: "nat \<Rightarrow> call \<Rightarrow> par \<Rightarrow> par" where
  "perform i (Push r) s = s\<lparr>trace_log := push r (trace_log s)\<rparr>"
| "perform i (Store out) s = s\<lparr>results := (results s)[i := out]\<rparr>"
| "perform i CountRun s = s\<lparr>total_run := total_run s + 1\<rparr>"

text \<open>A thread makes its next call, or the consumer drains the log.\<close>

inductive par_reach :: "sim_task list \<Rightarrow> par \<Rightarrow> bool" for tasks where
  p_spawn: "par_reach tasks (spawn tasks)"
| p_call: "par_reach tasks s \<Longrightarrow> i < length tasks \<Longrightarrow> progress s i < length (thread_calls (tasks ! i)) \<Longrightarrow>
    par_reach tasks ((perform i (thread_calls (tasks ! i) ! progress s i) s)
      \<lparr>progress := (progress s)(i := Suc (progress s i))\<rparr>)"
| p_drain: "par_reach tasks s \<Longrightarrow> drain (trace_log s) = (l, m) \<Longrightarrow>
    par_reach tasks (s\<lparr>trace_log := m, drained := drained s @ l\<rparr>)"

text \<open>All threads have ended, which \<open>run\<close> waits for.\<close>

definition joined :: "sim_task list \<Rightarrow> par \<Rightarrow> bool" where
  "joined tasks s = list_all (\<lambda>i. progress s i = length (thread_calls (tasks ! i))) [0 ..< length tasks]"

definition pushed :: "call list \<Rightarrow> sim_record list" where
  "pushed cs = concat (map (\<lambda>c. case c of Push r \<Rightarrow> [r] | _ \<Rightarrow> []) cs)"

definition counted :: "call list \<Rightarrow> nat" where
  "counted cs = length (filter (\<lambda>c. c = CountRun) cs)"

definition done_calls :: "sim_task list \<Rightarrow> par \<Rightarrow> nat \<Rightarrow> call list" where
  "done_calls tasks s i = take (progress s i) (thread_calls (tasks ! i))"

text \<open>
  The log holds the records of each task in its own order; the results that threads have stored
  are there; the counter counts the threads that have counted themselves.
\<close>

definition par_inv :: "sim_task list \<Rightarrow> par \<Rightarrow> bool" where
  "par_inv tasks s \<longleftrightarrow> length (results s) = length tasks \<and>
     (\<forall>i < length tasks. filter (\<lambda>r. sim_id r = task_id (tasks ! i)) (drained s @ trace_log s) = pushed (done_calls tasks s i)) \<and>
     (\<forall>i < length tasks. \<forall>out. Store out \<in> set (done_calls tasks s i) \<longrightarrow> results s ! i = out) \<and>
     total_run s = of_nat (\<Sum>i < length tasks. counted (done_calls tasks s i))"

lemma sim_event_id [simp]: "sim_id (sim_event task e c p) = task_id task"
  by (simp add: sim_event_def)

lemma run_body_ids: "run_body task s = (r, t, l) \<Longrightarrow> e \<in> set l \<Longrightarrow> sim_id e = task_id task"
proof (cases "checkpoint_every_10k task")
  case True
  assume "run_body task s = (r, t, l)" "e \<in> set l"
  with True have "e = sim_event task ''CHECKPOINT'' (at_cycle e) (at_pc e)"
    using checkpoint_run [where task = task and n = "max_steps task" and s = s] by (simp add: run_body_def)
  then show ?thesis using sim_event_id [of task "''CHECKPOINT''" "at_cycle e" "at_pc e"] by argo
qed (auto simp: run_body_def split: prod.splits sum.splits)

lemma run_one_ids: "e \<in> set (snd (run_one task)) \<Longrightarrow> sim_id e = task_id task"
  by (auto simp: run_one_def Let_def sim_event_def dest: run_body_ids split: prod.splits option.splits)

lemma run_one_nonempty: "snd (run_one task) \<noteq> []"
  by (auto simp: run_one_def Let_def split: prod.splits)

lemma thread_calls_push: "Push r \<in> set (thread_calls task) \<Longrightarrow> sim_id r = task_id task"
  using run_one_ids [of r task] run_one_nonempty [of task]
  by (cases "run_one task") (auto simp: thread_calls_def dest: in_set_butlastD)

lemma thread_calls_store: "Store out \<in> set (thread_calls task) \<longleftrightarrow> out = fst (run_one task)"
  by (cases "run_one task") (auto simp: thread_calls_def)

lemma pushed_append: "pushed (cs @ ds) = pushed cs @ pushed ds"
  by (simp add: pushed_def)

lemma pushed_thread: "pushed (thread_calls task) = snd (run_one task)"
proof -
  have "pushed (map Push l) = l" for l by (induction l) (simp_all add: pushed_def)
  then show ?thesis
    using run_one_nonempty [of task]
    by (auto simp: thread_calls_def pushed_append split: prod.splits) (simp add: pushed_def)
qed

lemma counted_thread: "counted (thread_calls task) = 1"
  by (simp add: thread_calls_def counted_def split: prod.splits)

lemma done_calls_step:
  assumes "progress s i < length (thread_calls (tasks ! i))"
  shows "done_calls tasks (t\<lparr>progress := (progress s)(i := Suc (progress s i))\<rparr>) j =
    done_calls tasks s j @ (if j = i then [thread_calls (tasks ! i) ! progress s i] else [])"
  using assms by (simp add: done_calls_def take_Suc_conv_app_nth)

lemma par_inv_spawn: "par_inv tasks (spawn tasks)"
  by (simp add: par_inv_def spawn_def done_calls_def pushed_def counted_def)

lemma par_inv_call:
  assumes inv: "par_inv tasks s" and i: "i < length tasks"
    and p: "progress s i < length (thread_calls (tasks ! i))" and ids: "distinct (map task_id tasks)"
  shows "par_inv tasks ((perform i (thread_calls (tasks ! i) ! progress s i) s)
      \<lparr>progress := (progress s)(i := Suc (progress s i))\<rparr>)" (is "par_inv tasks ?s")
proof -
  let ?c = "thread_calls (tasks ! i) ! progress s i"
  have c: "?c \<in> set (thread_calls (tasks ! i))" using p by simp
  note dc = done_calls_step [OF p]
  have ne: "task_id (tasks ! j) \<noteq> task_id (tasks ! i)" if "j < length tasks" "j \<noteq> i" for j
    using ids i that by (simp add: distinct_conv_nth)
  have sum: "(\<Sum>j < length tasks. counted (done_calls tasks ?s j)) =
      (\<Sum>j < length tasks. counted (done_calls tasks s j)) + counted [?c]"
  proof -
    have "counted (done_calls tasks ?s j) = counted (done_calls tasks s j) + (if j = i then counted [?c] else 0)" for j
      by (simp add: dc) (simp add: counted_def)
    then show ?thesis using i by (simp add: sum.distrib)
  qed
  have log: "filter (\<lambda>r. sim_id r = task_id (tasks ! j)) (drained ?s @ trace_log ?s) =
      filter (\<lambda>r. sim_id r = task_id (tasks ! j)) (drained s @ trace_log s) @ (if j = i then pushed [?c] else [])"
    if "j < length tasks" for j
  proof (cases ?c)
    case (Push r)
    have "sim_id r = task_id (tasks ! i)" using thread_calls_push c Push by simp
    with ne [OF that] Push show ?thesis by (cases "j = i") (auto simp: push_def pushed_def)
  qed (simp_all add: pushed_def)
  have res: "results ?s ! j = (if j = i \<and> (\<exists>out. ?c = Store out) then fst (run_one (tasks ! i)) else results s ! j) \<and>
      length (results ?s) = length tasks" if "j < length tasks" for j
  proof (cases ?c)
    case (Store out)
    moreover have "out = fst (run_one (tasks ! i))" using thread_calls_store c Store by simp
    ultimately show ?thesis using inv that by (simp add: par_inv_def)
  qed (use inv in \<open>simp_all add: par_inv_def\<close>)
  have tot: "total_run ?s = total_run s + of_nat (counted [?c])"
    by (cases ?c) (simp_all add: counted_def)
  have st: "out = fst (run_one (tasks ! i))" if "Store out \<in> set (done_calls tasks ?s i)" for out
    using that c thread_calls_store [of out "tasks ! i"] set_take_subset [of "progress s i" "thread_calls (tasks ! i)"]
    by (auto simp: dc) (auto simp: done_calls_def)
  show ?thesis
    unfolding par_inv_def
  proof (intro conjI allI impI)
    show "length (results ?s) = length tasks" using res [OF i] by simp
    show "total_run ?s = of_nat (\<Sum>j < length tasks. counted (done_calls tasks ?s j))"
      using inv tot sum by (simp add: par_inv_def)
  next
    fix j assume j: "j < length tasks"
    have "filter (\<lambda>r. sim_id r = task_id (tasks ! j)) (drained s @ trace_log s) = pushed (done_calls tasks s j)"
      using inv j by (simp only: par_inv_def)
    then show "filter (\<lambda>r. sim_id r = task_id (tasks ! j)) (drained ?s @ trace_log ?s) = pushed (done_calls tasks ?s j)"
      by (simp only: log [OF j] dc pushed_append) (simp add: pushed_def)
  next
    fix j out assume j: "j < length tasks" and o: "Store out \<in> set (done_calls tasks ?s j)"
    show "results ?s ! j = out"
    proof (cases "j = i \<and> (\<exists>out. ?c = Store out)")
      case True
      with o st res [OF j] show ?thesis by metis
    next
      case False
      with o have "Store out \<in> set (done_calls tasks s j)" by (auto simp: dc split: if_splits) metis
      with inv j have "results s ! j = out" by (simp add: par_inv_def)
      with False res [OF j] show ?thesis by metis
    qed
  qed
qed

lemma par_reach_inv: "par_reach tasks s \<Longrightarrow> distinct (map task_id tasks) \<Longrightarrow> par_inv tasks s"
proof (induction rule: par_reach.induct)
  case (p_drain s l m)
  then show ?case by (auto simp: par_inv_def done_calls_def drain_def)
qed (simp_all add: par_inv_spawn par_inv_call)

text \<open>Every thread can go on to its end, so that all can be joined.\<close>

lemma thread_ends:
  assumes "par_reach tasks s" "i < length tasks" "progress s i \<le> length (thread_calls (tasks ! i))"
  shows "\<exists>t. par_reach tasks t \<and> progress t = (progress s)(i := length (thread_calls (tasks ! i)))"
  using assms
proof (induction "length (thread_calls (tasks ! i)) - progress s i" arbitrary: s)
  case 0
  then have "progress s i = length (thread_calls (tasks ! i))" by simp
  with 0 show ?case by (intro exI [of _ s]) auto
next
  case (Suc k)
  let ?t = "(perform i (thread_calls (tasks ! i) ! progress s i) s)\<lparr>progress := (progress s)(i := Suc (progress s i))\<rparr>"
  have "par_reach tasks ?t" using Suc by (intro p_call) auto
  with Suc.hyps(1) [of ?t] Suc.hyps(2) Suc.prems show ?case by (auto simp: le_Suc_eq)
qed

lemma can_join: "\<exists>s. par_reach tasks s \<and> joined tasks s"
proof -
  have "\<exists>s. par_reach tasks s \<and> (\<forall>i < n. progress s i = length (thread_calls (tasks ! i))) \<and>
      (\<forall>i \<ge> n. progress s i = 0)" if "n \<le> length tasks" for n
    using that
  proof (induction n)
    case 0
    show ?case by (intro exI [of _ "spawn tasks"]) (simp add: p_spawn, simp add: spawn_def)
  next
    case (Suc n)
    then obtain s where s: "par_reach tasks s" "\<forall>i < n. progress s i = length (thread_calls (tasks ! i))"
      "\<forall>i \<ge> n. progress s i = 0" by auto
    obtain t where "par_reach tasks t" "progress t = (progress s)(n := length (thread_calls (tasks ! n)))"
      using thread_ends [OF s(1), of n] Suc.prems s(3) by auto
    with s show ?case by (auto simp: less_Suc_eq intro!: exI [of _ t])
  qed
  from this [of "length tasks"] show ?thesis by (auto simp: joined_def list_all_iff)
qed

text \<open>C15. Simulations that run in parallel do not affect each other: however their threads are
  interleaved and whenever the log is drained, when all have ended the results are those of the
  tasks run one by one, in the order of the tasks, every task is counted, and what was logged for
  a task is its own records, in its order, none lost and none duplicated.\<close>

theorem parallel_is_sequential:
  assumes "par_reach tasks s" "distinct (map task_id tasks)" "joined tasks s"
  shows "results s = map (\<lambda>t. fst (run_one t)) tasks \<and> total_run s = of_nat (length tasks) \<and>
    list_all (\<lambda>t. filter (\<lambda>r. sim_id r = task_id t) (drained s @ trace_log s) = snd (run_one t)) tasks"
proof -
  have d: "done_calls tasks s i = thread_calls (tasks ! i)" if "i < length tasks" for i
    using assms(3) that by (simp add: done_calls_def joined_def list_all_iff)
  have inv: "par_inv tasks s" by (rule par_reach_inv [OF assms(1,2)])
  then have "results s ! i = fst (run_one (tasks ! i))" if "i < length tasks" for i
    using that thread_calls_store d by (auto simp: par_inv_def)
  then have "results s = map (\<lambda>t. fst (run_one t)) tasks"
    using inv by (auto simp: par_inv_def intro!: nth_equalityI)
  moreover have "(\<Sum>i < length tasks. counted (done_calls tasks s i)) = length tasks"
    using d by (simp add: counted_thread)
  ultimately show ?thesis
    using inv d by (auto simp: par_inv_def pushed_thread list_all_length)
qed

theorem parallel_is_sequential_witness:
  "\<exists>s. par_reach [\<lparr>task_id = 1, task_label = ''a'', instructions = [0x2007, 0x4770], max_steps = 9, initial_sp = 0x8000, checkpoint_every_10k = False\<rparr>,
         \<lparr>task_id = 2, task_label = ''b'', instructions = [], max_steps = 0, initial_sp = 0x8000, checkpoint_every_10k = True\<rparr>] s \<and>
       length (results s) = 2 \<and> total_run s = 2"
proof -
  let ?t = "[\<lparr>task_id = 1, task_label = ''a'', instructions = [0x2007, 0x4770], max_steps = 9, initial_sp = 0x8000, checkpoint_every_10k = False\<rparr>,
         \<lparr>task_id = 2, task_label = ''b'', instructions = [], max_steps = 0, initial_sp = 0x8000, checkpoint_every_10k = True\<rparr>]"
  obtain s where "par_reach ?t s" "joined ?t s" using can_join [of ?t] by blast
  moreover from this have "results s = map (\<lambda>t. fst (run_one t)) ?t \<and> total_run s = of_nat (length ?t) \<and>
    list_all (\<lambda>t. filter (\<lambda>r. sim_id r = task_id t) (drained s @ trace_log s) = snd (run_one t)) ?t"
    by (intro parallel_is_sequential) simp_all
  ultimately show ?thesis by (intro exI [of _ s]) simp
qed

end
