(* ===== verification/Loader.thy ===== *)
theory Loader
  imports Memory Messages
begin

text \<open>
  The firmware loader: src/src/loader.h and src/src/loader.cpp. The contents of a file are an
  argument. \<open>past\<close> stands for the characters that memory holds behind the terminator of a line's
  string, which \<open>load_ihex\<close> may read when a record is shorter than its byte count says.
\<close>

section \<open>Files, characters and lines\<close>

text \<open>A file that opens with a size but cannot be read, and one with its contents.\<close>

datatype 'a disk_file = Missing | Unreadable int | Contents "'a list"

definition LF :: char where "LF = CHR 0x0A"
definition CR :: char where "CR = CHR 0x0D"

text \<open>The lines that \<open>std::getline\<close> gives; the last one may lack its end of line.\<close>

function getlines :: "string \<Rightarrow> string list" where
  "getlines s =
     (if s = [] then []
      else takeWhile (\<lambda>c. c \<noteq> LF) s # getlines (drop (Suc (length (takeWhile (\<lambda>c. c \<noteq> LF) s))) s))"
  by pat_completeness auto
termination by (relation "measure length") auto

declare getlines.simps [simp del]

definition c_str :: "(string \<Rightarrow> nat \<Rightarrow> char) \<Rightarrow> string \<Rightarrow> nat \<Rightarrow> char" where
  "c_str past line i =
     (if i < length line then line ! i else if i = length line then CHR 0x00 else past line i)"

section \<open>Hexadecimal bytes\<close>

text \<open>
  \<open>std::from_chars\<close> in base 16 over two characters: the value of the digits up to the first
  character that is none; without a digit at the start it fails.
\<close>

definition hex_digit :: "char \<Rightarrow> nat option" where
  "hex_digit c =
     (let n = of_char c :: nat in
      if 48 \<le> n \<and> n \<le> 57 then Some (n - 48)
      else if 65 \<le> n \<and> n \<le> 70 then Some (n - 55)
      else if 97 \<le> n \<and> n \<le> 102 then Some (n - 87)
      else None)"

definition parse_hex_byte :: "(nat \<Rightarrow> char) \<Rightarrow> nat \<Rightarrow> exn + u8" where
  "parse_hex_byte s i =
     (case hex_digit (s i) of
        None \<Rightarrow> Inl (LoaderError (''Invalid hex byte: '' @ [s i, s (i + 1)]))
      | Some h \<Rightarrow>
          (case hex_digit (s (i + 1)) of None \<Rightarrow> Inr (of_nat h) | Some l \<Rightarrow> Inr (of_nat (16 * h + l))))"

primrec sum_bytes :: "(nat \<Rightarrow> char) \<Rightarrow> nat list \<Rightarrow> u8 \<Rightarrow> exn + u8" where
  "sum_bytes s [] acc = Inr acc"
| "sum_bytes s (i # is) acc =
     (case parse_hex_byte s (1 + i * 2) of Inl e \<Rightarrow> Inl e | Inr b \<Rightarrow> sum_bytes s is (acc + b))"

definition verify_checksum :: "(string \<Rightarrow> nat \<Rightarrow> char) \<Rightarrow> string \<Rightarrow> exn + unit" where
  "verify_checksum past line =
     (case sum_bytes (c_str past line) [0 ..< (length line - 1) div 2] 0 of
        Inl e \<Rightarrow> Inl e
      | Inr acc \<Rightarrow>
          if acc \<noteq> 0 then Inl (LoaderError (''Checksum error in HEX record: '' @ line)) else Inr ())"

section \<open>Loading\<close>

definition load_binary :: "string \<Rightarrow> u8 disk_file \<Rightarrow> u32 \<Rightarrow> (flat_mem, u32) act" where
  "load_binary path file load_addr =
     (case file of
        Missing \<Rightarrow> throw (LoaderError (''Cannot open binary: '' @ path))
      | Unreadable n \<Rightarrow>
          if n \<le> 0 then throw (LoaderError (''Empty binary: '' @ path))
          else throw (LoaderError (''Read error: '' @ path))
      | Contents buf \<Rightarrow>
          if buf = [] then throw (LoaderError (''Empty binary: '' @ path))
          else (\<lambda>m. case load m load_addr buf of Inl e \<Rightarrow> (Inl e, m) | Inr m' \<Rightarrow> (Inr load_addr, m')))"

text \<open>The local variables of \<open>load_ihex\<close>, with the memory.\<close>

record ihex =
  base_addr :: u32
  entry_point :: u32
  image :: flat_mem

text \<open>A result that may be an exception, as an action.\<close>

definition attempt :: "exn + 'a \<Rightarrow> ('s, 'a) act" where
  "attempt r = (\<lambda>s. (r, s))"

primrec parse_bytes :: "(nat \<Rightarrow> char) \<Rightarrow> nat list \<Rightarrow> exn + u8 list" where
  "parse_bytes s [] = Inr []"
| "parse_bytes s (i # is) =
     (case parse_hex_byte s (9 + i * 2) of
        Inl e \<Rightarrow> Inl e
      | Inr b \<Rightarrow> (case parse_bytes s is of Inl e \<Rightarrow> Inl e | Inr bs \<Rightarrow> Inr (b # bs)))"

text \<open>The two bytes of an extended address, as a word.\<close>

definition parse_base :: "(nat \<Rightarrow> char) \<Rightarrow> (ihex, u32) act" where
  "parse_base s =
     bind_act (attempt (parse_hex_byte s 9)) (\<lambda>hi. bind_act (attempt (parse_hex_byte s 11)) (\<lambda>lo.
       ret (push_bit 8 (ucast hi) OR ucast lo)))"

text \<open>One record, from its checksum on; the result says whether it is the end of the file.\<close>

definition hex_record :: "(string \<Rightarrow> nat \<Rightarrow> char) \<Rightarrow> string \<Rightarrow> (ihex, bool) act" where
  "hex_record past line =
     (let s = c_str past line in
      seq_act (attempt (verify_checksum past line))
     (bind_act (attempt (parse_hex_byte s 1)) (\<lambda>byte_count.
      bind_act (attempt (parse_hex_byte s 3)) (\<lambda>addr_hi.
      bind_act (attempt (parse_hex_byte s 5)) (\<lambda>addr_lo.
      bind_act (attempt (parse_hex_byte s 7)) (\<lambda>rec_type.
        let offset = push_bit 8 (ucast addr_hi) OR ucast addr_lo :: u16 in
        if rec_type = 0x00 then
          bind_act (attempt (parse_bytes s [0 ..< unat byte_count])) (\<lambda>data.
            (\<lambda>st. case load (image st) (base_addr st + ucast offset) data of
                     Inl e \<Rightarrow> (Inl e, st) | Inr m \<Rightarrow> (Inr False, st\<lparr>image := m\<rparr>)))
        else if rec_type = 0x01 then ret True
        else if rec_type = 0x02 then
          bind_act (parse_base s) (\<lambda>w. seq_act (update (\<lambda>st. st\<lparr>base_addr := push_bit 4 w\<rparr>)) (ret False))
        else if rec_type = 0x04 then
          bind_act (parse_base s) (\<lambda>w. seq_act (update (\<lambda>st. st\<lparr>base_addr := push_bit 16 w\<rparr>)) (ret False))
        else if rec_type = 0x05 then
          seq_act (for_each [0 ..< 4] (\<lambda>i. bind_act (attempt (parse_hex_byte s (9 + i * 2))) (\<lambda>b.
                     update (\<lambda>st. st\<lparr>entry_point := push_bit 8 (entry_point st) OR ucast b\<rparr>))))
            (ret False)
        else throw (LoaderError (''Unknown HEX record type: '' @ to_string (unat rec_type)))))))))"

text \<open>The ends of line that are left at the end of a line.\<close>

definition chomp :: "string \<Rightarrow> string" where
  "chomp line = rev (dropWhile (\<lambda>c. c = CR \<or> c = LF) (rev line))"

primrec load_lines :: "(string \<Rightarrow> nat \<Rightarrow> char) \<Rightarrow> string list \<Rightarrow> (ihex, u32) act" where
  "load_lines past [] = (\<lambda>st. (Inr (entry_point st), st))"
| "load_lines past (line # lines) =
     (if line = [] \<or> hd line \<noteq> CHR '':'' then load_lines past lines
      else if length line < 11 then throw (LoaderError (''Short HEX record: '' @ line))
      else bind_act (hex_record past (chomp line)) (\<lambda>eof.
        if eof then (\<lambda>st. (Inr (entry_point st), st)) else load_lines past lines))"

definition load_ihex :: "(string \<Rightarrow> nat \<Rightarrow> char) \<Rightarrow> string \<Rightarrow> char disk_file \<Rightarrow> (flat_mem, u32) act" where
  "load_ihex past path file =
     (case file of
        Missing \<Rightarrow> throw (LoaderError (''Cannot open HEX file: '' @ path))
      | Unreadable _ \<Rightarrow> ret 0
      | Contents content \<Rightarrow>
          (\<lambda>m. let (r, st) = load_lines past (getlines content) \<lparr>base_addr = 0, entry_point = 0, image = m\<rparr>
               in (r, image st)))"

end
