(* ===== verification/Ihex.thy ===== *)
theory Ihex
  imports Loader
begin

text \<open>
  What the loader of Intel HEX files does: it reads back what a writer of the format writes, and
  it rejects a record with a corrupted digit. The writer is the specification; it follows the
  format and not the code.
\<close>

section \<open>A writer of records\<close>

definition hex_char :: "nat \<Rightarrow> char" where
  "hex_char n = char_of (if n < 10 then 48 + n else 55 + n)"

definition emit_byte :: "u8 \<Rightarrow> string" where
  "emit_byte b = [hex_char (unat b div 16), hex_char (unat b mod 16)]"

definition emit_bytes :: "u8 list \<Rightarrow> string" where
  "emit_bytes bs = concat (map emit_byte bs)"

definition emit_record :: "u8 list \<Rightarrow> string" where
  "emit_record bs = CHR '':'' # emit_bytes (bs @ [- sum_list bs])"

text \<open>A chunk of data at an address: its high half, then the data.\<close>

definition chunk_records :: "u32 \<times> u8 list \<Rightarrow> u8 list list" where
  "chunk_records = (\<lambda>(a, data).
     [[2, 0, 0, 4, byte 3 a, byte 2 a], [of_nat (length data), byte 1 a, byte 0 a, 0] @ data])"

definition write_ihex :: "string \<Rightarrow> (u32 \<times> u8 list) list \<Rightarrow> u32 \<Rightarrow> string" where
  "write_ihex eol chunks entry =
     concat (map (\<lambda>r. emit_record r @ eol)
       (concat (map chunk_records chunks) @
        [[4, 0, 0, 5, byte 3 entry, byte 2 entry, byte 1 entry, byte 0 entry], [0, 0, 0, 1]]))"

section \<open>Digits and bytes\<close>

lemma hex_digit_char: "n < 16 \<Longrightarrow> hex_digit (hex_char n) = Some n"
  by (auto simp: hex_digit_def hex_char_def Let_def)

lemma hex_digit_less: "hex_digit c = Some d \<Longrightarrow> d < 16"
  by (auto simp: hex_digit_def Let_def split: if_splits)

lemma length_emit_bytes [simp]: "length (emit_bytes bs) = 2 * length bs"
  by (induction bs) (simp_all add: emit_bytes_def emit_byte_def)

lemma nth_emit_bytes:
  "k < length bs \<Longrightarrow> emit_bytes bs ! (2 * k) = hex_char (unat (bs ! k) div 16)"
  "k < length bs \<Longrightarrow> emit_bytes bs ! (2 * k + 1) = hex_char (unat (bs ! k) mod 16)"
proof (induction bs arbitrary: k)
  case (Cons b bs)
  { case 1 with Cons.IH(1) [of "k - 1"] show ?case by (cases k) (simp_all add: emit_bytes_def emit_byte_def) }
  { case 2 with Cons.IH(2) [of "k - 1"] show ?case by (cases k) (simp_all add: emit_bytes_def emit_byte_def) }
qed simp_all

lemma unat_u8_less: "unat b < 256" for b :: u8
  using unsigned_less [where w = b and 'a = nat] by simp

text \<open>The byte at place \<open>k\<close> of a record.\<close>

lemma parse_emitted:
  assumes "k < length bs"
  shows "parse_hex_byte (c_str past (CHR '':'' # emit_bytes bs)) (Suc (2 * k)) = Inr (bs ! k)"
proof -
  let ?s = "c_str past (CHR '':'' # emit_bytes bs)"
  have "?s (Suc (2 * k)) = hex_char (unat (bs ! k) div 16)" "?s (Suc (2 * k) + 1) = hex_char (unat (bs ! k) mod 16)"
    using assms nth_emit_bytes [of k bs] by (simp_all add: c_str_def)
  moreover have "unat (bs ! k) div 16 < 16" using unat_u8_less [of "bs ! k"] by linarith
  moreover have "(of_nat (16 * (unat (bs ! k) div 16) + unat (bs ! k) mod 16) :: u8) = bs ! k"
    by (simp only: mult_div_mod_eq) simp
  ultimately show ?thesis by (simp add: parse_hex_byte_def hex_digit_char)
qed

section \<open>Checksums\<close>

lemma sum_bytes_parsed:
  "(\<And>i. i \<in> set is \<Longrightarrow> parse_hex_byte s (1 + i * 2) = Inr (f i)) \<Longrightarrow> sum_bytes s is acc = Inr (acc + sum_list (map f is))"
  by (induction "is" arbitrary: acc) (simp_all add: add.assoc)

lemma parse_bytes_parsed:
  "(\<And>i. i \<in> set is \<Longrightarrow> parse_hex_byte s (9 + i * 2) = Inr (f i)) \<Longrightarrow> parse_bytes s is = Inr (map f is)"
  by (induction "is") simp_all

lemma checksum_emitted:
  "sum_list bs = 0 \<Longrightarrow> verify_checksum past (CHR '':'' # emit_bytes bs) = Inr ()"
  using sum_bytes_parsed [of "[0 ..< length bs]" "c_str past (CHR '':'' # emit_bytes bs)" "\<lambda>i. bs ! i" 0]
    parse_emitted [of _ bs past]
  by (simp add: verify_checksum_def mult.commute map_nth)

lemma sum_record: "sum_list (bs @ [- sum_list bs]) = 0" for bs :: "u8 list"
  by simp

section \<open>Records\<close>

lemma byte_place:
  fixes n :: nat
  obtains "n < 8" | "8 \<le> n" "n < 16" | "16 \<le> n" "n < 24" | "24 \<le> n" "n < 32" | "32 \<le> n"
  by linarith

lemma halves_of_word: "push_bit 16 (push_bit 8 (ucast (byte 3 a)) OR ucast (byte 2 a)) +
    ucast (push_bit 8 (ucast (byte 1 a)) OR ucast (byte 0 a) :: u16) = (a :: u32)"
proof -
  have "push_bit 16 (push_bit 8 (ucast (byte 3 a)) OR ucast (byte 2 a)) +
      ucast (push_bit 8 (ucast (byte 1 a)) OR ucast (byte 0 a) :: u16) =
    (push_bit 16 (push_bit 8 (ucast (byte 3 a)) OR ucast (byte 2 a)) OR
      ucast (push_bit 8 (ucast (byte 1 a)) OR ucast (byte 0 a) :: u16) :: u32)"
    by (rule disjunctive_add) (auto simp: bit_simps bit_byte dest: bit_imp_le_length)
  also have "\<dots> = a"
  proof (rule bit_word_eqI)
    fix n show "bit (push_bit 16 (push_bit 8 (ucast (byte 3 a)) OR ucast (byte 2 a)) OR
        ucast (push_bit 8 (ucast (byte 1 a)) OR ucast (byte 0 a) :: u16) :: u32) n = bit a n"
      by (cases n rule: byte_place) (auto simp: bit_simps bit_byte dest: bit_imp_le_length)
  qed
  finally show ?thesis .
qed

lemma word_of_entry:
  "((push_bit 24 (ucast (byte 3 e)) OR push_bit 16 (ucast (byte 2 e))) OR push_bit 8 (ucast (byte (Suc 0) e)))
     OR ucast (byte 0 e) = (e :: u32)" (is "?w = _")
proof (rule bit_word_eqI)
  fix n show "bit ?w n = bit e n"
    by (cases n rule: byte_place) (auto simp: bit_simps bit_byte dest: bit_imp_le_length)
qed

lemma Pair_bind [simp]: "bind_act (Pair (Inr a)) f = f a" "seq_act (Pair (Inr u)) m = m"
  by (simp_all add: bind_act_def seq_act_def fun_eq_iff)

lemma seq_pure: "seq_act (\<lambda>s. (Inr u, g s)) m = (\<lambda>s. m (g s))"
  by (simp add: bind_act_def seq_act_def fun_eq_iff)

lemma attempt_bind [simp]: "bind_act (attempt (Inr a)) f = f a" "seq_act (attempt (Inr u)) m = m"
  by (simp_all add: attempt_def bind_act_def seq_act_def fun_eq_iff)

text \<open>The bytes of a written record, at the places where the code reads them.\<close>

lemma record_byte:
  "k < length bs \<Longrightarrow> i = Suc (2 * k) \<Longrightarrow> parse_hex_byte (c_str past (emit_record bs)) i = Inr (bs ! k)"
  using parse_emitted [of k "bs @ [- sum_list bs]" past] by (simp add: emit_record_def nth_append)

lemma record_checksum: "verify_checksum past (emit_record bs) = Inr ()"
  using checksum_emitted [OF sum_record] by (simp add: emit_record_def)

lemma data_record:
  assumes "length data < 256"
  shows "hex_record past (emit_record ([of_nat (length data), hi, lo, 0] @ data)) st =
    (case load (image st) (base_addr st + ucast (push_bit 8 (ucast hi) OR ucast lo :: u16)) data of
       Inl e \<Rightarrow> (Inl e, st) | Inr m \<Rightarrow> (Inr False, st\<lparr>image := m\<rparr>))"
proof -
  let ?bs = "[of_nat (length data), hi, lo, 0] @ data"
  have "parse_bytes (c_str past (emit_record ?bs)) [0 ..< length data] = Inr (map (\<lambda>i. data ! i) [0 ..< length data])"
    proof (rule parse_bytes_parsed)
    fix i assume "i \<in> set [0 ..< length data]"
    then show "parse_hex_byte (c_str past (emit_record ?bs)) (9 + i * 2) = Inr (data ! i)"
      using record_byte [where bs = ?bs and past = past and k = "i + 4" and i = "9 + i * 2"] by simp
  qed
  moreover have "unat (of_nat (length data) :: u8) = length data"
    using assms by (simp add: unat_of_nat)
  ultimately show ?thesis
    using record_byte [where bs = ?bs and past = past and k = 0] record_byte [where bs = ?bs and past = past and k = 1]
      record_byte [where bs = ?bs and past = past and k = 2] record_byte [where bs = ?bs and past = past and k = 3]
    by (simp add: hex_record_def record_checksum Let_def map_nth)
qed

lemma base_record:
  "hex_record past (emit_record [2, 0, 0, 4, hi, lo]) st =
     (Inr False, st\<lparr>base_addr := push_bit 16 (push_bit 8 (ucast hi) OR ucast lo)\<rparr>)"
  by (simp add: hex_record_def parse_base_def record_checksum Let_def record_byte [where k = 0] record_byte [where k = 1]
      record_byte [where k = 2] record_byte [where k = 3] record_byte [where k = 4] record_byte [where k = 5])

lemma entry_record:
  "hex_record past (emit_record [4, 0, 0, 5, byte 3 e, byte 2 e, byte 1 e, byte 0 e]) st = (Inr False, st\<lparr>entry_point := e\<rparr>)"
  by (simp add: hex_record_def record_checksum Let_def upt_rec record_byte [where k = 0] record_byte [where k = 1]
      record_byte [where k = 2] record_byte [where k = 3] record_byte [where k = 4] record_byte [where k = 5]
      record_byte [where k = 6] record_byte [where k = 7] word_of_entry seq_pure)

lemma eof_record: "hex_record past (emit_record [0, 0, 0, 1]) st = (Inr True, st)"
  by (simp add: hex_record_def record_checksum Let_def record_byte [where k = 0] record_byte [where k = 1]
      record_byte [where k = 2] record_byte [where k = 3])

section \<open>Lines\<close>

lemma getlines_line: "LF \<notin> set line \<Longrightarrow> getlines (line @ LF # rest) = line # getlines rest"
  by (subst getlines.simps) (auto simp: takeWhile_append)

lemma record_char: "c \<in> set (emit_record bs) \<Longrightarrow> c \<noteq> LF \<and> c \<noteq> CR"
proof -
  assume "c \<in> set (emit_record bs)"
  moreover have "hex_digit c \<noteq> None" if "c \<in> set (emit_bytes bs)" for c bs
  proof -
    have "unat b div 16 < 16" for b :: u8 using unat_u8_less [of b] by linarith
    with that show ?thesis by (auto simp: emit_bytes_def emit_byte_def hex_digit_char)
  qed
  moreover have "hex_digit LF = None" "hex_digit CR = None" "CHR '':'' \<noteq> LF" "CHR '':'' \<noteq> CR"
    by (simp_all add: hex_digit_def LF_def CR_def)
  ultimately show ?thesis unfolding emit_record_def by (metis set_ConsD)
qed

lemma getlines_records:
  "eol = e @ [LF] \<Longrightarrow> LF \<notin> set e \<Longrightarrow>
   getlines (concat (map (\<lambda>r. emit_record r @ eol) rs) @ rest) = map (\<lambda>r. emit_record r @ e) rs @ getlines rest"
proof (induction rs)
  case (Cons r rs)
  have "LF \<notin> set (emit_record r @ e)" using record_char Cons.prems by auto
  from getlines_line [OF this, of "concat (map (\<lambda>r. emit_record r @ eol) rs) @ rest"] Cons show ?case by simp
qed simp

lemma chomp_record: "set e \<subseteq> {CR} \<Longrightarrow> chomp (emit_record bs @ e) = emit_record bs"
proof -
  assume e: "set e \<subseteq> {CR}"
  have "dropWhile P xs = xs" if "\<forall>x \<in> set xs. \<not> P x" for P and xs :: string
    using that by (cases xs) simp_all
  then have "dropWhile (\<lambda>c. c = CR \<or> c = LF) (rev (emit_record bs)) = rev (emit_record bs)"
    by this (use record_char in \<open>auto\<close>)
  moreover have "dropWhile (\<lambda>c. c = CR \<or> c = LF) (rev e @ zs) = dropWhile (\<lambda>c. c = CR \<or> c = LF) zs" for zs
    using e by (intro dropWhile_append2) auto
  ultimately show ?thesis by (simp add: chomp_def)
qed

lemma load_record_line:
  "set e \<subseteq> {CR} \<Longrightarrow> 4 \<le> length bs \<Longrightarrow>
   load_lines past ((emit_record bs @ e) # lines) =
     bind_act (hex_record past (emit_record bs)) (\<lambda>eof.
        if eof then (\<lambda>st. (Inr (entry_point st), st)) else load_lines past lines)"
  using chomp_record [of e bs] by (simp add: emit_record_def)

section \<open>Files\<close>

text \<open>The chunks loaded one after the other, up to the first that does not fit.\<close>

primrec load_all :: "(u32 \<times> u8 list) list \<Rightarrow> (flat_mem, unit) act" where
  "load_all [] = ret ()"
| "load_all (c # cs) =
     seq_act (\<lambda>m. case load m (fst c) (snd c) of Inl e \<Rightarrow> (Inl e, m) | Inr m' \<Rightarrow> (Inr (), m')) (load_all cs)"

lemma load_chunks:
  assumes "set e \<subseteq> {CR}" "list_all (\<lambda>c. length (snd c) < 256) chunks"
  shows "\<exists>b. load_lines past (map (\<lambda>r. emit_record r @ e) (concat (map chunk_records chunks)) @ tail) st =
    (case load_all chunks (image st) of
       (Inl x, m) \<Rightarrow> (Inl x, st\<lparr>base_addr := b, image := m\<rparr>)
     | (Inr _, m) \<Rightarrow> load_lines past tail (st\<lparr>base_addr := b, image := m\<rparr>))"
  using assms(2)
proof (induction chunks arbitrary: st)
  case Nil
  show ?case by (intro exI [of _ "base_addr st"]) simp
next
  case (Cons c chunks)
  obtain a data where c: "c = (a, data)" by (cases c)
  let ?b = "push_bit 16 (push_bit 8 (ucast (byte 3 a)) OR ucast (byte 2 a)) :: u32"
  let ?rest = "map (\<lambda>r. emit_record r @ e) (concat (map chunk_records chunks)) @ tail"
  have "?b + ucast (push_bit 8 (ucast (byte 1 a)) OR ucast (byte 0 a) :: u16) = a" by (rule halves_of_word)
  then have *: "load_lines past (map (\<lambda>r. emit_record r @ e) (concat (map chunk_records (c # chunks))) @ tail) st =
    (case load (image st) a data of
       Inl x \<Rightarrow> (Inl x, st\<lparr>base_addr := ?b\<rparr>)
     | Inr m \<Rightarrow> load_lines past ?rest (st\<lparr>base_addr := ?b, image := m\<rparr>))"
    using Cons.prems assms(1)
    by (simp add: c chunk_records_def load_record_line bind_act_Inr base_record bind_act_def
        data_record [simplified] split: sum.split del: load_lines.simps)
  show ?case
  proof (cases "load (image st) a data")
    case (Inl x)
    then show ?thesis unfolding * by (intro exI [of _ ?b]) (simp add: c seq_act_def bind_act_def)
  next
    case (Inr m)
    let ?u = "st\<lparr>base_addr := ?b, image := m\<rparr>"
    have "list_all (\<lambda>c. length (snd c) < 256) chunks" using Cons.prems by simp
    from Cons.IH [OF this, of ?u] obtain b where "load_lines past ?rest ?u =
      (case load_all chunks (image ?u) of
         (Inl x, m) \<Rightarrow> (Inl x, ?u\<lparr>base_addr := b, image := m\<rparr>)
       | (Inr _, m) \<Rightarrow> load_lines past tail (?u\<lparr>base_addr := b, image := m\<rparr>))" by blast
    then show ?thesis unfolding * using Inr
      by (intro exI [of _ b]) (simp add: c seq_act_def bind_act_def split: prod.split sum.split)
  qed
qed

lemma ihex_read_back:
  assumes "eol = [LF] \<or> eol = [CR, LF]" "list_all (\<lambda>c. length (snd c) < 256) chunks"
  shows "load_ihex past path (Contents (write_ihex eol chunks entry @ rest)) m =
    (case load_all chunks m of (Inl x, m') \<Rightarrow> (Inl x, m') | (Inr _, m') \<Rightarrow> (Inr entry, m'))"
proof -
  obtain e where e: "eol = e @ [LF]" "set e \<subseteq> {CR}" "LF \<notin> set e"
    using assms(1) by (elim disjE) (auto simp: LF_def CR_def)
  let ?st = "\<lparr>base_addr = 0, entry_point = 0, image = m\<rparr>"
  let ?tail = "[[4, 0, 0, 5, byte 3 entry, byte 2 entry, byte 1 entry, byte 0 entry], [0, 0, 0, 1]]"
  have "load_lines past (map (\<lambda>r. emit_record r @ e) ?tail @ lines) st = (Inr entry, st\<lparr>entry_point := entry\<rparr>)" for lines st
    using e(2) by (simp add: load_record_line entry_record [simplified] eof_record bind_act_def del: load_lines.simps)
  moreover obtain b where "load_lines past (map (\<lambda>r. emit_record r @ e) (concat (map chunk_records chunks)) @
      (map (\<lambda>r. emit_record r @ e) ?tail @ getlines rest)) ?st =
    (case load_all chunks (image ?st) of
       (Inl x, m) \<Rightarrow> (Inl x, ?st\<lparr>base_addr := b, image := m\<rparr>)
     | (Inr _, m) \<Rightarrow> load_lines past (map (\<lambda>r. emit_record r @ e) ?tail @ getlines rest) (?st\<lparr>base_addr := b, image := m\<rparr>))"
    using load_chunks [OF e(2) assms(2), of past "map (\<lambda>r. emit_record r @ e) ?tail @ getlines rest" ?st] by blast
  ultimately show ?thesis
    using getlines_records [OF e(1,3), of "concat (map chunk_records chunks) @ ?tail" rest]
    by (simp add: load_ihex_def write_ihex_def split: prod.split sum.split)
qed

text \<open>C14. The loader reads back what a writer of the format writes: for every list of chunks of at most
  255 bytes and an entry point, written with either end of line, it loads the chunks in order,
  as far as they fit, and returns the entry point; whatever follows the end record, and
  whatever lies behind the strings in memory, has no effect.\<close>

theorem ihex_roundtrip:
  assumes "eol = [LF] \<or> eol = [CR, LF]" "list_all (\<lambda>c. length (snd c) < 256) chunks"
  shows "load_ihex past path (Contents (write_ihex eol chunks entry @ rest)) m =
    (case load_all chunks m of (Inl x, m') \<Rightarrow> (Inl x, m') | (Inr _, m') \<Rightarrow> (Inr entry, m'))"
  using assms by (rule ihex_read_back)

theorem ihex_roundtrip_witness:
  "load_ihex (\<lambda>_ _. CHR 0x00) ''a.hex''
      (Contents (write_ihex [CR, LF] [(0x0000FFFE, [1, 2]), (0x20000000, [3])] 0x1235 @ ''junk'')) new_flat_mem =
    (Inr 0x1235, \<lparr>bytes = (\<lambda>_. 0)(0xFFFE := 1, 0xFFFF := 2, 0x8000 := 3)\<rparr>)"
  by (subst ihex_roundtrip)
    (simp_all add: seq_act_def bind_act_def load_def translate_def mem_map new_flat_mem_def)

section \<open>Corrupted digits\<close>

lemma sum_update: "k < length xs \<Longrightarrow> sum_list (xs[k := x]) = sum_list xs + (x - xs ! k)" for xs :: "u8 list"
  by (induction xs arbitrary: k) (auto simp: nth_Cons' list_update_code split: nat.splits)

text \<open>Two digits as a byte; another digit gives another byte.\<close>

lemma byte_of_digits:
  assumes "h < 16" "l < 16"
  shows "unat (of_nat (16 * h + l) :: u8) = 16 * h + l"
  using assms by (subst unat_of_nat) simp

lemma other_digit:
  fixes b :: u8
  assumes "d < 16"
  shows "d \<noteq> unat b div 16 \<Longrightarrow> of_nat (16 * d + unat b mod 16) \<noteq> b"
    and "d \<noteq> unat b mod 16 \<Longrightarrow> of_nat (16 * (unat b div 16) + d) \<noteq> b"
proof -
  have "unat b div 16 < 16" using unat_u8_less [of b] by linarith
  then have "unat (of_nat (16 * d + unat b mod 16) :: u8) = 16 * d + unat b mod 16"
    "unat (of_nat (16 * (unat b div 16) + d) :: u8) = 16 * (unat b div 16) + d"
    using assms by (simp_all only: byte_of_digits mod_less_divisor zero_less_numeral)
  moreover have "16 * (unat b div 16) + unat b mod 16 = unat b" by simp
  moreover have "(16 * d + unat b mod 16) div 16 = d" by simp
  ultimately show "d \<noteq> unat b div 16 \<Longrightarrow> of_nat (16 * d + unat b mod 16) \<noteq> b"
    "d \<noteq> unat b mod 16 \<Longrightarrow> of_nat (16 * (unat b div 16) + d) \<noteq> b"
    by (metis, metis add_left_cancel)
qed

lemma corrupted_byte:
  assumes "i < length (emit_bytes bs)" "hex_digit c = Some d" "hex_digit (emit_bytes bs ! i) \<noteq> Some d"
  shows "\<exists>v. v \<noteq> bs ! (i div 2) \<and>
    parse_hex_byte (c_str past (CHR '':'' # (emit_bytes bs)[i := c])) (Suc (2 * (i div 2))) = Inr v"
proof -
  let ?k = "i div 2" and ?s = "c_str past (CHR '':'' # (emit_bytes bs)[i := c])"
  let ?b = "bs ! ?k"
  have k: "?k < length bs" using assms(1) by simp
  have d: "d < 16" using assms(2) by (rule hex_digit_less)
  have b: "unat ?b div 16 < 16" using unat_u8_less [of ?b] by linarith
  note nth = nth_emit_bytes [OF k]
  show ?thesis
  proof (cases "even i")
    case True
    then have i: "i = 2 * ?k" by simp
    then have "?s (Suc (2 * ?k)) = c" "?s (Suc (2 * ?k) + 1) = hex_char (unat ?b mod 16)"
      using k nth by (simp_all add: c_str_def nth_list_update)
    moreover have "d \<noteq> unat ?b div 16" using assms(3) nth(1) i b hex_digit_char by metis
    ultimately show ?thesis
      using assms(2) other_digit(1) [OF d, of ?b]
      by (simp add: parse_hex_byte_def hex_digit_char del: of_nat_add of_nat_mult)
  next
    case False
    then have i: "i = 2 * ?k + 1" by simp
    have "(emit_bytes bs)[i := c] ! (2 * ?k) = hex_char (unat ?b div 16)" using i nth(1) by (subst nth_list_update_neq) simp_all
    moreover have "(emit_bytes bs)[i := c] ! (2 * ?k + 1) = c" using i assms(1) by (simp only: i [symmetric] nth_list_update_eq)
    ultimately have "?s (Suc (2 * ?k)) = hex_char (unat ?b div 16)" "?s (Suc (2 * ?k) + 1) = c"
      using k by (simp_all add: c_str_def)
    moreover have "d \<noteq> unat ?b mod 16" using assms(3) nth(2) i hex_digit_char [of "unat ?b mod 16"] by fastforce
    ultimately show ?thesis
      using assms(2) b other_digit(2) [OF d, of ?b]
      by (simp add: parse_hex_byte_def hex_digit_char del: of_nat_add of_nat_mult)
  qed
qed

lemma corrupted_rest:
  assumes "i < length (emit_bytes bs)" "k < length bs" "k \<noteq> i div 2"
  shows "parse_hex_byte (c_str past (CHR '':'' # (emit_bytes bs)[i := c])) (Suc (2 * k)) = Inr (bs ! k)"
proof -
  have "i \<noteq> 2 * k" "i \<noteq> 2 * k + 1" using assms(3) by auto
  then have "c_str past (CHR '':'' # (emit_bytes bs)[i := c]) j = c_str past (CHR '':'' # emit_bytes bs) j"
    if "j = Suc (2 * k) \<or> j = Suc (2 * k) + 1" for j
    using that assms(2) by (auto simp: c_str_def nth_list_update)
  from this [of "Suc (2 * k)"] this [of "Suc (2 * k) + 1"] parse_emitted [OF assms(2), of past]
  show ?thesis unfolding parse_hex_byte_def by (simp only: refl simp_thms)
qed

text \<open>C32. A record with one wrong digit is rejected: when one hexadecimal digit of a written record is
  replaced by another digit of a different value, the checksum error is raised and neither the
  memory nor the addresses have changed.\<close>

theorem wrong_digit_is_rejected:
  assumes "0 < i" "i < length (emit_record bs)" "hex_digit c = Some d" "hex_digit (emit_record bs ! i) \<noteq> Some d"
  shows "hex_record past ((emit_record bs)[i := c]) st =
    (Inl (LoaderError (''Checksum error in HEX record: '' @ (emit_record bs)[i := c])), st)"
proof -
  let ?bs = "bs @ [- sum_list bs]" and ?j = "i - 1"
  let ?line = "CHR '':'' # (emit_bytes ?bs)[?j := c]" and ?k = "(i - 1) div 2"
  have line: "(emit_record bs)[i := c] = ?line"
    using assms(1) by (cases i) (simp_all add: emit_record_def)
  have j: "?j < length (emit_bytes ?bs)" using assms(1,2) by (auto simp: emit_record_def)
  have k: "?k < length ?bs" using j by simp
  have "hex_digit (emit_bytes ?bs ! ?j) \<noteq> Some d"
    using assms(1,4) by (simp add: emit_record_def nth_Cons')
  then obtain v where v: "v \<noteq> ?bs ! ?k" "parse_hex_byte (c_str past ?line) (Suc (2 * ?k)) = Inr v"
    using corrupted_byte [OF j assms(3), of past] by blast
  have parsed: "parse_hex_byte (c_str past ?line) (1 + x * 2) = Inr (?bs[?k := v] ! x)" if "x \<in> set [0 ..< length ?bs]" for x
  proof (cases "x = ?k")
    case True
    with v k show ?thesis by (simp only: nth_list_update_eq mult.commute [of _ 2] plus_1_eq_Suc)
  next
    case False
    with that corrupted_rest [OF j _ False, of past c] show ?thesis
      by (simp only: nth_list_update_neq mult.commute [of _ 2] plus_1_eq_Suc atLeastLessThan_upt [symmetric] atLeastLessThan_iff)
  qed
  have "sum_bytes (c_str past ?line) [0 ..< length ?bs] 0 =
      Inr (0 + sum_list (map ((!) (?bs[?k := v])) [0 ..< length ?bs]))"
    by (rule sum_bytes_parsed) (rule parsed)
  moreover have "map ((!) (?bs[?k := v])) [0 ..< length ?bs] = ?bs[?k := v]"
    using map_nth [of "?bs[?k := v]"] by simp
  moreover have "sum_list (?bs[?k := v]) = v - ?bs ! ?k"
    using sum_update [OF k, of v] by simp
  ultimately have "sum_bytes (c_str past ?line) [0 ..< length ?bs] 0 = Inr (v - ?bs ! ?k)" by (simp only: add_0)
  moreover have "(length ?line - 1) div 2 = length ?bs" by simp
  ultimately have "verify_checksum past ?line = Inl (LoaderError (''Checksum error in HEX record: '' @ ?line))"
    unfolding verify_checksum_def using v(1) by (simp only: sum.case) simp
  then show ?thesis unfolding line by (simp add: hex_record_def attempt_def seq_act_def bind_act_def)
qed

theorem wrong_digit_is_rejected_witness:
  "fst (hex_record (\<lambda>_ _. CHR 0x00) ((emit_record [1, 0, 0, 0, 0xA5])[9 := CHR ''b'']) \<lparr>base_addr = 0, entry_point = 0, image = new_flat_mem\<rparr>) =
    Inl (LoaderError (''Checksum error in HEX record: '' @ '':01000000b55A''))"
proof -
  have e: "emit_record [1, 0, 0, 0, 0xA5] = '':01000000A55A''"
    by code_simp
  have "hex_digit CHR ''b'' = Some 11" "hex_digit CHR ''A'' = Some 10" by (simp_all add: hex_digit_def)
  then have "hex_record (\<lambda>_ _. CHR 0x00) ((emit_record [1, 0, 0, 0, 0xA5])[9 := CHR ''b'']) st =
    (Inl (LoaderError (''Checksum error in HEX record: '' @ (emit_record [1, 0, 0, 0, 0xA5])[9 := CHR ''b''])), st)" for st
    by (intro wrong_digit_is_rejected [where d = 11]) (simp_all add: e)
  then show ?thesis by (simp add: e)
qed

end
