(* ===== verification/Trace.thy ===== *)
theory Trace
  imports Cpu_Maps Cpu_Branch Messages
begin

text \<open>
  The disassembler and the tracer of src/src/trace.h. A stream is the text written to it; the
  formats (upper-case hexadecimal in the disassembler, lower-case in the tracer) are written out.
\<close>

section \<open>ThumbDisassembler\<close>

definition fmt_reg :: "nat \<Rightarrow> string" where
  "fmt_reg r =
     (if r < 16 then [''r0'', ''r1'', ''r2'', ''r3'', ''r4'', ''r5'', ''r6'', ''r7'', ''r8'', ''r9'',
        ''r10'', ''r11'', ''r12'', ''sp'', ''lr'', ''pc''] ! r
      else ''?'')"

definition fmt_reglist :: "u8 \<Rightarrow> string" where
  "fmt_reglist rlist =
     fst (fold (\<lambda>i (s, first). if in_rlist rlist i then (s @ (if first then '''' else '','') @ fmt_reg i, False) else (s, first))
       [0 ..< 8] (''{'', True)) @ ''}''"

definition cond_name :: "nat \<Rightarrow> string" where
  "cond_name c =
     (if c < 16 then [''eq'', ''ne'', ''cs'', ''cc'', ''mi'', ''pl'', ''vs'', ''vc'', ''hi'', ''ls'', ''ge'',
        ''lt'', ''gt'', ''le'', ''al'', ''nv''] ! c
      else ''??'')"

definition low_byte :: "u16 \<Rightarrow> u8" where
  "low_byte instr = ucast (instr AND 0xFF)"

definition fmt_memory_branch :: "u32 \<Rightarrow> u16 \<Rightarrow> nat \<Rightarrow> nat \<Rightarrow> string" where
  "fmt_memory_branch p instr top4 top5 =
     (let hex = hex_number True in
      if top4 = 0xB then
        (let L = flag instr 11; R_flag = flag instr 8; sep = (if instr AND 0xFF \<noteq> 0 then '','' else '''')
         in (if L then ''pop'' else ''push'') @ '' '' @ fmt_reglist (low_byte instr) @
            (if \<not> L \<and> R_flag then sep @ ''{lr}'' else '''') @ (if L \<and> R_flag then sep @ ''{pc}'' else ''''))
      else if top4 = 0xD \<and> field instr 8 0xF \<noteq> 0xF then
        (let off = push_bit 1 (scast (low_byte instr)) :: u32
         in ''b'' @ cond_name (field instr 8 0xF) @ '' 0x'' @ hex (unat (p + 4 + off)))
      else if top5 = 0x1C then
        (let off = signed_drop_bit 20 (push_bit 21 (ucast (instr AND 0x7FF))) :: u32
         in ''b 0x'' @ hex (unat (p + 4 + off)))
      else if top5 = 0x1E then ''bl_h 0x'' @ hex (unat (instr AND 0x7FF))
      else if top5 = 0x1F then ''bl_l 0x'' @ hex (unat (instr AND 0x7FF))
      else if top4 \<ge> 0x6 \<and> top4 \<le> 0x8 then
        (let B = (top4 = 0x7); L = flag instr 11
         in (if L then ''ldr'' else ''str'') @ (if B then ''b'' else '''') @ '' '' @ fmt_reg (field instr 0 7) @
            '', ['' @ fmt_reg (field instr 3 7) @ '', #'' @ hex (field instr 6 0x1F * (if B then 1 else 4)) @ '']'')
      else if top4 = 0x9 then
        (if flag instr 11 then ''ldr'' else ''str'') @ '' '' @ fmt_reg (field instr 8 7) @ '', [sp, #'' @
          hex (unat (instr AND 0xFF) * 4) @ '']''
      else if top4 = 0xC then
        (if flag instr 11 then ''ldm'' else ''stm'') @ '' '' @ fmt_reg (field instr 8 7) @ ''!, '' @ fmt_reglist (low_byte instr)
      else if drop_bit 8 instr = 0xB0 then
        (if flag instr 7 then ''sub'' else ''add'') @ '' sp, #'' @ hex (unat (instr AND 0x7F) * 4)
      else ''?? 0x'' @ setw 4 CHR ''0'' (hex (unat instr)))"

definition disassemble :: "u32 \<Rightarrow> u16 \<Rightarrow> string" where
  "disassemble p instr =
     (let top5 = field instr 11 0x1F; top4 = field instr 12 0x0F; top6 = field instr 10 0x3F;
          hex = hex_number True; R = fmt_reg
      in if top5 \<le> 0x02 then
           (let op = field instr 11 0x3
            in [''lsl'', ''lsr'', ''asr''] ! (if op < 3 then op else 0) @ '' '' @ R (field instr 0 7) @ '', '' @
               R (field instr 3 7) @ '', #'' @ hex (field instr 6 0x1F))
         else if top5 = 0x03 then
           (let sub = flag instr 9; imm = flag instr 10
            in (if sub then ''sub'' else ''add'') @ '' '' @ R (field instr 0 7) @ '', '' @ R (field instr 3 7) @ '', '' @
               (if imm then ''#'' @ hex (field instr 6 7) else R (field instr 6 7)))
         else if top5 \<ge> 0x04 \<and> top5 \<le> 0x07 then
           [''mov'', ''cmp'', ''add'', ''sub''] ! field instr 11 3 @ '' '' @ R (field instr 8 7) @ '', #'' @
             hex (unat (instr AND 0xFF))
         else if top6 = 0x10 then
           [''and'', ''eor'', ''lsl'', ''lsr'', ''asr'', ''adc'', ''sbc'', ''ror'', ''tst'', ''neg'', ''cmp'', ''cmn'', ''orr'', ''mul'',
             ''bic'', ''mvn''] ! field instr 6 0xF @ '' '' @ R (field instr 0 7) @ '', '' @ R (field instr 3 7)
         else if top6 = 0x11 then
           (let op = field instr 8 3
            in if op = 3 then ''bx '' @ R (field instr 3 0xF)
               else [''add'', ''cmp'', ''mov'', ''bx''] ! op @ '' '' @ R (field instr 7 1 * 8 + field instr 0 7) @ '', '' @
                 R (field instr 3 0xF))
         else fmt_memory_branch p instr top4 top5)"

section \<open>Tracer\<close>

definition print :: "u32 \<Rightarrow> u16 \<Rightarrow> string \<Rightarrow> string" where
  "print p opcode disasm =
     ''  0x'' @ setw 4 CHR ''0'' (hex_number False (unat p)) @ ''  '' @ setw 4 CHR ''0'' (hex_number False (unat opcode)) @ ''  '' @
     disasm @ [CHR 0x0A]"

text \<open>What the callback of an attached tracer writes for one instruction.\<close>

definition traced_line :: "u32 \<times> u16 \<Rightarrow> string" where
  "traced_line c = print (fst c) (snd c) (disassemble (fst c) (snd c))"

text \<open>\<open>Tracer::attach\<close>, and the text written since.\<close>

definition attach_tracer :: "machine \<Rightarrow> machine" where
  "attach_tracer s = set_trace s"

definition trace_output :: "machine \<Rightarrow> string" where
  "trace_output s = (case trace_cb s of None \<Rightarrow> '''' | Some calls \<Rightarrow> concat (map traced_line calls))"

section \<open>Tracing changes nothing\<close>

interpretation retraced: machine_map "\<lambda>s. s\<lparr>trace_cb := tr\<rparr>" "\<lambda>m. m" for tr
  by unfold_locales (simp_all add: id_def [symmetric] sum.map_id)

declare retraced.map_writes [simp del] retraced.map_reg_write [simp del] retraced.map_apsr_regs [simp del]
  retraced.map_register_file [simp del] retraced.map_mem_reads [simp del] retraced.map_mem_writes [simp del]

text \<open>The instructions that a run fetches, by the plain machine.\<close>

primrec history :: "nat \<Rightarrow> machine \<Rightarrow> (u32 \<times> u16) list" where
  "history 0 s = []"
| "history (Suc n) s =
     (if halted s then []
      else (case read16 (mem s) (pc s) of
              Inl _ \<Rightarrow> []
            | Inr i \<Rightarrow> (pc s, i) # (case step s of (Inr go, t) \<Rightarrow> if go then history n t else [] | _ \<Rightarrow> [])))"

lemma execute_retraced: "execute i (s\<lparr>trace_cb := tr\<rparr>) = apsnd (\<lambda>t. t\<lparr>trace_cb := tr\<rparr>) (execute i s)"
  by (rule commutesD [OF retraced.commutes_execute])

text \<open>A step with a tracer: the same step, and the call of the callback if there was a fetch.\<close>

lemma step_traced:
  assumes "\<not> halted s" "read16 (mem s) (pc s) = Inr i"
  shows "step (s\<lparr>trace_cb := Some cs\<rparr>) = apsnd (\<lambda>t. t\<lparr>trace_cb := Some (cs @ [(pc s, i)])\<rparr>) (step s)"
proof -
  obtain r t where x: "execute i (advance_pc s) = (r, t)" by (cases "execute i (advance_pc s)")
  have c: "call_trace (pc s) i (advance_pc u) =
      (advance_pc u)\<lparr>trace_cb := (case trace_cb u of None \<Rightarrow> None | Some calls \<Rightarrow> Some (calls @ [(pc s, i)]))\<rparr>" for u
    by (simp add: call_trace_def advance_pc_def split: option.splits)
  have p: "pc (s\<lparr>trace_cb := Some cs\<rparr>) = pc s" by (simp add: pc_def)
  have a: "(advance_pc (s\<lparr>trace_cb := Some cs\<rparr>))\<lparr>trace_cb := x\<rparr> = (advance_pc s)\<lparr>trace_cb := x\<rparr>" for x
    by (simp add: advance_pc_def)
  let ?g = "\<lambda>x. case r of Inl e \<Rightarrow> (Inl e, t\<lparr>trace_cb := x\<rparr>)
    | Inr _ \<Rightarrow> (Inr (\<not> halted t), t\<lparr>trace_cb := x, cycles := cycles t + 1\<rparr>)"
  have "step s = ?g (case trace_cb s of None \<Rightarrow> None | Some calls \<Rightarrow> Some (calls @ [(pc s, i)]))"
    unfolding step_fetched [OF assms] c execute_retraced x by (cases r) simp_all
  moreover have "step (s\<lparr>trace_cb := Some cs\<rparr>) = ?g (Some (cs @ [(pc s, i)]))"
  proof -
    have "\<not> halted (s\<lparr>trace_cb := Some cs\<rparr>)" "read16 (mem (s\<lparr>trace_cb := Some cs\<rparr>)) (pc (s\<lparr>trace_cb := Some cs\<rparr>)) = Inr i"
      using assms by (simp_all add: p)
    from step_fetched [OF this] show ?thesis unfolding p c a execute_retraced x by (cases r) simp_all
  qed
  ultimately show ?thesis by (cases r) simp_all
qed

lemma run_traced: "run n (s\<lparr>trace_cb := Some cs\<rparr>) = apsnd (\<lambda>t. t\<lparr>trace_cb := Some (cs @ history n s)\<rparr>) (run n s)"
proof (induction n arbitrary: s cs)
  case (Suc n)
  show ?case
  proof (cases "halted s")
    case True
    then show ?thesis by (simp add: run_halted)
  next
    case h: False
    have p: "pc (s\<lparr>trace_cb := Some cs\<rparr>) = pc s" by (simp add: pc_def)
    show ?thesis
    proof (cases "read16 (mem s) (pc s)")
      case (Inl e)
      then have "step s = (Inl e, s)" "step (s\<lparr>trace_cb := Some cs\<rparr>) = (Inl e, s\<lparr>trace_cb := Some cs\<rparr>)"
        using h by (auto intro!: step_fetch_fault simp: p)
      then show ?thesis using h Inl by (simp add: run_Suc)
    next
      case f: (Inr i)
      obtain r t where st: "step s = (r, t)" by (cases "step s")
      have st2: "step (s\<lparr>trace_cb := Some cs\<rparr>) = (r, t\<lparr>trace_cb := Some (cs @ [(pc s, i)])\<rparr>)"
        using step_traced [OF h f, of cs] st by simp
      have hist: "history (Suc n) s = (pc s, i) # (case r of Inl _ \<Rightarrow> [] | Inr go \<Rightarrow> if go then history n t else [])"
        using h f st by (simp split: sum.split)
      obtain q u where q: "run n t = (q, u)" by (cases "run n t")
      have "run n (t\<lparr>trace_cb := Some (cs @ [(pc s, i)])\<rparr>) = (q, u\<lparr>trace_cb := Some (cs @ (pc s, i) # history n t)\<rparr>)"
        using Suc.IH [where s = t and cs = "cs @ [(pc s, i)]"] q by simp
      then show ?thesis unfolding run_Suc st st2 hist using q by (cases r; cases q) simp_all
    qed
  qed
qed simp

text \<open>Without a tracer nothing is recorded.\<close>

lemma step_silent: "trace_cb s = None \<Longrightarrow> step s = (r, t) \<Longrightarrow> trace_cb t = None"
proof (cases "halted s")
  case False
  assume s: "trace_cb s = None" "step s = (r, t)"
  show ?thesis
  proof (cases "read16 (mem s) (pc s)")
    case (Inr i)
    obtain q u where x: "execute i (call_trace (pc s) i (advance_pc s)) = (q, u)"
      by (cases "execute i (call_trace (pc s) i (advance_pc s))")
    have "same_trace None u" by (rule traced.execute_frame [OF _ x]) (use s in \<open>simp add: same_trace_def call_trace_def advance_pc_def\<close>)
    then show ?thesis using s(2) unfolding step_fetched [OF False Inr] x by (cases q) (auto simp: same_trace_def)
  qed (use s step_fetch_fault [OF False] in auto)
qed (simp add: step_halted)

lemma run_silent: "trace_cb s = None \<Longrightarrow> trace_cb (snd (run n s)) = None"
proof (induction n arbitrary: s)
  case (Suc n)
  obtain r t where st: "step s = (r, t)" by (cases "step s")
  have "trace_cb (snd (run n t)) = None" by (rule Suc.IH [OF step_silent [OF Suc.prems st]])
  then show ?case using st Suc.prems step_silent [OF Suc.prems st] by (cases "run n t") (auto simp: run_Suc plus_steps_def split: sum.splits)
qed simp

text \<open>C30. Tracing changes nothing but the output: a run with the tracer attached returns or throws what
  the run without it does and leaves the same registers, flags, memory and counter, and what is
  written is one line for each instruction fetched, in order, also for one that then faults.\<close>

theorem tracing_is_passive:
  "run n (attach_tracer s) = apsnd (\<lambda>t. t\<lparr>trace_cb := Some (history n s)\<rparr>) (run n s) \<and>
   trace_output (snd (run n (attach_tracer s))) = concat (map traced_line (history n s))"
  using run_traced [where n = n and s = s and cs = "[]"] by (cases "run n s") (simp add: attach_tracer_def set_trace_def trace_output_def)

section \<open>What the listing does not know\<close>

lemma no_mark:
  "k < length L \<Longrightarrow> list_all (\<lambda>m. m \<noteq> [] \<and> hd m \<noteq> CHR ''?'') L \<Longrightarrow> take 2 (L ! k @ x) \<noteq> ''??''"
proof
  assume "k < length L" "list_all (\<lambda>m. m \<noteq> [] \<and> hd m \<noteq> CHR ''?'') L" "take 2 (L ! k @ x) = ''??''"
  then have "L ! k \<noteq> [] \<and> hd (L ! k) \<noteq> CHR ''?''" by (simp add: list_all_length)
  with \<open>take 2 _ = _\<close> show False by (cases "L ! k") auto
qed

lemma listed_first:
  "field i 11 0x1F \<le> 0x07 \<or> field i 10 0x3F = 0x10 \<or> field i 10 0x3F = 0x11 \<Longrightarrow> take 2 (disassemble p i) \<noteq> ''??''"
proof -
  have f: "field i 11 3 < 4" "field i 6 0xF < 16" "field i 8 3 < 4" by (simp_all add: field_mod)
  have n: "\<And>k. k < 3 \<Longrightarrow> take 2 ([''lsl'', ''lsr'', ''asr''] ! k @ x) \<noteq> ''??''"
    "\<And>k. k < 4 \<Longrightarrow> take 2 ([''mov'', ''cmp'', ''add'', ''sub''] ! k @ x) \<noteq> ''??''"
    "\<And>k. k < 4 \<Longrightarrow> take 2 ([''add'', ''cmp'', ''mov'', ''bx''] ! k @ x) \<noteq> ''??''"
    "\<And>k. k < 16 \<Longrightarrow> take 2 ([''and'', ''eor'', ''lsl'', ''lsr'', ''asr'', ''adc'', ''sbc'', ''ror'', ''tst'', ''neg'', ''cmp'', ''cmn'',
       ''orr'', ''mul'', ''bic'', ''mvn''] ! k @ x) \<noteq> ''??''" for x
    by (rule no_mark; simp)+
  have o: "(if field i 11 3 < 3 then field i 11 3 else 0) < 3" by simp
  assume "field i 11 0x1F \<le> 0x07 \<or> field i 10 0x3F = 0x10 \<or> field i 10 0x3F = 0x11"
  then consider "field i 11 0x1F \<le> 2" | "field i 11 0x1F = 3" | "4 \<le> field i 11 0x1F" "field i 11 0x1F \<le> 7"
    | "\<not> field i 11 0x1F \<le> 7" "field i 10 0x3F = 0x10" | "\<not> field i 11 0x1F \<le> 7" "field i 10 0x3F = 0x11"
    by linarith
  then show ?thesis
  proof cases
    case 1
    show ?thesis unfolding disassemble_def Let_def if_P [OF 1] by (rule n(1) [OF o])
  next
    case 3
    then have "\<not> field i 11 0x1F \<le> 2" "field i 11 0x1F \<noteq> 3" by auto
    with 3 show ?thesis unfolding disassemble_def Let_def by (simp only: if_False if_True simp_thms n(2) [OF f(1)])
  next
    case 4
    then have "\<not> field i 11 0x1F \<le> 2" "field i 11 0x1F \<noteq> 3" by auto
    with 4 show ?thesis unfolding disassemble_def Let_def by (simp only: if_False if_True simp_thms n(4) [OF f(2)])
  next
    case 5
    then have t: "\<not> field i 11 0x1F \<le> 2" "field i 11 0x1F \<noteq> 3" "field i 10 0x3F \<noteq> 0x10" by auto
    show ?thesis
    proof (cases "field i 8 3 = 3")
      case True
      with 5 t show ?thesis unfolding disassemble_def Let_def by simp
    next
      case False
      with 5 t show ?thesis unfolding disassemble_def Let_def
        by (simp only: if_False if_True simp_thms n(3) [OF f(3)])
    qed
  qed (simp add: disassemble_def Let_def)
qed

text \<open>The halfwords listed as unknown are the undefined ones and those of three defined groups: loads
  relative to PC, loads and stores with a register offset, and ADD to SP or PC.\<close>

theorem listing_unknown:
  "take 2 (disassemble p i) = ''??'' \<longleftrightarrow>
     undefined_opcode i \<or> field i 12 0xF = 0x5 \<or> field i 12 0xF = 0xA \<or> field i 11 0x1F = 0x09"
proof (cases "field i 11 0x1F \<le> 0x07 \<or> field i 10 0x3F = 0x10 \<or> field i 10 0x3F = 0x11")
  case True
  then have "field i 11 0x1F \<le> 8" using fields_top(2) [of i] by presburger
  moreover from this have "field i 12 0xF \<le> 4" by (simp add: fields_top(1))
  ultimately show ?thesis using listed_first [OF True] by (auto simp: undefined_opcode_def)
next
  case False
  then have d: "disassemble p i = fmt_memory_branch p i (field i 12 0xF) (field i 11 0x1F)"
    by (simp add: disassemble_def Let_def)
  have t: "field i 12 0xF = field i 11 0x1F div 2" by (rule fields_top)
  have "8 < field i 11 0x1F" using fields_top(2) [of i] False by presburger
  then have c: "field i 11 0x1F \<in> set [9 ..< 32]" using top5_less [of i] by (simp del: upt_conv_Cons_Cons upt_rec_numeral)
  have b: "drop_bit 8 i = 0xB0 \<Longrightarrow> field i 11 0x1F div 2 = 0xB"
  proof -
    assume "drop_bit 8 i = 0xB0"
    then have "unat (drop_bit 8 i) = 0xB0" by simp
    then have "unat i div 2 ^ 8 = 0xB0" by (simp only: unat_drop_bit_eq) (simp only: drop_bit_eq_div)
    moreover have "unat i div 2 ^ 12 = unat i div 2 ^ 8 div 2 ^ 4" by (simp flip: div_mult2_eq)
    ultimately show ?thesis by (simp only: t [symmetric] field_mod) simp
  qed
  show ?thesis
    using c b unfolding d undefined_opcode_def fmt_memory_branch_def Let_def t
    by (simp add: upt_rec) (elim disjE; auto)
qed

end
