(* ===== verification/Simulator.thy ===== *)
theory Simulator
  imports Ihex Trace
begin

text \<open>
  The command line program of src/src/main.cpp: the options, and one simulation from the load of the
  firmware to the text on the two output streams and the exit code. The files are an argument.
\<close>

section \<open>Numbers in arguments\<close>

text \<open>
  \<open>std::stoul\<close> and \<open>std::stoull\<close>: white space, a sign, in base 16 a prefix, and digits as far as
  they go; without digits, or past 64 bits, they throw.
\<close>

definition is_space :: "char \<Rightarrow> bool" where
  "is_space c = (let n = of_char c :: nat in n = 32 \<or> (9 \<le> n \<and> n \<le> 13))"

definition is_digit :: "nat \<Rightarrow> char \<Rightarrow> bool" where
  "is_digit base c = (case hex_digit c of None \<Rightarrow> False | Some d \<Rightarrow> d < base)"

definition digits_value :: "nat \<Rightarrow> string \<Rightarrow> nat" where
  "digits_value base ds = foldl (\<lambda>v c. v * base + the (hex_digit c)) 0 ds"

definition stoul :: "nat \<Rightarrow> string \<Rightarrow> u64 option" where
  "stoul base s =
     (let t = dropWhile is_space s;
          neg = (t \<noteq> [] \<and> hd t = CHR ''-'');
          u = (if t \<noteq> [] \<and> (hd t = CHR ''-'' \<or> hd t = CHR ''+'') then tl t else t);
          v = (if base = 16 \<and> length u > 2 \<and> u ! 0 = CHR ''0'' \<and> (u ! 1 = CHR ''x'' \<or> u ! 1 = CHR ''X'') \<and> is_digit 16 (u ! 2)
               then drop 2 u else u);
          ds = takeWhile (is_digit base) v
      in if ds = [] \<or> digits_value base ds \<ge> 2 ^ 64 then None
         else Some (if neg then - of_nat (digits_value base ds) else of_nat (digits_value base ds)))"

section \<open>Configuration\<close>

definition DEFAULT_STEPS :: u64 where "DEFAULT_STEPS = 100000"

record config =
  binary_path :: string
  ihex_path :: string
  trace :: bool
  steps :: u64
  load_addr :: u32

definition new_config :: config where
  "new_config = \<lparr>binary_path = '''', ihex_path = '''', trace = False, steps = DEFAULT_STEPS, load_addr = 0\<rparr>"

text \<open>How the loop over the arguments ends; \<open>Thrown\<close> is an exception that leaves \<open>main\<close>.\<close>

datatype parsed = Options config | Help | Unknown string | Thrown

function parse_args :: "string list \<Rightarrow> config \<Rightarrow> parsed" where
  "parse_args args cfg =
     (case args of
        [] \<Rightarrow> Options cfg
      | arg # rest \<Rightarrow>
          if arg = ''--binary'' \<and> rest \<noteq> [] then parse_args (tl rest) (cfg\<lparr>binary_path := hd rest\<rparr>)
          else if arg = ''--hex'' \<and> rest \<noteq> [] then parse_args (tl rest) (cfg\<lparr>ihex_path := hd rest\<rparr>)
          else if arg = ''--addr'' \<and> rest \<noteq> [] then
            (case stoul 16 (hd rest) of None \<Rightarrow> Thrown | Some n \<Rightarrow> parse_args (tl rest) (cfg\<lparr>load_addr := ucast n\<rparr>))
          else if arg = ''--trace'' then parse_args rest (cfg\<lparr>trace := True\<rparr>)
          else if arg = ''--steps'' \<and> rest \<noteq> [] then
            (case stoul 10 (hd rest) of None \<Rightarrow> Thrown | Some n \<Rightarrow> parse_args (tl rest) (cfg\<lparr>steps := n\<rparr>))
          else if arg = ''--help'' then Help
          else Unknown arg)"
  by pat_completeness auto
termination by (relation "measure (\<lambda>(args, cfg). length args)") auto

declare parse_args.simps [simp del]

section \<open>What is printed\<close>

definition quoted :: "string \<Rightarrow> string" where
  "quoted t = [CHR 0x27] @ t @ [CHR 0x27]"

text \<open>The line drawing character, in UTF-8.\<close>

definition bar :: "nat \<Rightarrow> string" where
  "bar n = concat (replicate n [CHR 0xE2, CHR 0x94, CHR 0x80])"

definition print_usage :: "string \<Rightarrow> string" where
  "print_usage argv0 = ''Usage: '' @ argv0 @ '' [options]'' @ [LF] @
     ''  --binary <file>     Load raw binary'' @ [LF] @
     ''  --hex    <file>     Load Intel HEX file'' @ [LF] @
     ''  --addr   <hex>      Load address for binary (default: 0x0000)'' @ [LF] @
     ''  --trace             Print every instruction'' @ [LF] @
     ''  --steps  <n>        Max steps (default: 100000)'' @ [LF]"

definition reg_names :: "string list" where
  "reg_names = [''r0'', ''r1'', ''r2'', ''r3'', ''r4'', ''r5'', ''r6'', ''r7'', ''r8'', ''r9'', ''r10'', ''r11'', ''r12'', ''sp'', ''lr'', ''pc'']"

text \<open>\<open>%-4s\<close> and \<open>%d\<close> of a flag\<close>

definition left_aligned :: "nat \<Rightarrow> string \<Rightarrow> string" where
  "left_aligned n t = t @ replicate (n - length t) CHR '' ''"

definition flag_digit :: "bool \<Rightarrow> string" where
  "flag_digit b = (if b then ''1'' else ''0'')"

definition register_field :: "machine \<Rightarrow> nat \<Rightarrow> string" where
  "register_field s r = ''  '' @ left_aligned 4 (reg_names ! r) @ '' = 0x'' @ setw 8 CHR ''0'' (hex_number True (unat (reg s r)))"

definition dump_registers :: "machine \<Rightarrow> string" where
  "dump_registers s =
     [LF] @ bar 2 @ '' Registers '' @ bar 32 @ [LF] @
     concat (map (\<lambda>i. concat (map (\<lambda>j. register_field s (i + j)) [0, 1, 2, 3]) @ [LF]) [0, 4, 8, 12]) @
     ''  APSR: N='' @ flag_digit (N (apsr s)) @ '' Z='' @ flag_digit (Z (apsr s)) @
       '' C='' @ flag_digit (C (apsr s)) @ '' V='' @ flag_digit (V (apsr s)) @ [LF] @
     ''  Cycles: '' @ to_string (unat (cycles s)) @ [LF]"

definition loaded_line :: "config \<Rightarrow> u32 \<Rightarrow> string" where
  "loaded_line cfg entry =
     (if binary_path cfg \<noteq> [] then ''Loaded binary '' @ quoted (binary_path cfg) @ '' at 0x'' @
        setw 4 CHR ''0'' (hex_number True (unat (load_addr cfg))) @ [LF]
      else ''Loaded HEX '' @ quoted (ihex_path cfg) @ '', entry=0x'' @
        setw 8 CHR ''0'' (hex_number True (unat entry)) @ [LF])"

definition trace_title :: string where
  "trace_title = [LF] @ bar 2 @ '' Trace '' @ bar 37 @ [LF]"

definition done_line :: "nat \<Rightarrow> string" where
  "done_line n = [LF] @ ''Done: '' @ to_string n @ '' steps executed.'' @ [LF]"

section \<open>One simulation\<close>

datatype exit_code = EXIT_SUCCESS | EXIT_FAILURE | Terminated

text \<open>What the program leaves behind: the exit code and the text on its two output streams.\<close>

record report =
  exit_code :: exit_code
  std_out :: string
  std_err :: string

definition text_file :: "u8 disk_file \<Rightarrow> char disk_file" where
  "text_file f = map_disk_file (\<lambda>b. char_of (unat b)) f"

definition load_firmware ::
  "(string \<Rightarrow> u8 disk_file) \<Rightarrow> (string \<Rightarrow> nat \<Rightarrow> char) \<Rightarrow> config \<Rightarrow> (flat_mem, u32) act" where
  "load_firmware files past cfg =
     (if binary_path cfg \<noteq> [] then load_binary (binary_path cfg) (files (binary_path cfg)) (load_addr cfg)
      else load_ihex past (ihex_path cfg) (text_file (files (ihex_path cfg))))"

text \<open>The handlers of \<open>run_simulation\<close>, after \<open>printed\<close>: a loader error is reported without the registers.\<close>

definition report_exception :: "string \<Rightarrow> exn \<Rightarrow> machine \<Rightarrow> report" where
  "report_exception printed e s =
     (case e of
        BusFaultException _ \<Rightarrow>
          \<lparr>exit_code = EXIT_FAILURE, std_out = printed @ dump_registers s, std_err = [LF] @ ''[FAULT] '' @ what e @ [LF]\<rparr>
      | UndefinedInstructionException _ \<Rightarrow>
          \<lparr>exit_code = EXIT_FAILURE, std_out = printed @ dump_registers s, std_err = [LF] @ ''[SIM ERROR] '' @ what e @ [LF]\<rparr>
      | _ \<Rightarrow> \<lparr>exit_code = EXIT_FAILURE, std_out = printed, std_err = [LF] @ ''[ERROR] '' @ what e @ [LF]\<rparr>)"

definition run_simulation :: "(string \<Rightarrow> u8 disk_file) \<Rightarrow> (string \<Rightarrow> nat \<Rightarrow> char) \<Rightarrow> config \<Rightarrow> report" where
  "run_simulation files past cfg =
     (let s = new_machine new_flat_mem in
      case load_firmware files past cfg (mem s) of
        (Inl e, m) \<Rightarrow> report_exception '''' e (s\<lparr>mem := m\<rparr>)
      | (Inr entry, m) \<Rightarrow>
          (let s = set_reg PC (entry AND NOT 1) (s\<lparr>mem := m\<rparr>);
               printed = loaded_line cfg entry @ (if trace cfg then trace_title else '''');
               s = (if trace cfg then attach_tracer s else s)
           in case run (unat (steps cfg)) s of
                (Inl e, t) \<Rightarrow> report_exception (printed @ trace_output t) e t
              | (Inr n, t) \<Rightarrow>
                  \<lparr>exit_code = EXIT_SUCCESS, std_out = printed @ trace_output t @ done_line n @ dump_registers t,
                   std_err = ''''\<rparr>))"

text \<open>\<open>main\<close> on the name of the program and the arguments after it.\<close>

definition main :: "(string \<Rightarrow> u8 disk_file) \<Rightarrow> (string \<Rightarrow> nat \<Rightarrow> char) \<Rightarrow> string \<Rightarrow> string list \<Rightarrow> report" where
  "main files past argv0 args =
     (let failed = (\<lambda>msg. \<lparr>exit_code = EXIT_FAILURE, std_out = '''', std_err = msg\<rparr>) in
      if args = [] then failed (print_usage argv0)
      else (case parse_args args new_config of
              Thrown \<Rightarrow> (failed '''')\<lparr>exit_code := Terminated\<rparr>
            | Help \<Rightarrow> (failed (print_usage argv0))\<lparr>exit_code := EXIT_SUCCESS\<rparr>
            | Unknown arg \<Rightarrow> failed (''Unknown option: '' @ arg @ [LF])
            | Options cfg \<Rightarrow>
                if binary_path cfg = '''' \<and> ihex_path cfg = ''''
                then failed (''Error: provide --binary or --hex'' @ [LF] @ print_usage argv0)
                else run_simulation files past cfg))"

section \<open>From a file to a run\<close>

lemma text_file_contents: "text_file (Contents (map of_char content)) = Contents content"
  by (simp add: text_file_def comp_def char_of_u8)

lemma ihex_image:
  assumes "eol = [LF] \<or> eol = [CR, LF]" "list_all (\<lambda>c. length (snd c) < 256) chunks"
    "load_all chunks m = (Inr (), m')"
  shows "load_ihex past path (Contents (write_ihex eol chunks entry)) m = (Inr entry, m')"
  using ihex_read_back [OF assms(1,2), of past path entry "[]" m] assms(3) by simp

text \<open>The listing that the tracer writes, or nothing.\<close>

definition listing :: "config \<Rightarrow> machine \<Rightarrow> string" where
  "listing cfg s = (if trace cfg then trace_title @ concat (map traced_line (history (unat (steps cfg)) s)) else '''')"

lemma dump_registers_trace [simp]: "dump_registers (s\<lparr>trace_cb := tr\<rparr>) = dump_registers s"
  by (simp add: dump_registers_def register_field_def reg_def)

text \<open>C8. The command line program runs the firmware of a file: given a file in the Intel HEX format
  whose chunks fit in memory, it runs the processor from its reset state at the entry point (with
  bit 0 cleared) on the memory with the chunks loaded, for at most the given number of steps. It
  prints the entry point, with \<open>--trace\<close> the instructions fetched, the number of steps and the
  registers; when the processor throws, the registers at the fault, and the fault on the error
  stream, and it exits with a failure.\<close>

theorem simulator_runs_hex_file:
  assumes "eol = [LF] \<or> eol = [CR, LF]" "list_all (\<lambda>c. length (snd c) < 256) chunks"
    "load_all chunks new_flat_mem = (Inr (), m)" "ihex_path cfg \<noteq> []" "binary_path cfg = []"
    "files (ihex_path cfg) = Contents (map of_char (write_ihex eol chunks entry))"
  shows "let s = set_reg PC (entry AND NOT 1) (new_machine m); printed = loaded_line cfg entry @ listing cfg s
    in run_simulation files past cfg =
       (case run (unat (steps cfg)) s of
          (Inr n, t) \<Rightarrow>
            \<lparr>exit_code = EXIT_SUCCESS, std_out = printed @ done_line n @ dump_registers t, std_err = ''''\<rparr>
        | (Inl e, t) \<Rightarrow>
            \<lparr>exit_code = EXIT_FAILURE, std_out = printed @ dump_registers t,
             std_err = [LF] @ (case e of BusFaultException _ \<Rightarrow> ''[FAULT] '' | _ \<Rightarrow> ''[SIM ERROR] '') @ what e @ [LF]\<rparr>)"
proof -
  let ?s = "set_reg PC (entry AND NOT 1) (new_machine m)" and ?n = "unat (steps cfg)"
  have "load_firmware files past cfg new_flat_mem = (Inr entry, m)"
    using ihex_image [OF assms(1-3)] assms(4-6) by (simp add: load_firmware_def text_file_contents)
  moreover have "(new_machine new_flat_mem)\<lparr>mem := m\<rparr> = new_machine m" "mem (new_machine new_flat_mem) = new_flat_mem"
    by (simp_all add: new_machine_def reset_def)
  ultimately have sim: "run_simulation files past cfg =
      (let printed = loaded_line cfg entry @ (if trace cfg then trace_title else '''') in
       case run ?n (if trace cfg then attach_tracer ?s else ?s) of
         (Inl e, t) \<Rightarrow> report_exception (printed @ trace_output t) e t
       | (Inr n, t) \<Rightarrow> \<lparr>exit_code = EXIT_SUCCESS, std_out = printed @ trace_output t @ done_line n @ dump_registers t,
                        std_err = ''''\<rparr>)"
    by (simp add: run_simulation_def Let_def)
  have tr: "run ?n (attach_tracer ?s) = apsnd (\<lambda>t. t\<lparr>trace_cb := Some (history ?n ?s)\<rparr>) (run ?n ?s)"
    using run_traced [where n = ?n and s = ?s and cs = "[]"] by (simp add: attach_tracer_def set_trace_def)
  obtain q t where r: "run ?n ?s = (q, t)" by (cases "run ?n ?s")
  have exn: "cpu_exn e" if "q = Inl e" for e
    using run_raises r that by blast
  have silent: "trace_cb t = None" using run_silent [where s = ?s and n = ?n] r by (simp add: set_reg_def new_machine_def reset_def)
  show ?thesis unfolding sim Let_def r using tr r exn silent
    by (cases q) (auto simp: listing_def trace_output_def report_exception_def cpu_exn_def split: exn.splits)
qed

text \<open>A file with \<open>BX LR\<close> at 0x100, which halts the simulator at once.\<close>

definition halt_hex :: "u8 list" where
  "halt_hex = map of_char (write_ihex [LF] [(0x100, [0x70, 0x47])] 0x101)"

lemma history_last:
  "\<not> halted s \<Longrightarrow> read16 (mem s) (pc s) = Inr i \<Longrightarrow> step s = (Inr False, t) \<Longrightarrow> history (Suc n) s = [(pc s, i)]"
  by simp

lemma run_halt:
  assumes "read16 m 0x100 = Inr 0x4770"
  shows "run 9 (set_reg PC (0x101 AND NOT 1) (new_machine m)) =
      (Inr 0, (set_reg PC 0 (new_machine m))\<lparr>halted := True, cycles := 1\<rparr>)"
    and "history 9 (set_reg PC (0x101 AND NOT 1) (new_machine m)) = [(0x100, 0x4770)]"
proof -
  let ?s = "set_reg PC (0x101 AND NOT 1) (new_machine m)"
  have s: "\<not> halted ?s" "pc ?s = 0x100" "read16 (mem ?s) (pc ?s) = Inr 0x4770"
    using assms by (simp_all add: set_reg_def new_machine_def reset_def pc_def PC_def SP_def)
  have x: "execute 0x4770 = exec_hi_reg_bx 0x4770" by (simp add: execute_def Let_def field_def)
  have st: "step ?s = (Inr False, (set_reg PC 0 (new_machine m))\<lparr>halted := True, cycles := 1\<rparr>)"
    unfolding step_fetched [OF s(1,3)] x
    by (simp add: exec_hi_reg_bx_def field_def hi_rd_def flag_def call_trace_def advance_pc_def set_pc_def
        set_reg_def new_machine_def reset_def PC_def SP_def)
  have "run (Suc 8) ?s = (Inr 0, (set_reg PC 0 (new_machine m))\<lparr>halted := True, cycles := 1\<rparr>)"
    unfolding run_Suc st by simp
  then show "run 9 ?s = (Inr 0, (set_reg PC 0 (new_machine m))\<lparr>halted := True, cycles := 1\<rparr>)" by simp
  from history_last [OF s(1,3) st, where n = 8] show "history 9 ?s = [(0x100, 0x4770)]" by (simp add: s(2) [simplified])
qed

lemma padding:
  "replicate 2 c = [c, c]" "replicate 4 c = [c, c, c, c]" "replicate 5 c = [c, c, c, c, c]" "replicate 7 c = [c, c, c, c, c, c, c]"
  by (simp_all add: numeral_eq_Suc)

lemma dump_halt:
  "dump_registers ((set_reg PC 0 (new_machine m))\<lparr>halted := True, cycles := 1\<rparr>) =
     [LF] @ bar 2 @ '' Registers '' @ bar 32 @ [LF] @
     ''  r0   = 0x00000000  r1   = 0x00000000  r2   = 0x00000000  r3   = 0x00000000'' @ [LF] @
     ''  r4   = 0x00000000  r5   = 0x00000000  r6   = 0x00000000  r7   = 0x00000000'' @ [LF] @
     ''  r8   = 0x00000000  r9   = 0x00000000  r10  = 0x00000000  r11  = 0x00000000'' @ [LF] @
     ''  r12  = 0x00000000  sp   = 0x00002000  lr   = 0x00000000  pc   = 0x00000000'' @ [LF] @
     ''  APSR: N=0 Z=0 C=0 V=0'' @ [LF] @ ''  Cycles: 1'' @ [LF]"
proof -
  let ?t = "(set_reg PC 0 (new_machine m))\<lparr>halted := True, cycles := 1\<rparr>"
  have r: "reg ?t r = (if r = 13 then 0x2000 else 0)" for r
    by (simp add: reg_def set_reg_def new_machine_def reset_def RESET_SP_def SP_def PC_def)
  have h: "hex_number True 0 = ''0''" "hex_number True 0x2000 = ''2000''"
    by (simp_all add: hex_steps hex_digit_char_def char_of_def bit_0)
  have f: "apsr ?t = \<lparr>N = False, Z = False, C = False, V = False\<rparr>" "unat (cycles ?t) = 1" "to_string 1 = ''1''"
    by (simp_all add: set_reg_def new_machine_def reset_def to_string.simps char_of_def bit_0)
  show ?thesis unfolding dump_registers_def f
    by (simp add: register_field_def r h setw_def left_aligned_def reg_names_def flag_digit_def padding)
qed

theorem simulator_runs_hex_file_witness:
  "run_simulation (\<lambda>p. if p = ''a.hex'' then Contents halt_hex else Missing) (\<lambda>_ _. CHR 0x00)
      (new_config\<lparr>ihex_path := ''a.hex'', steps := 9, trace := True\<rparr>) =
   \<lparr>exit_code = EXIT_SUCCESS,
    std_out = ''Loaded HEX '' @ quoted ''a.hex'' @ '', entry=0x00000101'' @ [LF] @
      trace_title @ ''  0x0100  4770  bx lr'' @ [LF] @
      [LF] @ ''Done: 0 steps executed.'' @ [LF] @
      [LF] @ bar 2 @ '' Registers '' @ bar 32 @ [LF] @
      ''  r0   = 0x00000000  r1   = 0x00000000  r2   = 0x00000000  r3   = 0x00000000'' @ [LF] @
      ''  r4   = 0x00000000  r5   = 0x00000000  r6   = 0x00000000  r7   = 0x00000000'' @ [LF] @
      ''  r8   = 0x00000000  r9   = 0x00000000  r10  = 0x00000000  r11  = 0x00000000'' @ [LF] @
      ''  r12  = 0x00000000  sp   = 0x00002000  lr   = 0x00000000  pc   = 0x00000000'' @ [LF] @
      ''  APSR: N=0 Z=0 C=0 V=0'' @ [LF] @ ''  Cycles: 1'' @ [LF],
    std_err = ''''\<rparr>"
proof -
  let ?cfg = "new_config\<lparr>ihex_path := ''a.hex'', steps := 9, trace := True\<rparr>"
  let ?files = "\<lambda>p. if p = ''a.hex'' then Contents halt_hex else Missing"
  let ?m = "\<lparr>bytes = copy_bytes (\<lambda>_. 0) 0x100 [0x70, 0x47]\<rparr>"
  have "load_all [(0x100, [0x70, 0x47])] new_flat_mem = (Inr (), ?m)"
    by (simp add: seq_act_def bind_act_def load_def translate_def mem_map new_flat_mem_def)
  then have sim: "let s = set_reg PC (0x101 AND NOT 1) (new_machine ?m); printed = loaded_line ?cfg 0x101 @ listing ?cfg s
    in run_simulation ?files (\<lambda>_ _. CHR 0x00) ?cfg =
       (case run (unat (steps ?cfg)) s of
          (Inr n, t) \<Rightarrow>
            \<lparr>exit_code = EXIT_SUCCESS, std_out = printed @ done_line n @ dump_registers t, std_err = ''''\<rparr>
        | (Inl e, t) \<Rightarrow>
            \<lparr>exit_code = EXIT_FAILURE, std_out = printed @ dump_registers t,
             std_err = [LF] @ (case e of BusFaultException _ \<Rightarrow> ''[FAULT] '' | _ \<Rightarrow> ''[SIM ERROR] '') @ what e @ [LF]\<rparr>)"
    by (intro simulator_runs_hex_file [where eol = "[LF]" and chunks = "[(0x100, [0x70, 0x47])]"])
      (simp_all add: halt_hex_def new_config_def)
  have "read16 ?m 0x100 = Inr 0x4770"
    by (simp add: read16_def translate_def mem_map join16_def)
  note halt = run_halt [OF this]
  have cfg: "unat (steps ?cfg) = 9" "trace ?cfg" by simp_all
  have "hex_number False 0x100 = ''100''" "hex_number False 0x4770 = ''4770''" by (simp_all add: hex_steps hex_digit_char_def char_of_def bit_0)
  then have line: "traced_line (0x100, 0x4770) = ''  0x0100  4770  bx lr'' @ [LF]"
    by (simp add: traced_line_def print_def disassemble_def field_def fmt_reg_def setw_def LF_def Let_def)
  have hex_101: "hex_number True 0x101 = ''101''" by (simp add: hex_steps hex_digit_char_def char_of_def bit_0)
  have loaded: "loaded_line ?cfg 0x101 = ''Loaded HEX '' @ quoted ''a.hex'' @ '', entry=0x00000101'' @ [LF]"
    using hex_101 by (simp add: loaded_line_def new_config_def setw_def padding)
  have zero: "done_line 0 = [LF] @ ''Done: 0 steps executed.'' @ [LF]"
    by (simp add: done_line_def to_string.simps char_of_def bit_0)
  show ?thesis using sim unfolding Let_def listing_def cfg halt loaded
    by (simp only: zero dump_halt cfg(2) prod.case sum.case if_True list.map concat.simps line append_assoc append_Nil2 append.simps)
qed

end
