(* ===== verification/Sensor_Demo.thy ===== *)
theory Sensor_Demo
  imports Messages Queue Board
begin

text \<open>
  The sensor pipeline of src/demo/sensor_demo.cpp: three tasks on the RTOS kernel that hand
  readings over in two queues and reach their peripherals through the peripheral bus. A task is a
  program counter, whose values are the places between two kernel calls, and a step runs the
  current task from one of them to the next. Temperatures, which the code keeps in \<open>float\<close>, are
  in half degrees: every value that occurs is a multiple of one half and exact.
\<close>

section \<open>Constants and readings\<close>

definition BUF_SIZE :: nat where "BUF_SIZE = 32"
definition POLL_DELAY_TICKS :: u32 where "POLL_DELAY_TICKS = 500"
definition SENSOR_ERROR :: int where "SENSOR_ERROR = - 1998"
definition TEMP_SCALE_BASE :: int where "TEMP_SCALE_BASE = 250"
definition TEMP_CAN_ID :: u32 where "TEMP_CAN_ID = 0x1B0"

record reading =
  rtick :: u32
  raw :: u16
  celsius :: int

text \<open>The cast to \<open>int\<close> truncates; \<open>frac\<close> is 5 when a half is left, with the sign of \<open>t\<close>.\<close>

definition fmt_temp :: "int \<Rightarrow> string" where
  "fmt_temp t =
     (let integer = t sdiv 2;
          frac = (t - 2 * integer) * 5;
          frac = (if frac < 0 then - frac else frac)
      in take (BUF_SIZE - 1) (int_string integer @ ''.'' @ int_string frac))"

section \<open>The bodies of the tasks\<close>

text \<open>One turn of the loop of \<open>task_i2c_reader\<close>, from the delay to the sends.\<close>

definition read_sensor :: "entry list \<Rightarrow> u32 \<Rightarrow> nat \<Rightarrow> (devices, reading) act" where
  "read_sensor es now k =
     seq_act (periph_write es (I2C0_BASE + REG_REG_ADDR) (of_nat REG_TEMP))
     (seq_act (periph_write es (I2C0_BASE + I2C_REG_CR) (ucast DEFAULT_ADDR OR CR_READ OR CR_START))
     (bind_act (periph_read es (I2C0_BASE + I2C_REG_SR)) (\<lambda>sr.
        if sr AND SR_ACK_OK = 0 then ret \<lparr>rtick = now, raw = - 1, celsius = SENSOR_ERROR\<rparr>
        else bind_act (periph_read es (I2C0_BASE + I2C_REG_DR)) (\<lambda>v. let msb = ucast v :: u8 in
             bind_act (periph_read es (I2C0_BASE + I2C_REG_DR)) (\<lambda>v. let lsb = ucast v :: u8;
               c = 2 * sint msb + (if lsb AND 0x80 \<noteq> 0 then 1 else 0);
               r = push_bit 1 (ucast msb) OR (if lsb AND 0x80 \<noteq> 0 then 1 else 0)
             in seq_act (update (\<lambda>d. d\<lparr>i2c0 := (i2c0 d)\<lparr>sensor :=
                    set_temperature_c10 (TEMP_SCALE_BASE + int k * 5) (sensor (i2c0 d))\<rparr>\<rparr>))
                  (ret \<lparr>rtick = now, raw = r, celsius = c\<rparr>))))))"

definition frame_word :: "reading \<Rightarrow> u32" where
  "frame_word r = push_bit 16 (rtick r AND 0xFFFF) OR ucast (raw r)"

definition forward_reading :: "entry list \<Rightarrow> reading \<Rightarrow> (devices, unit) act" where
  "forward_reading es r =
     seq_act (periph_write es (CAN0_BASE + REG_TX_ID) TEMP_CAN_ID)
     (seq_act (periph_write es (CAN0_BASE + REG_TX_DLC) 4)
     (seq_act (periph_write es (CAN0_BASE + REG_TX_D0) (frame_word r))
     (seq_act (periph_write es (CAN0_BASE + REG_TX_D1) 0)
     (seq_act (periph_write es (CAN0_BASE + REG_TX_SEND) 1)
     (bind_act (periph_read es (CAN0_BASE + CAN_REG_SR)) (\<lambda>sr. ret ()))))))"

definition log_line :: "reading \<Rightarrow> string" where
  "log_line r = ''[UART] tick='' @ to_string (unat (rtick r)) @ '' temp='' @ fmt_temp (celsius r) @
     ''C'' @ [CHR 0x0A]"

definition log_reading :: "entry list \<Rightarrow> reading \<Rightarrow> (devices, unit) act" where
  "log_reading es r = for_each (log_line r) (\<lambda>c. periph_write es (UART0_BASE + REG_DR) (of_char c))"

section \<open>The tasks\<close>

text \<open>
  The arguments are the loop counters and the reading in hand: \<open>R_can\<close> and \<open>R_uart\<close> are the two
  calls of \<open>send\<close>, and \<open>F_loop\<close> and \<open>L_loop\<close> the calls of \<open>receive\<close>.
\<close>

datatype reader_pc = R_loop nat | R_read nat | R_can reading nat | R_uart reading nat | R_end

datatype forwarder_pc = F_loop | F_send reading

datatype logger_pc = L_loop nat | L_write reading nat | L_end

record demo =
  kern :: sched
  to_can :: "reading queue"
  to_uart :: "reading queue"
  devs :: devices
  periph_bus :: "entry list"
  i2c_reader :: reader_pc
  can_forwarder :: forwarder_pc
  uart_logger :: logger_pc

definition on_devs :: "(entry list \<Rightarrow> (devices, 'a) act) \<Rightarrow> (demo, 'a) act" where
  "on_devs m d = (case m (periph_bus d) (devs d) of (r, v) \<Rightarrow> (r, d\<lparr>devs := v\<rparr>))"

definition task_i2c_reader :: "(demo, unit) act" where
  "task_i2c_reader d =
     (case i2c_reader d of
        R_loop k \<Rightarrow> (Inr (), if k < 10
           then d\<lparr>kern := vTaskDelay POLL_DELAY_TICKS (kern d), i2c_reader := R_read k\<rparr>
           else d\<lparr>kern := task_end (kern d), i2c_reader := R_end\<rparr>)
      | R_read k \<Rightarrow>
          bind_act (on_devs (\<lambda>es. read_sensor es (tick_count (kern d)) k))
            (\<lambda>r. update (\<lambda>d. d\<lparr>i2c_reader := R_can r k\<rparr>)) d
      | R_can r k \<Rightarrow> (Inr (), let (ok, q, s) = queue_send 8 r (to_can d, kern d)
           in d\<lparr>kern := s, to_can := q, i2c_reader := if ok then R_uart r k else R_can r k\<rparr>)
      | R_uart r k \<Rightarrow> (Inr (), let (ok, q, s) = queue_send 8 r (to_uart d, kern d)
           in d\<lparr>kern := s, to_uart := q, i2c_reader := if ok then R_loop (k + 1) else R_uart r k\<rparr>)
      | R_end \<Rightarrow> (Inr (), d))"

definition task_can_forwarder :: "(demo, unit) act" where
  "task_can_forwarder d =
     (case can_forwarder d of
        F_loop \<Rightarrow> (Inr (), let (x, q, s) = queue_receive 8 (to_can d, kern d)
           in d\<lparr>kern := s, to_can := q, can_forwarder := case x of None \<Rightarrow> F_loop | Some r \<Rightarrow> F_send r\<rparr>)
      | F_send r \<Rightarrow>
          seq_act (on_devs (\<lambda>es. forward_reading es r)) (update (\<lambda>d. d\<lparr>can_forwarder := F_loop\<rparr>)) d)"

definition task_uart_logger :: "(demo, unit) act" where
  "task_uart_logger d =
     (case uart_logger d of
        L_loop n \<Rightarrow> (Inr (), let (x, q, s) = queue_receive 8 (to_uart d, kern d)
           in d\<lparr>kern := s, to_uart := q,
                uart_logger := case x of None \<Rightarrow> L_loop n | Some r \<Rightarrow> L_write r (n + 1)\<rparr>)
      | L_write r n \<Rightarrow>
          seq_act (on_devs (\<lambda>es. log_reading es r))
            (update (\<lambda>d. if n = 10 then d\<lparr>kern := task_end (kern d), uart_logger := L_end\<rparr>
                         else d\<lparr>uart_logger := L_loop n\<rparr>)) d
      | L_end \<Rightarrow> (Inr (), d))"

text \<open>
  A task ends with an exception that its function throws: \<open>task_entry\<close> of the kernel catches it, and
  the task is never selected again.
\<close>

definition task_entry :: "(demo, unit) act \<Rightarrow> (demo, unit) act" where
  "task_entry task d =
     (case task d of
        (Inr _, d) \<Rightarrow> (Inr (), d)
      | (Inl e, d) \<Rightarrow> (Inr (), d\<lparr>kern := task_end (kern d)\<rparr>))"

text \<open>A step of the task that has the processor; the handles are given out in the order of creation.\<close>

definition demo_step :: "(demo, unit) act" where
  "demo_step d =
     (if current (kern d) = 0 then task_entry task_i2c_reader d
      else if current (kern d) = 1 then task_entry task_can_forwarder d
      else if current (kern d) = 2 then task_entry task_uart_logger d
      else (Inr (), d))"

primrec demo_run :: "nat \<Rightarrow> (demo, unit) act" where
  "demo_run 0 = ret ()"
| "demo_run (Suc n) = seq_act demo_step (demo_run n)"

section \<open>The program\<close>

definition banner :: string where
  "banner = ''=== MCU Sensor Pipeline Demo ==='' @ [CHR 0x0A]"

definition no_reading :: reading where
  "no_reading = \<lparr>rtick = 0, raw = 0, celsius = 0\<rparr>"

definition globals :: demo where
  "globals = \<lparr>kern = new_sched, to_can = new_queue 8 no_reading, to_uart = new_queue 8 no_reading,
     devs = new_devices, periph_bus = [], i2c_reader = R_loop 0, can_forwarder = F_loop,
     uart_logger = L_loop 0\<rparr>"

definition create_tasks :: "sched \<Rightarrow> sched" where
  "create_tasks s = snd (xTaskCreate 2 (snd (xTaskCreate 1 (snd (xTaskCreate 2 s)))))"

text \<open>\<open>main\<close> until the scheduler is started; the banner does not go through the bus.\<close>

definition set_up :: "(demo, unit) act" where
  "set_up =
     seq_act (\<lambda>d. case wire_up (periph_bus d) of (r, es) \<Rightarrow> (r, d\<lparr>periph_bus := es\<rparr>))
     (seq_act (on_devs (\<lambda>es. periph_write es (UART0_BASE + REG_CR) CR_ENABLE))
     (seq_act (update (\<lambda>d. d\<lparr>devs := (devs d)\<lparr>uart0 :=
        fold (\<lambda>c. uart_write_reg REG_DR (of_char c)) banner (uart0 (devs d))\<rparr>\<rparr>))
     (update (\<lambda>d. d\<lparr>kern := create_tasks (kern d)\<rparr>))))"

text \<open>\<open>%.1f\<close> of a number of half degrees.\<close>

definition half_string :: "int \<Rightarrow> string" where
  "half_string h = (if h < 0 then ''-'' else '''') @ to_string (nat (\<bar>h\<bar> div 2)) @
     (if odd h then ''.5'' else ''.0'')"

text \<open>The line for a received frame: its data word is taken apart again.\<close>

definition frame_line :: "can_frame \<Rightarrow> string" where
  "frame_line f =
     (let d0 = data_word 0 f;
          tick_lo = ucast (drop_bit 16 d0 AND 0xFFFF) :: u16;
          w = ucast (d0 AND 0xFFFF) :: u16;
          t = 2 * (sint w div 2) + (if sint w AND 1 \<noteq> 0 then 1 else 0)
      in ''  CAN ID=0x'' @ setw 3 CHR ''0'' (hex_number True (unat (fid f))) @ '' DLC='' @
         to_string (unat (dlc f)) @ '' tick='' @ to_string (unat tick_lo) @ '' temp='' @
         half_string t @ '' C'' @ [CHR 0x0A])"

lemma pop_count:
  "count (rx_buf (can_of w n)) \<noteq> 0 \<Longrightarrow>
   count (rx_buf (can_of (can_write_reg n REG_RX_POP v w) n)) < count (rx_buf (can_of w n))"
  by (simp add: can_write_reg_def can_regs on_can_def can_pop_def ring_pop_def Let_def)

function dump_frames :: "can_net \<Rightarrow> string" where
  "dump_frames w =
     (if count (rx_buf (can_of w 1)) = 0 then ''''
      else frame_line (rx_peek (can_of w 1)) @ dump_frames (can_write_reg 1 REG_RX_POP 1 w))"
  by pat_completeness auto
termination by (relation "measure (\<lambda>w. count (rx_buf (can_of w 1)))") (simp_all add: pop_count del: One_nat_def)

declare dump_frames.simps [simp del]

text \<open>What is printed after the tasks have stopped.\<close>

definition results_of :: "demo \<Rightarrow> string" where
  "results_of d =
     map (\<lambda>b. char_of (unat b)) (takeWhile (\<lambda>b. b \<noteq> 0) (fst (drain_tx (uart0 (devs d))))) @ [CHR 0x0A] @
     ''--- CAN1 received '' @ to_string (count (rx_buf (can_of (can_bus (devs d)) 1))) @
     '' frame(s) ---'' @ [CHR 0x0A] @ dump_frames (can_bus (devs d))"

text \<open>
  \<open>main\<close>, for at most \<open>fuel\<close> steps of the tasks: \<open>None\<close> when they have not given the processor
  back by then.
\<close>

definition demo_main :: "nat \<Rightarrow> (exn + string) option" where
  "demo_main fuel =
     (case seq_act set_up (seq_act (update (\<lambda>d. d\<lparr>kern := vTaskStartScheduler (kern d)\<rparr>)) (demo_run fuel)) globals of
        (Inl e, d) \<Rightarrow> Some (Inl e)
      | (Inr _, d) \<Rightarrow> if current (kern d) = INVALID_TASK then Some (Inr (results_of d)) else None)"

end
