(* ===== verification/Sensor_Steps.thy ===== *)
theory Sensor_Steps
  imports Sensor_Demo
begin

text \<open>
  What the bodies of the tasks of the sensor pipeline do, on the abstract views of the peripherals
  that they reach through the bus.
\<close>

section \<open>Reading the sensor\<close>

text \<open>The temperature in half degrees, as the 16 bits that the reader packs.\<close>

definition packed :: "lm75 \<Rightarrow> u16" where
  "packed l = push_bit 1 (ucast (l ! 0)) OR (if l ! 1 AND 0x80 \<noteq> 0 then 1 else 0)"

lemma byte_through_DR: "ucast (ucast b :: u32) = b" for b :: u8
  by (rule bit_word_eqI) (auto simp: bit_simps)

lemma register_bytes:
  "ucast (drop_bit 8 (push_bit 8 (ucast a)) OR drop_bit 8 (ucast b) :: u16) = a"
  "ucast ((push_bit 8 (ucast a) OR ucast b) AND 0xFF :: u16) = b" for a b :: u8
  unfolding low_byte16
  by (rule bit_word_eqI; auto simp: bit_simps dest: bit_imp_le_length)+

lemma read_sensor_done:
  assumes "length (sensor (i2c0 d)) = 8"
  shows "\<exists>c. read_sensor wired now k d =
      (Inr \<lparr>rtick = now, raw = packed (sensor (i2c0 d)), celsius = temperature_c (sensor (i2c0 d))\<rparr>,
       d\<lparr>i2c0 := c\<rparr>) \<and>
    sensor c = set_temperature_c10 (250 + int k * 5) (sensor (i2c0 d))"
proof -
  let ?l = "sensor (i2c0 d)"
  define c1 where "c1 = i2c_write_reg REG_REG_ADDR (of_nat REG_TEMP) (i2c0 d)"
  define c2 where "c2 = i2c_write_reg I2C_REG_CR (ucast DEFAULT_ADDR OR CR_READ OR CR_START) c1"
  define c3 where "c3 = c2\<lparr>i2c_rx := [?l ! 1]\<rparr>"
  define c4 where "c4 = c3\<lparr>i2c_rx := [], i2c_sr := i2c_sr c3 AND NOT I2C_SR_RX_READY\<rparr>"
  have c1: "reg_addr c1 = 0" "sensor c1 = ?l"
    by (simp_all add: c1_def i2c_write_reg_def i2c_regs lm75_regs)
  have c2: "c2 = c1\<lparr>i2c_rx := [?l ! 0, ?l ! 1], i2c_sr := SR_ACK_OK OR I2C_SR_RX_READY\<rparr>"
    using c1 by (simp add: c2_def i2c_write_reg_def dispatch_read_def read_reg16_def DEFAULT_ADDR_def
        CR_READ_def CR_START_def register_bytes I2C_REG_CR_def Let_def)
  have r: "i2c_read_reg I2C_REG_SR c2 = (SR_ACK_OK OR I2C_SR_RX_READY, c2)"
    "i2c_read_reg I2C_REG_DR c2 = (ucast (?l ! 0), c3)"
    "i2c_read_reg I2C_REG_DR c3 = (ucast (?l ! 1), c4)"
    by (simp_all add: i2c_read_reg_def i2c_regs c2 c3_def c4_def)
  have s: "sensor c4 = ?l" by (simp add: c4_def c3_def c2 c1(2))
  show ?thesis
    by (rule exI [of _ "c4\<lparr>sensor := set_temperature_c10 (250 + int k * 5) ?l\<rparr>"])
      (simp add: read_sensor_def seq_act_def bind_act_def reach_i2c i2c_regs [THEN arg_cong, of unat]
        c1_def [symmetric] c2_def [symmetric] r s packed_def temperature_c_def byte_through_DR
        TEMP_SCALE_BASE_def SR_ACK_OK_def I2C_SR_RX_READY_def Let_def)
qed

lemma signed_byte: "sint a = (if unat a < 128 then int (unat a) else int (unat a) - 256)" for a :: u8
proof -
  have p: "sint (word_of_int (int n) :: u8) = int n" if "n < 128" for n
    by (rule sint_byte) (use that in simp_all)
  have m: "sint (word_of_int (int n) :: u8) = int n - 256" if "128 \<le> n" "n < 256" for n
  proof -
    have "sint (word_of_int (int n - 256) :: u8) = int n - 256" by (rule sint_byte) (use that in simp_all)
    moreover have "word_of_int (int n - 256) = (word_of_int (int n) :: u8)" by simp
    ultimately show ?thesis by (simp only:)
  qed
  have "a = word_of_int (int (unat a))" by simp
  then show ?thesis using p [of "unat a"] m [of "unat a"] unsigned_less [where w = a and 'a = nat] by auto
qed

text \<open>
  As a signed number the packed temperature is the one the sensor holds, unless that is below zero:
  the high byte is not sign-extended, and 256 degrees are added.
\<close>

lemma packed_value: "sint (packed l) = temperature_c l + (if temperature_c l < 0 then 512 else 0)"
proof -
  let ?a = "l ! 0" and ?b = "of_bool (l ! 1 AND 0x80 \<noteq> 0) :: nat"
  have a: "unat ?a < 256" using unsigned_less [where w = ?a and 'a = nat] by simp
  have "packed l = of_nat (2 * unat ?a + ?b)"
  proof -
    have "push_bit 1 (ucast ?a) AND (if l ! 1 AND 0x80 \<noteq> 0 then 1 else 0) = (0 :: u16)"
      by (rule bit_word_eqI) (simp only: bit_and_iff bit_push_bit_iff bit_0_eq, auto simp: bit_1_iff split: if_splits)
    then have "packed l = push_bit 1 (ucast ?a) + (if l ! 1 AND 0x80 \<noteq> 0 then 1 else 0)"
      by (simp only: packed_def disjunctive_add_eq_or)
    then show ?thesis by (simp add: push_bit_eq_mult)
  qed
  moreover have n: "sint (word_of_int (int n) :: u16) = int n" if "n < 512" for n
    using that by (simp only: signed_of_int) (simp add: signed_take_bit_int_eq_self)
  have "sint (word_of_int (int (2 * unat ?a + ?b)) :: u16) = int (2 * unat ?a + ?b)"
    by (rule n) (use a in simp)
  ultimately have "sint (packed l) = int (2 * unat ?a + ?b)"
    by (simp only: of_int_of_nat_eq)
  moreover have "sint ?a = (if unat ?a < 128 then int (unat ?a) else int (unat ?a) - 256)"
    by (rule signed_byte)
  moreover have "\<not> 2 * uint ?a + 1 < 0" "uint ?a < 256"
    using unsigned_greater_eq [where w = ?a and 'a = int] unsigned_less [where w = ?a and 'a = int]
    by (linarith, simp)
  ultimately show ?thesis using a by (auto simp: temperature_c_def)
qed

section \<open>The CAN link\<close>

definition link :: "can_frame list \<Rightarrow> can_net \<Rightarrow> bool" where
  "link fs w \<longleftrightarrow> net_ok w \<and> 1 \<in> set (nodes w) \<and> on_bus (can_of w 0) \<and> filter_mask (can_of w 1) = 0 \<and>
     rx_frames (can_of w 1) = fs"

definition frame_of :: "reading \<Rightarrow> can_frame" where
  "frame_of r = \<lparr>fid = 0x1B0, dlc = 4,
     fdata = [byte 0 (frame_word r), byte 1 (frame_word r), byte 2 (frame_word r), byte 3 (frame_word r), 0, 0, 0, 0]\<rparr>"

lemma link_view:
  "link fs w \<longleftrightarrow> net_ok w \<and> 1 \<in> members (view_net w) \<and> linked (node (view_net w) 0) \<and>
     acc_mask (node (view_net w) 1) = 0 \<and> inbox (node (view_net w) 1) = fs"
  by (simp add: link_def view_net_def view_node_def)

text \<open>A write to a staging register of node 0.\<close>

lemma stage:
  assumes "link fs w" "off \<noteq> REG_TX_SEND" "off \<le> 0x0C"
  shows "link fs (can_write_reg 0 off v w) \<and>
    staged (node (view_net (can_write_reg 0 off v w)) 0) = staged (spec_write off v (node (view_net w) 0))"
proof -
  have "linked (spec_write off v nd) = linked nd" for nd by (simp add: spec_write_def Let_def)
  then show ?thesis
    using assms(1) write_view [of w off 0 v] assms(2) by (simp add: link_view)
qed

lemma send_reading:
  assumes l: "link fs w" and n: "length fs < 32"
  shows "link (fs @ [frame_of r]) (can_write_reg 0 REG_TX_SEND 1 (can_write_reg 0 REG_TX_D1 0
    (can_write_reg 0 REG_TX_D0 (frame_word r) (can_write_reg 0 REG_TX_DLC 4
      (can_write_reg 0 REG_TX_ID TEMP_CAN_ID w)))))"
proof -
  define w1 where "w1 = can_write_reg 0 REG_TX_ID TEMP_CAN_ID w"
  define w2 where "w2 = can_write_reg 0 REG_TX_DLC 4 w1"
  define w3 where "w3 = can_write_reg 0 REG_TX_D0 (frame_word r) w2"
  define w4 where "w4 = can_write_reg 0 REG_TX_D1 0 w3"
  have "frame_ok (tx_frame (can_of w 0))" using l by (auto simp: link_def net_ok_def can_wf_def)
  then have f: "length (fdata (staged (node (view_net w) 0))) = 8"
    by (simp add: frame_ok_def view_net_def view_node_def)
  note s1 = stage [OF l, of REG_TX_ID TEMP_CAN_ID, folded w1_def, simplified can_regs, simplified]
  note s2 = stage [OF conjunct1 [OF s1], of REG_TX_DLC 4, folded w2_def, simplified can_regs, simplified]
  note s3 = stage [OF conjunct1 [OF s2], of REG_TX_D0 "frame_word r", folded w3_def, simplified can_regs, simplified]
  note s4 = stage [OF conjunct1 [OF s3], of REG_TX_D1 0, folded w4_def, simplified can_regs, simplified]
  have g: "staged (node (view_net w4) 0) = frame_of r"
    using s1 s2 s3 s4 f
    by (simp add: spec_write_def can_regs TEMP_CAN_ID_def frame_of_def Let_def byte_def)
  have l4: "link fs w4" using s4 by simp
  then have ok: "net_ok w4" by (simp add: link_def)
  have "can_write_reg 0 REG_TX_SEND 1 w4 = can_send 0 w4" by (simp add: can_write_reg_def can_regs)
  moreover have "link (fs @ [frame_of r]) (can_send 0 w4)"
    using l4 send_view [OF ok, of 0] n g
    by (simp add: link_view spec_send_def receive_def accepts_def RX_CAPACITY_def)
  ultimately show ?thesis by (simp only: w1_def w2_def w3_def w4_def)
qed

lemma forward_done:
  "link fs (can_bus d) \<Longrightarrow> length fs < 32 \<Longrightarrow>
   \<exists>w. forward_reading wired r d = (Inr (), d\<lparr>can_bus := w\<rparr>) \<and> link (fs @ [frame_of r]) w"
  using send_reading [of fs "can_bus d" r]
  by (simp add: forward_reading_def seq_act_def bind_act_def reach_can can_regs [THEN arg_cong, of unat]) blast

text \<open>What the receiver makes of a frame, and the dump of all frames.\<close>

lemma frame_words: "ucast (drop_bit 16 (frame_word r) AND 0xFFFF) = (ucast (rtick r) :: u16)"
  "ucast (frame_word r AND 0xFFFF) = raw r"
proof -
  have m: "(0xFFFF :: u32) = mask 16" by (simp add: mask_eq_exp_minus_1)
  show "ucast (drop_bit 16 (frame_word r) AND 0xFFFF) = (ucast (rtick r) :: u16)"
    "ucast (frame_word r AND 0xFFFF) = raw r"
    unfolding frame_word_def m
    by (rule bit_word_eqI; auto simp: bit_simps dest: bit_imp_le_length)+
qed

lemma halves: "2 * (i div 2) + (if i AND 1 \<noteq> 0 then 1 else 0) = i" for i :: int
  by (simp add: and_one_eq) presburger

lemma frame_line_of:
  "frame_line (frame_of r) = ''  CAN ID=0x1B0 DLC=4 tick='' @ to_string (unat (ucast (rtick r) :: u16)) @
     '' temp='' @ half_string (sint (raw r)) @ '' C'' @ [CHR 0x0A]"
proof -
  have d: "data_word 0 (frame_of r) = frame_word r"
    by (simp add: data_word_def frame_of_def)
  have "setw 3 CHR ''0'' (hex_number True 0x1B0) = ''1B0''" "to_string 4 = ''4''"
    by (simp_all add: setw_def hex_steps hex_digit_char_def to_string.simps char_of_def bit_0)
  moreover have "fid (frame_of r) = 0x1B0" "dlc (frame_of r) = 4" by (simp_all add: frame_of_def)
  ultimately show ?thesis
    by (simp add: frame_line_def d frame_words halves Let_def)
qed

lemma dump_link: "link fs w \<Longrightarrow> dump_frames w = concat (map frame_line fs)"
proof (induction fs arbitrary: w)
  case Nil
  then show ?case by (subst dump_frames.simps) (simp add: link_def rx_count)
next
  case (Cons f fs)
  let ?w = "can_write_reg 1 REG_RX_POP 1 w"
  have c: "rx_frames (can_of w 1) = f # fs" "count (rx_buf (can_of w 1)) \<noteq> 0" "can_ok (can_of w 1)"
    using Cons.prems by (auto simp: link_def rx_count net_ok_def can_wf_def)
  have "\<exists>t. ring_pop RX_CAPACITY (rx_buf (can_of w 1)) = (Some f, t)"
    using ring.pop_first [of RX_CAPACITY "rx_buf (can_of w 1)" f fs] c by (auto simp: can_ok_def rx_frames_def)
  then have p: "rx_peek (can_of w 1) = f" using c(2) by (auto simp: rx_peek_def ring_pop_def split: if_splits)
  have "link fs ?w"
    using Cons.prems write_view [of w REG_RX_POP 1 1]
    by (simp add: link_view spec_write_def can_regs Let_def)
  from Cons.IH [OF this] show ?case using c(2) p by (subst dump_frames.simps) simp
qed

section \<open>The log\<close>

definition line_bytes :: "string \<Rightarrow> u8 list" where
  "line_bytes = map of_char"

text \<open>The transmitter of \<open>uart0\<close> holds \<open>bs\<close>, and what is written to DR is transmitted.\<close>

definition line_out :: "u8 list \<Rightarrow> uart \<Rightarrow> bool" where
  "line_out bs u \<longleftrightarrow> uart_ok u \<and> cr u = CR_ENABLE \<and> tx_bytes u = bs"

lemma char_byte: "ucast ((of_char c :: u32) AND 0xFF) = (of_char c :: u8)"
  by (simp only: of_char_u32 low_byte)

lemma put_char: "line_out bs u \<Longrightarrow> line_out (enqueue (of_char c) bs) (uart_write_reg REG_DR (of_char c) u)"
  using tx_push_queue [of u "of_char c"]
  by (simp add: line_out_def uart_write_reg_def char_byte CR_ENABLE_def CR_LOOPBACK_def)

lemma enqueue_all: "length bs \<le> 256 \<Longrightarrow> fold enqueue xs bs = take 256 (bs @ xs)"
proof (induction xs arbitrary: bs)
  case (Cons x xs)
  show ?case
  proof (cases "length bs < 256")
    case True
    then show ?thesis using Cons.IH [of "bs @ [x]"] by (simp add: enqueue_def FIFO_SIZE_def)
  next
    case False
    then show ?thesis using Cons.IH [of bs] Cons.prems by (simp add: enqueue_def FIFO_SIZE_def)
  qed
qed simp

lemma put_string:
  assumes "line_out bs u"
  shows "line_out (take 256 (bs @ line_bytes s)) (fold (\<lambda>c. uart_write_reg REG_DR (of_char c)) s u)"
proof -
  have "line_out bs u \<Longrightarrow> line_out (fold enqueue (line_bytes s) bs) (fold (\<lambda>c. uart_write_reg REG_DR (of_char c)) s u)"
    for bs u
    by (induction s arbitrary: bs u) (simp_all add: line_bytes_def put_char)
  moreover have "length bs \<le> 256" using assms tx.bound [of u] by (simp add: line_out_def FIFO_SIZE_def)
  ultimately show ?thesis using assms by (simp only: enqueue_all [symmetric])
qed

lemma log_done:
  "log_reading wired r d = (Inr (), d\<lparr>uart0 := fold (\<lambda>c. uart_write_reg REG_DR (of_char c)) (log_line r) (uart0 d)\<rparr>)"
proof -
  have w: "periph_write wired (UART0_BASE + REG_DR) v d = (Inr (), d\<lparr>uart0 := uart_write_reg REG_DR v (uart0 d)\<rparr>)"
    for v d
    by (rule reach_uart) (simp add: REG_DR_def)
  have "for_each s (\<lambda>c. periph_write wired (UART0_BASE + REG_DR) (of_char c)) d =
      (Inr (), d\<lparr>uart0 := fold (\<lambda>c. uart_write_reg REG_DR (of_char c)) s (uart0 d)\<rparr>)" for s
    by (induction s arbitrary: d) (simp_all add: seq_act_def bind_act_def w)
  then show ?thesis by (simp add: log_reading_def)
qed

lemma printed:
  assumes "CHR 0x00 \<notin> set s" "line_out (line_bytes s) u"
  shows "map (\<lambda>b. char_of (unat b)) (takeWhile (\<lambda>b. b \<noteq> 0) (fst (drain_tx u))) = s"
proof -
  have "fst (drain_tx u) = line_bytes s"
    using drain_tx_all [of u] assms(2) by (auto simp: line_out_def)
  moreover have "(of_char c :: u8) = 0 \<Longrightarrow> c = CHR 0x00" for c
    using char_of_u8 [of c] by (simp add: char_of_def)
  then have "b \<noteq> 0" if "b \<in> set (line_bytes s)" for b
    using that assms(1) by (auto simp: line_bytes_def)
  then have "takeWhile (\<lambda>b. b \<noteq> 0) (line_bytes s) = line_bytes s" by (simp add: takeWhile_eq_all_conv)
  ultimately have "map (\<lambda>b. char_of (unat b)) (takeWhile (\<lambda>b. b \<noteq> 0) (fst (drain_tx u))) =
      map (\<lambda>b. char_of (unat b)) (line_bytes s)" by (simp only:)
  then show ?thesis by (simp add: line_bytes_def comp_def char_of_u8)
qed

end
