(* ===== verification/Sensor_Pipeline.thy ===== *)
theory Sensor_Pipeline
  imports Sensor_Steps
begin

text \<open>
  The run of the sensor pipeline: each reading takes the same ten steps through the three tasks, so
  that the whole run, and with it the output of src/demo/sensor_demo.cpp, follows by induction
  over the readings.
\<close>

section \<open>The kernel with three tasks\<close>

text \<open>The states of the tasks, the wake-up of the reader, the tick and the current task.\<close>

definition three :: "task_state \<Rightarrow> task_state \<Rightarrow> task_state \<Rightarrow> u32 \<Rightarrow> u32 \<Rightarrow> nat \<Rightarrow> sched" where
  "three a b c w t cur =
     \<lparr>tasks = [\<lparr>priority = 2, state = a, resume_tick = w\<rparr>, \<lparr>priority = 1, state = b, resume_tick = 0\<rparr>,
               \<lparr>priority = 2, state = c, resume_tick = 0\<rparr>], tick_count = t, current = cur\<rparr>"

lemma three_simps [simp]:
  "current (three a b c w t cur) = cur" "tick_count (three a b c w t cur) = t"
  by (simp_all add: three_def)

lemmas kernel_evals = schedule_from.simps schedule_after_delete.simps select_next_def best_prio_def
  set_state_def INVALID_TASK_def earliest_def wake_due_def sleeping_def upt_rec

lemma three_create: "create_tasks new_sched = three READY READY READY 0 0 INVALID_TASK"
  by (simp add: create_tasks_def xTaskCreate_def new_sched_def three_def MAX_TASKS_def)

lemma three_start: "vTaskStartScheduler (three READY READY READY 0 0 INVALID_TASK) = three READY RUNNING READY 0 0 1"
  by (simp add: vTaskStartScheduler_def three_def kernel_evals Let_def)

lemma three_wait:
  "block_current (three READY RUNNING READY 0 t 1) = three READY BLOCKED RUNNING 0 t 2"
  "block_current (three READY BLOCKED RUNNING 0 t 2) = three RUNNING BLOCKED BLOCKED 0 t 0"
  "block_current (three READY RUNNING BLOCKED 0 t 1) = three RUNNING BLOCKED BLOCKED 0 t 0"
  by (simp_all add: block_current_def three_def kernel_evals Let_def)

lemma three_wake:
  "unblock 1 (three RUNNING BLOCKED BLOCKED 0 t 0) = three READY RUNNING BLOCKED 0 t 1"
  "unblock 2 (three RUNNING BLOCKED BLOCKED 0 t 0) = three RUNNING BLOCKED READY 0 t 0"
  by (simp_all add: unblock_def three_def kernel_evals Let_def)

lemma three_delay:
  "vTaskDelay 500 (three RUNNING BLOCKED READY 0 t 0) = three BLOCKED BLOCKED RUNNING (t + 500) t 2"
  by (simp add: vTaskDelay_def three_def kernel_evals Let_def)

lemmas three_calls = three_wait [unfolded One_nat_def] three_wake [unfolded One_nat_def] three_delay

text \<open>Nobody is ready: the time advances to the wake-up of the reader.\<close>

lemma three_sleep:
  assumes "0 < w" "w \<noteq> 0xFFFFFFFF"
  shows "block_current (three BLOCKED BLOCKED RUNNING w t 2) = three RUNNING BLOCKED BLOCKED 0 w 0"
    and "w = t + 500 \<Longrightarrow> vTaskDelay 500 (three RUNNING BLOCKED BLOCKED 0 t 0) = three RUNNING BLOCKED BLOCKED 0 w 0"
proof -
  have "min 0xFFFFFFFF w = w" using unsigned_less [where w = w and 'a = nat]
    by (auto simp: min_def word_le_nat_alt word_unat_eq_iff)
  then show "block_current (three BLOCKED BLOCKED RUNNING w t 2) = three RUNNING BLOCKED BLOCKED 0 w 0"
    "w = t + 500 \<Longrightarrow> vTaskDelay 500 (three RUNNING BLOCKED BLOCKED 0 t 0) = three RUNNING BLOCKED BLOCKED 0 w 0"
    using assms by (simp_all add: block_current_def vTaskDelay_def three_def kernel_evals Let_def)
qed

lemma three_end:
  "task_end (three RUNNING BLOCKED READY 0 t 0) = three DELETED BLOCKED RUNNING 0 t 2"
  "task_end (three DELETED BLOCKED RUNNING 0 t 2) = three DELETED BLOCKED DELETED 0 t INVALID_TASK"
  by (simp_all add: task_end_def three_def kernel_evals Let_def)

section \<open>The readings\<close>

text \<open>
  The reading with number \<open>k\<close>, from 0: the sensor starts with 25 degrees, and each reading sets the
  temperature that the next one sees, 25 degrees and half a degree for each reading before.
\<close>

definition reading_at :: "nat \<Rightarrow> reading" where
  "reading_at k = \<lparr>rtick = of_nat (500 * (k + 1)), raw = of_nat (50 + (k - 1)), celsius = 50 + int (k - 1)\<rparr>"

definition log_upto :: "nat \<Rightarrow> string" where
  "log_upto k = banner @ concat (map (\<lambda>i. log_line (reading_at i)) [0 ..< k])"

definition frames_upto :: "nat \<Rightarrow> can_frame list" where
  "frames_upto k = map (\<lambda>i. frame_of (reading_at i)) [0 ..< k]"

lemma upto_Suc:
  "log_upto (Suc k) = log_upto k @ log_line (reading_at k)"
  "frames_upto (Suc k) = frames_upto k @ [frame_of (reading_at k)]"
  "length (frames_upto k) = k"
  by (simp_all add: log_upto_def frames_upto_def)

definition sensor_at :: "nat \<Rightarrow> i2c \<Rightarrow> bool" where
  "sensor_at k c \<longleftrightarrow> length (sensor c) = 8 \<and> temperature_c (sensor c) = celsius (reading_at k)"

lemma sensor_packed:
  assumes "sensor_at k c" "k < 100"
  shows "packed (sensor c) = raw (reading_at k)"
proof -
  have "sint (packed (sensor c)) = int (50 + (k - 1))"
    using assms(1) by (simp add: packed_value sensor_at_def reading_at_def)
  moreover have "word_of_int (sint w) = w" for w :: u16 by simp
  from this [of "packed (sensor c)"] calculation
  have "packed (sensor c) = word_of_int (int (50 + (k - 1)))" by (simp only:)
  then show ?thesis by (simp add: reading_at_def)
qed

lemma sensor_next:
  assumes "length l = 8" "k < 100"
  shows "temperature_c (set_temperature_c10 (250 + int k * 5) l) = celsius (reading_at (Suc k))"
proof -
  have "(250 + int k * 5) sdiv 10 = 25 + int k div 2"
    by (simp add: signed_divide_int_def)
  moreover have "(250 + int k * 5) smod 10 \<ge> 5 \<longleftrightarrow> odd k"
    by (simp add: signed_modulo_int_def signed_divide_int_def) presburger
  moreover have "sint (word_of_int (25 + int k div 2) :: u8) = 25 + int k div 2"
    using assms(2) by (intro sint_byte) simp_all
  ultimately show ?thesis
    using assms(1) by (simp add: temperature_c_def set_temperature_c10_def reading_at_def Let_def)
qed

section \<open>One reading\<close>

text \<open>The reader has slept, and the others wait for its reading with number \<open>k\<close>.\<close>

definition devs_at :: "nat \<Rightarrow> nat \<Rightarrow> nat \<Rightarrow> devices \<Rightarrow> bool" where
  "devs_at i j k v \<longleftrightarrow> line_out (take 256 (line_bytes (log_upto i))) (uart0 v) \<and>
     link (frames_upto j) (can_bus v) \<and> sensor_at k (i2c0 v)"

definition awake :: "nat \<Rightarrow> demo \<Rightarrow> bool" where
  "awake k d \<longleftrightarrow> kern d = three RUNNING BLOCKED BLOCKED 0 (of_nat (500 * (k + 1))) 0 \<and>
     holds [] [1] (to_can d) \<and> holds [] [2] (to_uart d) \<and> devs_at k k k (devs d) \<and> periph_bus d = wired \<and>
     i2c_reader d = R_read k \<and> can_forwarder d = F_loop \<and> uart_logger d = L_loop k"

text \<open>The reading is on the CAN bus and in the queue of the logger.\<close>

definition handed :: "nat \<Rightarrow> demo \<Rightarrow> bool" where
  "handed k d \<longleftrightarrow> kern d = three RUNNING BLOCKED READY 0 (of_nat (500 * (k + 1))) 0 \<and>
     holds [] [1] (to_can d) \<and> holds [reading_at k] [] (to_uart d) \<and> devs_at k (k + 1) (k + 1) (devs d) \<and>
     periph_bus d = wired \<and> i2c_reader d = R_loop (k + 1) \<and> can_forwarder d = F_loop \<and>
     uart_logger d = L_loop k"

lemma run_step: "demo_step d = (Inr (), e) \<Longrightarrow> demo_run (Suc n) d = demo_run n e"
  by (simp add: seq_act_Inr)

lemma demo_run_append: "demo_run m d = (Inr (), e) \<Longrightarrow> demo_run (m + n) d = demo_run n e"
proof (induction m arbitrary: d)
  case (Suc m)
  obtain r c where s: "demo_step d = (r, c)" by (cases "demo_step d")
  then obtain u where "r = Inr u" using Suc.prems by (cases r) (auto simp: seq_act_def bind_act_def)
  with s Suc show ?case by (simp add: seq_act_Inr)
qed simp

lemma small_runs:
  "demo_run 3 d = demo_run (Suc (Suc (Suc 0))) d" "demo_run 4 d = demo_run (Suc (Suc (Suc (Suc 0)))) d"
  "demo_run 6 d = demo_run (Suc (Suc (Suc (Suc (Suc (Suc 0)))))) d"
  by (simp_all add: eval_nat_numeral del: demo_run.simps)

lemma reading_handed:
  assumes d: "awake k d" and k: "k < 30"
  shows "\<exists>e. demo_run 6 d = (Inr (), e) \<and> handed k e"
proof -
  let ?r = "reading_at k" and ?t = "of_nat (500 * (k + 1)) :: u32"
  note d = d [unfolded awake_def devs_at_def]
  have qc: "holds [] [1] (to_can d)" and qu: "holds [] [2] (to_uart d)" and lk: "link (frames_upto k) (can_bus (devs d))"
    using d by simp_all
  let ?l = "sensor (i2c0 (devs d))"
  have l: "length ?l = 8" "sensor_at k (i2c0 (devs d))" using d by (simp_all add: sensor_at_def)
  have "\<lparr>rtick = ?t, raw = packed ?l, celsius = temperature_c ?l\<rparr> = ?r"
    using sensor_packed [OF l(2)] l(2) k by (simp add: sensor_at_def reading_at_def)
  then obtain c where c: "read_sensor wired ?t k (devs d) = (Inr ?r, (devs d)\<lparr>i2c0 := c\<rparr>)"
    "sensor c = set_temperature_c10 (250 + int k * 5) ?l"
    using read_sensor_done [OF l(1), of ?t k] by metis
  then have c': "sensor_at (k + 1) c"
    using sensor_next [OF l(1), of k] l(1) k by (simp add: sensor_at_def set_temperature_c10_def Let_def)
  let ?v1 = "(devs d)\<lparr>i2c0 := c\<rparr>"
  let ?d1 = "d\<lparr>devs := ?v1, i2c_reader := R_can ?r k\<rparr>"
  have 1: "demo_step d = (Inr (), ?d1)"
    using d c(1) by (simp add: demo_step_def task_entry_def task_i2c_reader_def bind_act_def on_devs_def)
  obtain p where p: "queue_send 8 ?r (to_can d, kern d) = (True, p, unblock 1 (kern d))" "holds [?r] [] p"
    using send_waking [OF qc] by blast
  let ?d2 = "?d1\<lparr>kern := three READY RUNNING BLOCKED 0 ?t 1, to_can := p, i2c_reader := R_uart ?r k\<rparr>"
  have 2: "demo_step ?d1 = (Inr (), ?d2)"
    using d p by (simp add: demo_step_def task_entry_def task_i2c_reader_def three_calls)
  obtain q where q: "queue_receive 8 (p, kern ?d2) = (Some ?r, q, kern ?d2)" "holds [] [] q"
    using receive_item [OF p(2)] by blast
  let ?d3 = "?d2\<lparr>to_can := q, can_forwarder := F_send ?r\<rparr>"
  have 3: "demo_step ?d2 = (Inr (), ?d3)"
    using d q by (simp add: demo_step_def task_entry_def task_can_forwarder_def)
  obtain w where w: "forward_reading wired ?r ?v1 = (Inr (), ?v1\<lparr>can_bus := w\<rparr>)" "link (frames_upto (k + 1)) w"
    using forward_done [of "frames_upto k" ?v1 ?r] lk k by (auto simp: upto_Suc)
  let ?d4 = "?d3\<lparr>devs := ?v1\<lparr>can_bus := w\<rparr>, can_forwarder := F_loop\<rparr>"
  have 4: "demo_step ?d3 = (Inr (), ?d4)"
    using d w by (simp add: demo_step_def task_entry_def task_can_forwarder_def seq_act_def bind_act_def on_devs_def)
  obtain q' where q': "queue_receive 8 (q, kern ?d4) = (None, q', block_current (kern ?d4))" "holds [] [1] q'"
    using receive_waits [OF q(2), of "kern ?d4"] by auto
  let ?d5 = "?d4\<lparr>kern := three RUNNING BLOCKED BLOCKED 0 ?t 0, to_can := q'\<rparr>"
  have 5: "demo_step ?d4 = (Inr (), ?d5)"
    using d q' by (simp add: demo_step_def task_entry_def task_can_forwarder_def three_calls)
  obtain u where u: "queue_send 8 ?r (to_uart d, kern ?d5) = (True, u, unblock 2 (kern ?d5))" "holds [?r] [] u"
    using send_waking [OF qu] by blast
  let ?d6 = "?d5\<lparr>kern := three RUNNING BLOCKED READY 0 ?t 0, to_uart := u, i2c_reader := R_loop (k + 1)\<rparr>"
  have 6: "demo_step ?d5 = (Inr (), ?d6)"
    using d u by (simp add: demo_step_def task_entry_def task_i2c_reader_def three_calls)
  have "demo_run 6 d = (Inr (), ?d6)"
    by (simp only: small_runs run_step [OF 1] run_step [OF 2] run_step [OF 3] run_step [OF 4] run_step [OF 5]
        run_step [OF 6] demo_run.simps(1) ret_apply)
  moreover have "handed k ?d6"
    using d c' w u q' by (simp add: handed_def devs_at_def)
  ultimately show ?thesis by blast
qed

text \<open>The reader sleeps again while the logger writes its line and waits for the next reading.\<close>

lemma log_line_done:
  assumes "uart_logger d = L_write r n" "current (kern d) = 2" "periph_bus d = wired"
    and "devs_at i j k (devs d)" "r = reading_at i"
  shows "\<exists>v. demo_step d = (Inr (), if n = 10
        then d\<lparr>devs := v, kern := task_end (kern d), uart_logger := L_end\<rparr>
        else d\<lparr>devs := v, uart_logger := L_loop n\<rparr>) \<and> devs_at (i + 1) j k v"
proof -
  let ?v = "(devs d)\<lparr>uart0 := fold (\<lambda>c. uart_write_reg REG_DR (of_char c)) (log_line r) (uart0 (devs d))\<rparr>"
  have "take 256 (take 256 xs @ ys) = take 256 (xs @ ys)" for xs ys :: "u8 list"
    by (simp add: min_def)
  then have "take 256 (line_bytes (log_upto (Suc i))) =
      take 256 (take 256 (line_bytes (log_upto i)) @ line_bytes (log_line (reading_at i)))"
    by (simp only: upto_Suc line_bytes_def map_append)
  then have "devs_at (i + 1) j k ?v"
    using assms(4,5) put_string [of "take 256 (line_bytes (log_upto i))" "uart0 (devs d)" "log_line r"]
    by (simp add: devs_at_def del: take_append)
  then show ?thesis
    using assms(1-3) by (intro exI [of _ ?v])
      (simp add: demo_step_def task_entry_def task_uart_logger_def seq_act_def bind_act_def on_devs_def log_done)
qed

lemma next_reading:
  assumes d: "handed k d" and k: "k < 9"
  shows "\<exists>e. demo_run 4 d = (Inr (), e) \<and> awake (k + 1) e"
proof -
  let ?r = "reading_at k" and ?t = "of_nat (500 * (k + 1)) :: u32"
  let ?w = "of_nat (500 * (k + 2)) :: u32"
  have w: "?t + 500 = ?w" by simp
  note d = d [unfolded handed_def]
  have qu: "holds [?r] [] (to_uart d)" and dv: "devs_at k (k + 1) (k + 1) (devs d)" using d by simp_all
  let ?d1 = "d\<lparr>kern := three BLOCKED BLOCKED RUNNING ?w ?t 2, i2c_reader := R_read (k + 1)\<rparr>"
  have 1: "demo_step d = (Inr (), ?d1)"
    using d k three_delay [of ?t]
    by (simp add: demo_step_def task_entry_def task_i2c_reader_def POLL_DELAY_TICKS_def)
  obtain q where q: "queue_receive 8 (to_uart d, kern ?d1) = (Some ?r, q, kern ?d1)" "holds [] [] q"
    using receive_item [OF qu] by blast
  let ?d2 = "?d1\<lparr>to_uart := q, uart_logger := L_write ?r (k + 1)\<rparr>"
  have 2: "demo_step ?d1 = (Inr (), ?d2)"
    using d q by (simp add: demo_step_def task_entry_def task_uart_logger_def)
  obtain v where v: "demo_step ?d2 = (Inr (), ?d2\<lparr>devs := v, uart_logger := L_loop (k + 1)\<rparr>)"
      "devs_at (k + 1) (k + 1) (k + 1) v"
    using log_line_done [of ?d2 ?r "k + 1" k "k + 1" "k + 1"] d dv k by auto
  let ?d3 = "?d2\<lparr>devs := v, uart_logger := L_loop (k + 1)\<rparr>"
  obtain q' where q': "queue_receive 8 (q, kern ?d3) = (None, q', block_current (kern ?d3))" "holds [] [2] q'"
    using receive_waits [OF q(2), of "kern ?d3"] by auto
  have "unat ?w = 500 * (k + 2)" using k by (simp only: unat_of_nat) simp
  then have "0 < ?w" "?w \<noteq> 0xFFFFFFFF" using k by (auto simp: word_less_nat_alt)
  note sleep = three_sleep(1) [OF this]
  let ?d4 = "?d3\<lparr>kern := three RUNNING BLOCKED BLOCKED 0 ?w 0, to_uart := q'\<rparr>"
  have 4: "demo_step ?d3 = (Inr (), ?d4)"
    using q' sleep by (simp add: demo_step_def task_entry_def task_uart_logger_def)
  have "demo_run 4 d = (Inr (), ?d4)"
    by (simp only: small_runs run_step [OF 1] run_step [OF 2] run_step [OF v(1)] run_step [OF 4]
        demo_run.simps(1) ret_apply)
  moreover have "awake (k + 1) ?d4" using d v(2) q' by (simp add: awake_def)
  ultimately show ?thesis by blast
qed

text \<open>After the last reading the reader and the logger end, and the forwarder waits for ever.\<close>

definition finished :: "demo \<Rightarrow> bool" where
  "finished d \<longleftrightarrow> current (kern d) = INVALID_TASK \<and> tick_count (kern d) = 5000 \<and> devs_at 10 10 10 (devs d)"

lemma last_reading:
  assumes d: "handed 9 d"
  shows "\<exists>e. demo_run 3 d = (Inr (), e) \<and> finished e"
proof -
  let ?r = "reading_at 9" and ?t = "5000 :: u32"
  note d = d [unfolded handed_def]
  have qu: "holds [?r] [] (to_uart d)" and dv: "devs_at 9 10 10 (devs d)" using d by simp_all
  let ?d1 = "d\<lparr>kern := three DELETED BLOCKED RUNNING 0 ?t 2, i2c_reader := R_end\<rparr>"
  have 1: "demo_step d = (Inr (), ?d1)"
    using d three_end(1) [of ?t] by (simp add: demo_step_def task_entry_def task_i2c_reader_def)
  obtain q where q: "queue_receive 8 (to_uart d, kern ?d1) = (Some ?r, q, kern ?d1)" "holds [] [] q"
    using receive_item [OF qu] by blast
  let ?d2 = "?d1\<lparr>to_uart := q, uart_logger := L_write ?r 10\<rparr>"
  have 2: "demo_step ?d1 = (Inr (), ?d2)"
    using d q by (simp add: demo_step_def task_entry_def task_uart_logger_def)
  obtain v where v: "demo_step ?d2 = (Inr (), ?d2\<lparr>devs := v, kern := task_end (kern ?d2), uart_logger := L_end\<rparr>)"
      "devs_at 10 10 10 v"
    using log_line_done [of ?d2 ?r 10 9 10 10] d dv by auto
  have "demo_run 3 d = (Inr (), ?d2\<lparr>devs := v, kern := task_end (kern ?d2), uart_logger := L_end\<rparr>)"
    by (simp only: small_runs run_step [OF 1] run_step [OF 2] run_step [OF v(1)] demo_run.simps(1) ret_apply)
  then show ?thesis using v(2) three_end(2) [of ?t] by (simp add: finished_def)
qed

lemma run_stopped: "current (kern d) = INVALID_TASK \<Longrightarrow> demo_run n d = (Inr (), d)"
  by (induction n) (simp_all add: demo_step_def task_entry_def INVALID_TASK_def seq_act_Inr)

lemma new_link: "link [] (can_bus new_devices)"
proof -
  note new_net_ok
  then show ?thesis
    by (simp add: link_def new_devices_def can_create_def can_attach_def empty_net_def MAX_NODES_def
        new_can_def rx_frames_def ring_empty_list)
qed

text \<open>The three steps until the first reading, and the whole run.\<close>

lemma started:
  "\<exists>d. seq_act set_up (update (\<lambda>d. d\<lparr>kern := vTaskStartScheduler (kern d)\<rparr>)) globals = (Inr (), d) \<and>
     kern d = three READY RUNNING READY 0 0 1 \<and> holds [] [] (to_can d) \<and> holds [] [] (to_uart d) \<and>
     devs_at 0 0 0 (devs d) \<and> periph_bus d = wired \<and> i2c_reader d = R_loop 0 \<and>
     can_forwarder d = F_loop \<and> uart_logger d = L_loop 0"
proof -
  let ?u = "uart_write_reg REG_CR CR_ENABLE new_uart"
  have cr: "periph_write wired (UART0_BASE + REG_CR) CR_ENABLE new_devices = (Inr (), new_devices\<lparr>uart0 := ?u\<rparr>)"
    using reach_uart [of REG_CR CR_ENABLE new_devices] by (simp add: REG_CR_def new_devices_def)
  have "line_out [] ?u"
    using new_uart_ok
    by (simp add: line_out_def uart_write_reg_def uart_regs CR_ENABLE_def new_uart_def uart_ok_def
        tx_bytes_def ring_empty_list)
  from put_string [OF this, of banner]
  have b: "line_out (take 256 (line_bytes (log_upto 0))) (fold (\<lambda>c. uart_write_reg REG_DR (of_char c)) banner ?u)"
    by (simp add: log_upto_def)
  have s: "sensor_at 0 (i2c0 new_devices)"
    using signed_byte [of "0x19"]
    by (simp add: sensor_at_def new_devices_def new_i2c_def new_lm75_def lm75_regs temperature_c_def reading_at_def)
  have "seq_act set_up (update (\<lambda>d. d\<lparr>kern := vTaskStartScheduler (kern d)\<rparr>)) globals =
    (Inr (), globals\<lparr>kern := three READY RUNNING READY 0 0 1, periph_bus := wired, devs :=
       new_devices\<lparr>uart0 := fold (\<lambda>c. uart_write_reg REG_DR (of_char c)) banner ?u\<rparr>\<rparr>)"
    by (simp add: set_up_def globals_def wire_up_all on_devs_def cr seq_act_def bind_act_def three_create
        three_start new_devices_def [THEN arg_cong, of uart0])
  then show ?thesis
    using b new_link s by (simp add: globals_def new_holds devs_at_def frames_upto_def)
qed

lemma first_reading:
  assumes "kern d = three READY RUNNING READY 0 0 1" "holds [] [] (to_can d)" "holds [] [] (to_uart d)"
    "devs_at 0 0 0 (devs d)" "periph_bus d = wired" "i2c_reader d = R_loop 0" "can_forwarder d = F_loop"
    "uart_logger d = L_loop 0"
  shows "\<exists>e. demo_run 3 d = (Inr (), e) \<and> awake 0 e"
proof -
  obtain p where p: "queue_receive 8 (to_can d, kern d) = (None, p, block_current (kern d))" "holds [] [1] p"
    using receive_waits [OF assms(2), of "kern d"] assms(1) by auto
  let ?d1 = "d\<lparr>kern := three READY BLOCKED RUNNING 0 0 2, to_can := p\<rparr>"
  have 1: "demo_step d = (Inr (), ?d1)"
    using assms p by (simp add: demo_step_def task_entry_def task_can_forwarder_def three_calls)
  obtain q where q: "queue_receive 8 (to_uart d, kern ?d1) = (None, q, block_current (kern ?d1))" "holds [] [2] q"
    using receive_waits [OF assms(3), of "kern ?d1"] by auto
  let ?d2 = "?d1\<lparr>kern := three RUNNING BLOCKED BLOCKED 0 0 0, to_uart := q\<rparr>"
  have 2: "demo_step ?d1 = (Inr (), ?d2)"
    using assms q by (simp add: demo_step_def task_entry_def task_uart_logger_def three_calls)
  let ?d3 = "?d2\<lparr>kern := three RUNNING BLOCKED BLOCKED 0 500 0, i2c_reader := R_read 0\<rparr>"
  have 3: "demo_step ?d2 = (Inr (), ?d3)"
    using assms three_sleep(2) [of 500 0]
    by (simp add: demo_step_def task_entry_def task_i2c_reader_def POLL_DELAY_TICKS_def)
  have "demo_run 3 d = (Inr (), ?d3)"
    by (simp only: small_runs run_step [OF 1] run_step [OF 2] run_step [OF 3] demo_run.simps(1) ret_apply)
  moreover have "awake 0 ?d3" using assms p q by (simp add: awake_def)
  ultimately show ?thesis by blast
qed

lemma all_readings: "awake 0 d \<Longrightarrow> k \<le> 9 \<Longrightarrow> \<exists>e. demo_run (10 * k) d = (Inr (), e) \<and> awake k e"
proof (induction k)
  case 0
  then show ?case by simp
next
  case (Suc k)
  then obtain e where e: "demo_run (10 * k) d = (Inr (), e)" "awake k e" by auto
  obtain f where f: "demo_run 6 e = (Inr (), f)" "handed k f" using reading_handed [OF e(2)] Suc.prems(2) by auto
  obtain g where g: "demo_run 4 f = (Inr (), g)" "awake (k + 1) g" using next_reading [OF f(2)] Suc.prems(2) by auto
  have "demo_run (10 * k + (6 + 4)) d = (Inr (), g)"
    using demo_run_append [OF e(1), of "6 + 4"] demo_run_append [OF f(1), of 4] g(1) by (simp only:)
  moreover have "10 * Suc k = 10 * k + (6 + 4)" by simp
  ultimately show ?case using g(2) by (metis Suc_eq_plus1)
qed

lemma whole_run:
  assumes "102 \<le> n"
  shows "\<exists>d. seq_act set_up (seq_act (update (\<lambda>d. d\<lparr>kern := vTaskStartScheduler (kern d)\<rparr>)) (demo_run n)) globals =
    (Inr (), d) \<and> finished d"
proof -
  obtain a where a: "seq_act set_up (update (\<lambda>d. d\<lparr>kern := vTaskStartScheduler (kern d)\<rparr>)) globals = (Inr (), a)"
    and a': "kern a = three READY RUNNING READY 0 0 1" "holds [] [] (to_can a)" "holds [] [] (to_uart a)"
      "devs_at 0 0 0 (devs a)" "periph_bus a = wired" "i2c_reader a = R_loop 0" "can_forwarder a = F_loop"
      "uart_logger a = L_loop 0"
    using started by blast
  obtain b where b: "demo_run 3 a = (Inr (), b)" "awake 0 b" using first_reading [OF a'] by blast
  obtain c where c: "demo_run (10 * 9) b = (Inr (), c)" "awake 9 c" using all_readings [OF b(2)] by blast
  obtain d where d: "demo_run 6 c = (Inr (), d)" "handed 9 d" using reading_handed [OF c(2)] by auto
  obtain e where e: "demo_run 3 d = (Inr (), e)" "finished e" using last_reading [OF d(2)] by blast
  have s: "demo_run (n - 102) e = (Inr (), e)" using e(2) by (simp add: run_stopped finished_def)
  have "n = 3 + (10 * 9 + (6 + (3 + (n - 102))))" using assms by simp
  then have "demo_run n a = (Inr (), e)"
    using demo_run_append [OF b(1)] demo_run_append [OF c(1)] demo_run_append [OF d(1)] demo_run_append [OF e(1)] s by metis
  moreover obtain u where "set_up globals = (Inr (), u)"
    "a = u\<lparr>kern := vTaskStartScheduler (kern u)\<rparr>"
    using a by (auto simp: seq_act_def bind_act_def split: prod.splits sum.splits)
  ultimately show ?thesis using e(2) by (simp add: seq_act_Inr)
qed

section \<open>What is printed\<close>

lemma to_string_digits:
  "10 \<le> n \<Longrightarrow> n < 100 \<Longrightarrow> length (to_string n) = 2"
  "100 \<le> n \<Longrightarrow> n < 1000 \<Longrightarrow> length (to_string n) = 3"
  "1000 \<le> n \<Longrightarrow> n < 10000 \<Longrightarrow> length (to_string n) = 4"
proof -
  have d: "length (to_string n) = 1" if "n < 10" for n using that by (subst to_string.simps) simp
  have s: "length (to_string n) = Suc (length (to_string (n div 10)))" if "10 \<le> n" for n
    using that by (subst to_string.simps) simp
  have 2: "length (to_string n) = 2" if "10 \<le> n" "n < 100" for n using s [of n] d [of "n div 10"] that by simp
  have 3: "length (to_string n) = 3" if "100 \<le> n" "n < 1000" for n using s [of n] 2 [of "n div 10"] that by simp
  show "length (to_string n) = 4" if "1000 \<le> n" "n < 10000" using s [of n] 3 [of "n div 10"] that by simp
  show "10 \<le> n \<Longrightarrow> n < 100 \<Longrightarrow> length (to_string n) = 2" "100 \<le> n \<Longrightarrow> n < 1000 \<Longrightarrow> length (to_string n) = 3"
    by (rule 2; assumption) (rule 3; assumption)
qed

lemma to_string_no_nul: "CHR 0x00 \<notin> set (to_string n)"
proof (induction n rule: to_string.induct)
  case (1 n)
  have "CHR 0x00 \<noteq> char_of (48 + d)" if "d < 10" for d :: nat
  proof
    assume "CHR 0x00 = char_of (48 + d)"
    then have "of_char (char_of (48 + d) :: char) = (of_char (CHR 0x00) :: nat)" by simp
    then show False using that by simp
  qed
  then show ?case using 1 by (subst to_string.simps) simp
qed

text \<open>The two formats of a temperature agree from zero on.\<close>

lemma formats_agree: "0 \<le> t \<Longrightarrow> t < 1000 \<Longrightarrow> fmt_temp t = half_string t"
proof -
  assume t: "0 \<le> t" "t < 1000"
  define m where "m = t div 2"
  have m: "0 \<le> m" "m < 500" "t = 2 * m \<or> t = 2 * m + 1" using t by (auto simp: m_def)
  have q: "t sdiv 2 = m" using t by (cases "t = 0") (simp_all add: signed_divide_int_def sgn_if m_def)
  have l: "length (to_string (nat m)) \<le> 3"
    using m by (cases "nat m < 10"; cases "nat m < 100") (simp_all add: to_string.simps to_string_digits not_less)
  have d: "to_string 5 = ''5''" "to_string 0 = ''0''" by (simp_all add: to_string.simps char_of_def bit_0)
  from m(3) show ?thesis
  proof
    assume "t = 2 * m"
    then show ?thesis using m l d q by (simp add: fmt_temp_def half_string_def int_string_def BUF_SIZE_def)
  next
    assume "t = 2 * m + 1"
    then show ?thesis using m l d q by (simp add: fmt_temp_def half_string_def int_string_def BUF_SIZE_def)
  qed
qed

text \<open>The text of a line for reading \<open>k\<close> on the UART, and on the screen for a received frame.\<close>

definition uart_text :: "nat \<Rightarrow> string" where
  "uart_text k = ''[UART] tick='' @ to_string (500 * (k + 1)) @ '' temp='' @ half_string (50 + int (k - 1)) @
     ''C'' @ [CHR 0x0A]"

definition can_text :: "nat \<Rightarrow> string" where
  "can_text k = ''  CAN ID=0x1B0 DLC=4 tick='' @ to_string (500 * (k + 1)) @ '' temp='' @
     half_string (50 + int (k - 1)) @ '' C'' @ [CHR 0x0A]"

lemma reading_texts:
  assumes "k < 10"
  shows "log_line (reading_at k) = uart_text k" "frame_line (frame_of (reading_at k)) = can_text k"
proof -
  have t: "unat (of_nat (500 * (k + 1)) :: u32) = 500 * (k + 1)" using assms by (simp only: unat_of_nat) simp
  have u: "unat (ucast (of_nat (500 * (k + 1)) :: u32) :: u16) = 500 * (k + 1)"
    using assms by (simp only: unsigned_ucast_eq t) (intro take_bit_nat_eq_self, simp)
  have r: "sint (of_nat (50 + (k - 1)) :: u16) = 50 + int (k - 1)"
    using assms by (simp only: signed_of_nat) (simp add: signed_take_bit_int_eq_self)
  show "log_line (reading_at k) = uart_text k"
    using assms t by (simp add: log_line_def uart_text_def reading_at_def formats_agree)
  show "frame_line (frame_of (reading_at k)) = can_text k"
    using u r by (simp add: frame_line_of can_text_def reading_at_def)
qed

text \<open>The banner and the first eight lines fill the transmit FIFO of the UART exactly.\<close>

lemma uart_lengths: "k < 10 \<Longrightarrow> length (uart_text k) = (if k = 0 then 27 else 28)"
proof -
  assume k: "k < 10"
  have "length (to_string (500 * (k + 1))) = (if k = 0 then 3 else 4)"
    using k by (cases "k = 0") (simp_all add: to_string_digits)
  moreover have "length (half_string (50 + int (k - 1))) = 4"
    using k by (simp add: half_string_def to_string_digits)
  ultimately show ?thesis by (simp add: uart_text_def)
qed

lemma half_string_no_nul: "CHR 0x00 \<notin> set (half_string h)"
  using to_string_no_nul by (simp add: half_string_def)

lemma log_cut:
  "take 256 (line_bytes (log_upto 10)) = line_bytes (banner @ concat (map uart_text [0 ..< 8]))"
proof -
  have m: "map (\<lambda>i. log_line (reading_at i)) [0 ..< 10] = map uart_text [0 ..< 8] @ [uart_text 8, uart_text 9]"
  proof -
    have "map (\<lambda>i. log_line (reading_at i)) [0 ..< 10] = map uart_text [0 ..< 10]"
      by (rule map_cong) (simp_all add: reading_texts)
    moreover have "[0 ..< 10] = [0 ..< 8] @ [8, 9 :: nat]" by (simp add: upt_rec eval_nat_numeral)
    ultimately show ?thesis by (simp only: map_append list.map)
  qed
  have "length (banner @ concat (map uart_text [0 ..< 8])) = 256"
    by (simp add: upt_rec uart_lengths banner_def)
  then show ?thesis
    by (simp only: log_upto_def m line_bytes_def map_append concat_append append_assoc [symmetric])
      (simp only: take_append, simp)
qed

lemma program_prints:
  "demo_main (102 + n) = Some (Inr (banner @ concat (map uart_text [0 ..< 8]) @ [CHR 0x0A] @
     ''--- CAN1 received 10 frame(s) ---'' @ [CHR 0x0A] @ concat (map can_text [0 ..< 10])))"
proof -
  let ?s = "banner @ concat (map uart_text [0 ..< 8])"
  obtain d where r: "seq_act set_up (seq_act (update (\<lambda>d. d\<lparr>kern := vTaskStartScheduler (kern d)\<rparr>))
      (demo_run (102 + n))) globals = (Inr (), d)" and f: "finished d"
    using whole_run [of "102 + n"] by auto
  have l: "line_out (line_bytes ?s) (uart0 (devs d))" "link (frames_upto 10) (can_bus (devs d))"
    using f by (simp_all add: finished_def devs_at_def log_cut)
  have "CHR 0x00 \<notin> set (uart_text k)" for k
    using to_string_no_nul half_string_no_nul by (simp add: uart_text_def)
  then have "CHR 0x00 \<notin> set ?s" by (simp add: banner_def)
  note u = printed [OF this l(1)]
  have c: "count (rx_buf (can_of (can_bus (devs d)) 1)) = 10"
    using l(2) by (simp add: link_def rx_count upto_Suc)
  have m: "map frame_line (frames_upto 10) = map can_text [0 ..< 10]"
    by (simp add: frames_upto_def reading_texts)
  have t: "to_string 10 = ''10''" by (simp add: to_string.simps char_of_def bit_0)
  have "results_of d = ?s @ [CHR 0x0A] @ ''--- CAN1 received '' @ to_string 10 @ '' frame(s) ---'' @
      [CHR 0x0A] @ concat (map can_text [0 ..< 10])"
    unfolding results_of_def u c dump_link [OF l(2)] m ..
  then show ?thesis using f by (simp add: demo_main_def r finished_def t)
qed

section \<open>Properties\<close>

text \<open>C6. The demo program, with all that it runs on (kernel, queues, peripheral bus, UART, I2C and
  CAN), stops, and what it prints is: the banner and the lines of the first eight readings from
  the UART, and for CAN1 all ten readings in order, with their ticks 500, 1000, ..., 5000 and the
  temperatures of the sensor. The lines of the last two readings are lost, since nobody empties
  the transmit FIFO of the UART, which is full with the eighth. 102 steps of the tasks are enough.\<close>

theorem sensor_demo_prints:
  "demo_main (102 + n) = Some (Inr (banner @
     concat (map (\<lambda>k. ''[UART] tick='' @ to_string (500 * (k + 1)) @ '' temp='' @
       half_string (50 + int (k - 1)) @ ''C'' @ [CHR 0x0A]) [0 ..< 8]) @ [CHR 0x0A] @
     ''--- CAN1 received 10 frame(s) ---'' @ [CHR 0x0A] @
     concat (map (\<lambda>k. ''  CAN ID=0x1B0 DLC=4 tick='' @ to_string (500 * (k + 1)) @ '' temp='' @
       half_string (50 + int (k - 1)) @ '' C'' @ [CHR 0x0A]) [0 ..< 10])))"
  using program_prints [of n] by (simp only: uart_text_def [abs_def] can_text_def [abs_def])

text \<open>C18. From the sensor to the other end of the CAN bus: one turn of the reader takes the temperature
  that the sensor holds, and the frame that the forwarder sends for it is received last by CAN1,
  where it is shown with the low 16 bits of its tick and with this temperature, when it is not
  below zero. A temperature below zero is shown 256 degrees too high.\<close>

theorem reading_crosses_can:
  assumes "length (sensor (i2c0 d)) = 8" "link fs (can_bus d)" "length fs < 32"
  shows "\<exists>r e f w. read_sensor wired now k d = (Inr r, e) \<and>
    rtick r = now \<and> celsius r = temperature_c (sensor (i2c0 d)) \<and>
    forward_reading wired r e = (Inr (), w) \<and> rx_frames (can_of (can_bus w) 1) = fs @ [f] \<and>
    frame_line f = ''  CAN ID=0x1B0 DLC=4 tick='' @ to_string (unat now mod 65536) @ '' temp='' @
      half_string (celsius r + (if celsius r < 0 then 512 else 0)) @ '' C'' @ [CHR 0x0A]"
proof -
  let ?r = "\<lparr>rtick = now, raw = packed (sensor (i2c0 d)), celsius = temperature_c (sensor (i2c0 d))\<rparr>"
  obtain c where c: "read_sensor wired now k d = (Inr ?r, d\<lparr>i2c0 := c\<rparr>)"
    using read_sensor_done [OF assms(1)] by blast
  obtain w where w: "forward_reading wired ?r (d\<lparr>i2c0 := c\<rparr>) = (Inr (), d\<lparr>i2c0 := c, can_bus := w\<rparr>)"
    "link (fs @ [frame_of ?r]) w"
    using forward_done [of fs "d\<lparr>i2c0 := c\<rparr>" ?r] assms(2,3) by auto
  have "unat (ucast now :: u16) = unat now mod 65536"
    by (simp only: unsigned_ucast_eq take_bit_eq_mod) simp
  then have "frame_line (frame_of ?r) = ''  CAN ID=0x1B0 DLC=4 tick='' @ to_string (unat now mod 65536) @
      '' temp='' @ half_string (celsius ?r + (if celsius ?r < 0 then 512 else 0)) @ '' C'' @ [CHR 0x0A]"
    by (simp add: frame_line_of packed_value)
  with c w show ?thesis by (auto simp: link_def intro!: exI [of _ ?r])
qed

theorem reading_crosses_can_witness:
  "\<exists>f w. rx_frames (can_of (can_bus (w :: devices)) 1) = [f] \<and>
     frame_line f = ''  CAN ID=0x1B0 DLC=4 tick=500 temp=231.0 C'' @ [CHR 0x0A]"
proof -
  let ?d = "new_devices\<lparr>i2c0 := new_i2c\<lparr>sensor := [0xE7, 0, 0, 0, 0, 0, 0, 0]\<rparr>\<rparr>"
  have s: "temperature_c (sensor (i2c0 ?d)) = - 50"
    using signed_byte [of "0xE7"] by (simp add: temperature_c_def)
  have l: "length (sensor (i2c0 ?d)) = 8" "link [] (can_bus ?d)" "length [] < (32 :: nat)"
    using new_link by simp_all
  have "to_string 500 = ''500''" "to_string 231 = ''231''"
    by (simp_all add: to_string.simps char_of_def bit_0)
  moreover obtain r e f w where
    "forward_reading wired r e = (Inr (), w)"
    "celsius r = temperature_c (sensor (i2c0 ?d))" "rx_frames (can_of (can_bus w) 1) = [] @ [f]"
    "frame_line f = ''  CAN ID=0x1B0 DLC=4 tick='' @ to_string (unat (500 :: u32) mod 65536) @ '' temp='' @
       half_string (celsius r + (if celsius r < 0 then 512 else 0)) @ '' C'' @ [CHR 0x0A]"
    using reading_crosses_can [OF l, of 500 0] by blast
  ultimately have "rx_frames (can_of (can_bus w) 1) = [f] \<and>
      frame_line f = ''  CAN ID=0x1B0 DLC=4 tick=500 temp=231.0 C'' @ [CHR 0x0A]"
    using s by (simp add: half_string_def)
  then show ?thesis by blast
qed

text \<open>The format of the UART log drops the sign of minus one half.\<close>

theorem minus_half_degree: "fmt_temp (- 1) = ''0.5'' \<and> half_string (- 1) = ''-0.5''"
proof -
  have "to_string 0 = ''0''" "to_string 5 = ''5''" by (simp_all add: to_string.simps char_of_def bit_0)
  moreover have "(- 1 :: int) sdiv 2 = 0" by (simp add: signed_divide_int_def)
  ultimately show ?thesis by (simp add: fmt_temp_def half_string_def int_string_def BUF_SIZE_def)
qed

end
