(* ===== verification/Blinky.thy ===== *)
theory Blinky
  imports Messages Semaphore Event_Group Queue
begin

text \<open>
  The RTOS demo of src/demo/blinky.cpp: a producer and a consumer that hand items over in a queue,
  and a watchdog that looks at the bits both set in an event group. As in the sensor pipeline a
  task is a program counter and a step goes from one kernel call to the next. What is written to
  \<open>std::cout\<close> and \<open>std::cerr\<close> is kept in two strings.
\<close>

section \<open>The program\<close>

definition BIT_PRODUCED :: u32 where "BIT_PRODUCED = 0x01"
definition BIT_CONSUMED :: u32 where "BIT_CONSUMED = 0x02"
definition TOTAL_ITEMS :: int where "TOTAL_ITEMS = 10"
definition TIMEOUT :: u32 where "TIMEOUT = 500"
definition INTERVAL :: u32 where "INTERVAL = 100"

lemmas blinky_constants = BIT_PRODUCED_def BIT_CONSUMED_def TOTAL_ITEMS_def TIMEOUT_def INTERVAL_def

text \<open>
  The arguments are the loop counter, the item in hand and the value of the local \<open>before\<close>. \<open>P_check\<close> and
  \<open>C_check\<close> are inside \<open>set_bits\<close>, which was interrupted at a waiter; in \<open>P_wild\<close> and \<open>C_wild\<close> it
  has left its array.
\<close>

datatype producer_pc = P_loop int | P_bits int | P_check nat int | P_print int | P_done | P_end | P_wild

datatype consumer_pc = C_loop int | C_bits int int | C_check nat int int | C_print int int | C_end | C_wild

datatype watchdog_pc = W_loop | W_check u32 | W_end

record blinky =
  krn :: sched
  item_queue :: "int queue"
  done_sem :: semaphore
  liveness :: event_group
  g_produced :: int
  g_consumed :: int
  out :: string
  err :: string
  producer :: producer_pc
  consumer :: consumer_pc
  watchdog :: watchdog_pc

text \<open>\<open>"[" << std::setw(4) << tick << "ms] PROD item=" << i\<close>\<close>

definition stamp :: "u32 \<Rightarrow> string" where
  "stamp t = ''['' @ setw 4 CHR '' '' (to_string (unat t)) @ ''ms] ''"

definition after_bits :: "(nat \<Rightarrow> 'pc) \<Rightarrow> 'pc \<Rightarrow> 'pc \<Rightarrow> check_result \<Rightarrow> 'pc" where
  "after_bits again next wild r = (case r of Finished \<Rightarrow> next | Paused i \<Rightarrow> again i | OutOfBounds \<Rightarrow> wild)"

definition producer_task :: "blinky \<Rightarrow> blinky" where
  "producer_task d =
     (case producer d of
        P_loop i \<Rightarrow>
          if i < TOTAL_ITEMS then
            (let (ok, q, k) = queue_send 8 i (item_queue d, krn d)
             in d\<lparr>krn := k, item_queue := q, producer := if ok then P_bits i else P_loop i\<rparr>)
          else (let (m, k) = sem_give (done_sem d, krn d) in d\<lparr>krn := k, done_sem := m, producer := P_done\<rparr>)
      | P_bits i \<Rightarrow>
          (let (r, g, k) = set_bits BIT_PRODUCED (liveness d, krn d)
           in d\<lparr>krn := k, liveness := g, g_produced := g_produced d + 1,
                producer := after_bits (\<lambda>j. P_check j i) (P_print i) P_wild r\<rparr>)
      | P_check j i \<Rightarrow>
          (let (r, g, k) = check_resume j (liveness d, krn d)
           in d\<lparr>krn := k, liveness := g, producer := after_bits (\<lambda>j. P_check j i) (P_print i) P_wild r\<rparr>)
      | P_print i \<Rightarrow>
          d\<lparr>krn := vTaskDelay 10 (krn d),
            out := out d @ stamp (tick_count (krn d)) @ ''PROD item='' @ int_string i @ [CHR 0x0A],
            producer := P_loop (i + 1)\<rparr>
      | P_done \<Rightarrow> d\<lparr>krn := task_end (krn d), producer := P_end\<rparr>
      | P_end \<Rightarrow> d
      | P_wild \<Rightarrow> d)"

definition consumer_task :: "blinky \<Rightarrow> blinky" where
  "consumer_task d =
     (case consumer d of
        C_loop i \<Rightarrow>
          if i < TOTAL_ITEMS then
            (let (x, q, k) = queue_receive 8 (item_queue d, krn d)
             in d\<lparr>krn := k, item_queue := q,
                  consumer := case x of None \<Rightarrow> C_loop i | Some item \<Rightarrow> C_bits item i\<rparr>)
          else d\<lparr>krn := task_end (krn d), consumer := C_end\<rparr>
      | C_bits item i \<Rightarrow>
          (let (r, g, k) = set_bits BIT_CONSUMED (liveness d, krn d)
           in d\<lparr>krn := k, liveness := g, g_consumed := g_consumed d + 1,
                consumer := after_bits (\<lambda>j. C_check j item i) (C_print item i) C_wild r\<rparr>)
      | C_check j item i \<Rightarrow>
          (let (r, g, k) = check_resume j (liveness d, krn d)
           in d\<lparr>krn := k, liveness := g, consumer := after_bits (\<lambda>j. C_check j item i) (C_print item i) C_wild r\<rparr>)
      | C_print item i \<Rightarrow>
          d\<lparr>krn := vTaskDelay 5 (krn d),
            out := out d @ stamp (tick_count (krn d)) @ ''CONS item='' @ int_string item @ [CHR 0x0A],
            consumer := C_loop (i + 1)\<rparr>
      | C_end \<Rightarrow> d
      | C_wild \<Rightarrow> d)"

definition watchdog_task :: "blinky \<Rightarrow> blinky" where
  "watchdog_task d =
     (case watchdog d of
        W_loop \<Rightarrow>
          if g_produced d < TOTAL_ITEMS \<or> g_consumed d < TOTAL_ITEMS then
            d\<lparr>krn := vTaskDelay INTERVAL (krn d), watchdog := W_check (tick_count (krn d))\<rparr>
          else d\<lparr>krn := task_end (krn d), out := out d @ ''[WATCHDOG] All tasks healthy -- done.'' @ [CHR 0x0A],
                 watchdog := W_end\<rparr>
      | W_check start \<Rightarrow>
          (let after = tick_count (krn d);
               ok = check_bits (BIT_PRODUCED OR BIT_CONSUMED) False (liveness d)
           in if \<not> ok \<and> after - start \<ge> TIMEOUT then
                d\<lparr>krn := task_end (krn d),
                  err := err d @ ''[WATCHDOG] No activity for '' @ to_string (unat TIMEOUT) @
                    '' ms -- system stuck!'' @ [CHR 0x0A],
                  watchdog := W_end\<rparr>
              else d\<lparr>liveness := clear_bits (BIT_PRODUCED OR BIT_CONSUMED) (liveness d), watchdog := W_loop\<rparr>)
      | W_end \<Rightarrow> d)"

definition blinky_step :: "blinky \<Rightarrow> blinky" where
  "blinky_step d =
     (if current (krn d) = 0 then watchdog_task d
      else if current (krn d) = 1 then producer_task d
      else if current (krn d) = 2 then consumer_task d
      else d)"

definition blinky_start :: blinky where
  "blinky_start =
     \<lparr>krn = vTaskStartScheduler (snd (xTaskCreate 1 (snd (xTaskCreate 1 (snd (xTaskCreate 0 new_sched)))))),
      item_queue = new_queue 8 0, done_sem = new_semaphore 0 0x7FFFFFFF, liveness = new_group,
      g_produced = 0, g_consumed = 0,
      out = ''=== MCU Simulator RTOS Demo ==='' @ [CHR 0x0A, CHR 0x0A], err = '''',
      producer = P_loop 0, consumer = C_loop 0, watchdog = W_loop\<rparr>"

text \<open>\<open>main\<close>, with at most \<open>fuel\<close> steps of the tasks: the text on the two streams, and the exit code.\<close>

definition blinky_main :: "nat \<Rightarrow> (string \<times> string \<times> int) option" where
  "blinky_main fuel =
     (let d = (blinky_step ^^ fuel) blinky_start in
      if current (krn d) = INVALID_TASK then
        Some (out d @ [CHR 0x0A] @ ''=== Results ==='' @ [CHR 0x0A] @
          ''  Items produced : '' @ int_string (g_produced d) @ '' / '' @ int_string TOTAL_ITEMS @ [CHR 0x0A] @
          ''  Items consumed : '' @ int_string (g_consumed d) @ '' / '' @ int_string TOTAL_ITEMS @ [CHR 0x0A] @
          ''  Sim time       : '' @ to_string (unat (tick_count (krn d))) @ '' ms'' @ [CHR 0x0A],
          err d,
          if g_produced d = TOTAL_ITEMS \<and> g_consumed d = TOTAL_ITEMS then 0 else 1)
      else None)"

section \<open>The kernel with three tasks\<close>

definition trio :: "task_state \<Rightarrow> u32 \<Rightarrow> task_state \<Rightarrow> u32 \<Rightarrow> task_state \<Rightarrow> u32 \<Rightarrow> nat \<Rightarrow> sched" where
  "trio a wa b wb c t cur =
     \<lparr>tasks = [\<lparr>priority = 0, state = a, resume_tick = wa\<rparr>, \<lparr>priority = 1, state = b, resume_tick = wb\<rparr>,
               \<lparr>priority = 1, state = c, resume_tick = 0\<rparr>], tick_count = t, current = cur\<rparr>"

lemma trio_simps [simp]:
  "current (trio a wa b wb c t cur) = cur" "tick_count (trio a wa b wb c t cur) = t"
  by (simp_all add: trio_def)

lemmas trio_evals = trio_def schedule_from.simps schedule_after_delete.simps select_next_def best_prio_def
  set_state_def INVALID_TASK_def earliest_def wake_due_def sleeping_def upt_rec

lemma trio_start:
  "vTaskStartScheduler (snd (xTaskCreate 1 (snd (xTaskCreate 1 (snd (xTaskCreate 0 new_sched)))))) =
   trio RUNNING 0 READY 0 READY 0 0"
  by (simp add: xTaskCreate_def new_sched_def MAX_TASKS_def vTaskStartScheduler_def trio_evals Let_def)

lemma trio_calls:
  "vTaskDelay 100 (trio RUNNING 0 READY 0 READY 0 0) = trio BLOCKED 100 RUNNING 0 READY 0 1"
  "unblock 2 (trio BLOCKED 100 RUNNING 0 BLOCKED t (Suc 0)) = trio BLOCKED 100 RUNNING 0 READY t 1"
  "0 < t + 10 \<Longrightarrow>
   vTaskDelay 10 (trio BLOCKED 100 RUNNING 0 READY t (Suc 0)) = trio BLOCKED 100 BLOCKED (t + 10) RUNNING t 2"
  by (simp_all add: vTaskDelay_def unblock_def trio_evals Let_def)

text \<open>Nobody is ready: the consumer sleeps for 5 ticks, or waits while the producer sleeps.\<close>

lemma trio_sleeps:
  assumes "0 < t + 5" "t + 5 < t + 10" "t + 10 \<le> 100"
  shows "vTaskDelay 5 (trio BLOCKED 100 BLOCKED (t + 10) RUNNING t 2) = trio BLOCKED 100 BLOCKED (t + 10) RUNNING (t + 5) 2"
    and "t + 10 \<noteq> 100 \<Longrightarrow>
      block_current (trio BLOCKED 100 BLOCKED (t + 10) RUNNING (t + 5) 2) = trio BLOCKED 100 RUNNING 0 BLOCKED (t + 10) 1"
proof -
  have "t + 5 \<le> t + 10" "t + 5 < 100" "0 < t + 10" "\<not> t + 10 \<le> t + 5" "\<not> 100 \<le> t + 5" "t + 10 \<noteq> 0xFFFFFFFF"
    "t + 5 \<noteq> 0xFFFFFFFF"
    using assms by auto
  moreover from this have "min 100 (t + 10) = t + 10" "min (t + 10) (t + 5) = t + 5"
    using assms by (simp_all add: min_def)
  ultimately show
    "vTaskDelay 5 (trio BLOCKED 100 BLOCKED (t + 10) RUNNING t 2) = trio BLOCKED 100 BLOCKED (t + 10) RUNNING (t + 5) 2"
    "t + 10 \<noteq> 100 \<Longrightarrow>
      block_current (trio BLOCKED 100 BLOCKED (t + 10) RUNNING (t + 5) 2) = trio BLOCKED 100 RUNNING 0 BLOCKED (t + 10) 1"
    using assms by (simp_all add: vTaskDelay_def block_current_def trio_evals Let_def)
qed

lemma trio_ends:
  "task_end (trio BLOCKED 100 BLOCKED 100 RUNNING 95 2) = trio RUNNING 0 READY 0 DELETED 100 0"
  "task_end (trio RUNNING 0 READY 0 DELETED 100 0) = trio DELETED 0 RUNNING 0 DELETED 100 1"
  "task_end (trio DELETED 0 RUNNING 0 DELETED 100 (Suc 0)) = trio DELETED 0 DELETED 0 DELETED 100 INVALID_TASK"
  by (simp_all add: task_end_def trio_evals Let_def)

section \<open>One item\<close>

definition item_text :: "nat \<Rightarrow> string" where
  "item_text i = stamp (of_nat (10 * i)) @ ''PROD item='' @ int_string (int i) @ [CHR 0x0A] @
     stamp (of_nat (10 * i)) @ ''CONS item='' @ int_string (int i) @ [CHR 0x0A]"

definition text_upto :: "nat \<Rightarrow> string" where
  "text_upto i = ''=== MCU Simulator RTOS Demo ==='' @ [CHR 0x0A, CHR 0x0A] @ concat (map item_text [0 ..< i])"

text \<open>What both states below have in common, after \<open>i\<close> items.\<close>

definition running_demo :: "nat \<Rightarrow> blinky \<Rightarrow> bool" where
  "running_demo i d \<longleftrightarrow> wcount (liveness d) = 0 \<and> g_produced d = int i \<and> g_consumed d = int i \<and>
     out d = text_upto i \<and> err d = [] \<and> watchdog d = W_check 0 \<and> done_sem d = new_semaphore 0 0x7FFFFFFF"

text \<open>Item \<open>i\<close> is in the queue; and it has been consumed.\<close>

definition offered :: "nat \<Rightarrow> blinky \<Rightarrow> bool" where
  "offered i d \<longleftrightarrow> running_demo i d \<and> krn d = trio BLOCKED 100 RUNNING 0 READY (of_nat (10 * i)) 1 \<and>
     holds [int i] [] (item_queue d) \<and> producer d = P_bits (int i) \<and> consumer d = C_loop (int i)"

definition delivered :: "nat \<Rightarrow> blinky \<Rightarrow> bool" where
  "delivered i d \<longleftrightarrow> running_demo (i + 1) d \<and>
     krn d = trio BLOCKED 100 BLOCKED (of_nat (10 * i) + 10) RUNNING (of_nat (10 * i) + 5) 2 \<and>
     holds [] [] (item_queue d) \<and> producer d = P_loop (int i + 1) \<and> consumer d = C_loop (int i + 1)"

lemma steps_on: "blinky_step d = e \<Longrightarrow> (blinky_step ^^ Suc n) d = (blinky_step ^^ n) e"
  by (simp add: funpow_swap1)

lemma small_steps:
  "(blinky_step ^^ 2) d = (blinky_step ^^ Suc (Suc 0)) d"
  "(blinky_step ^^ 5) d = (blinky_step ^^ Suc (Suc (Suc (Suc (Suc 0))))) d"
  by (simp_all add: eval_nat_numeral del: funpow.simps)

lemma set_bits_unwatched: "wcount g = 0 \<Longrightarrow> set_bits b (g, k) = (Finished, g\<lparr>bits := bits g OR b\<rparr>, k)"
  by (simp add: set_bits_def check_from.simps)

text \<open>The times of item \<open>i\<close>.\<close>

lemma item_times:
  assumes "i < 10"
  defines "t \<equiv> of_nat (10 * i) :: u32"
  shows "0 < t + 5" "t + 5 < t + 10" "t + 10 \<le> 100" "i < 9 \<Longrightarrow> t + 10 \<noteq> 100"
    "t + 10 = of_nat (10 * (i + 1))" "0 < t + 10"
proof -
  have t: "unat t = 10 * i" using assms by (simp only: t_def unat_of_nat) simp
  have u: "unat (t + 5) = 10 * i + 5" "unat (t + 10) = 10 * i + 10"
    using assms t by (simp_all add: unat_word_ariths)
  show "0 < t + 5" "t + 5 < t + 10" "t + 10 \<le> 100" "0 < t + 10"
    using assms u by (simp_all add: word_less_nat_alt word_le_nat_alt)
  show "i < 9 \<Longrightarrow> t + 10 \<noteq> 100"
  proof
    assume "i < 9" "t + 10 = 100"
    then have "unat (t + 10) = 100" by simp
    with u(2) \<open>i < 9\<close> show False by simp
  qed
  show "t + 10 = of_nat (10 * (i + 1))" by (simp add: t_def)
qed

lemma item_delivered:
  assumes d: "offered i d" and i: "i < 10"
  shows "delivered i ((blinky_step ^^ 5) d)"
proof -
  let ?t = "of_nat (10 * i) :: u32" and ?x = "int i"
  note times = item_times [OF i]
  note d = d [unfolded offered_def running_demo_def]
  have q: "holds [?x] [] (item_queue d)" using d by simp
  let ?g = "(liveness d)\<lparr>bits := bits (liveness d) OR BIT_PRODUCED\<rparr>"
  let ?d1 = "d\<lparr>liveness := ?g, g_produced := ?x + 1, producer := P_print ?x\<rparr>"
  have 1: "blinky_step d = ?d1"
    using d by (simp add: blinky_step_def producer_task_def set_bits_unwatched after_bits_def)
  let ?p = "stamp ?t @ ''PROD item='' @ int_string ?x @ [CHR 0x0A]"
  let ?d2 = "?d1\<lparr>krn := trio BLOCKED 100 BLOCKED (?t + 10) RUNNING ?t 2, out := out d @ ?p, producer := P_loop (?x + 1)\<rparr>"
  have 2: "blinky_step ?d1 = ?d2"
    using d trio_calls(3) [OF times(6)] by (simp add: blinky_step_def producer_task_def)
  obtain p where p: "queue_receive 8 (item_queue d, krn ?d2) = (Some ?x, p, krn ?d2)" "holds [] [] p"
    using receive_item [OF q] by blast
  let ?d3 = "?d2\<lparr>item_queue := p, consumer := C_bits ?x ?x\<rparr>"
  have 3: "blinky_step ?d2 = ?d3"
    using d p i by (simp add: blinky_step_def consumer_task_def TOTAL_ITEMS_def)
  let ?h = "?g\<lparr>bits := bits ?g OR BIT_CONSUMED\<rparr>"
  let ?d4 = "?d3\<lparr>liveness := ?h, g_consumed := ?x + 1, consumer := C_print ?x ?x\<rparr>"
  have 4: "blinky_step ?d3 = ?d4"
    using d by (simp add: blinky_step_def consumer_task_def set_bits_unwatched after_bits_def)
  let ?c = "stamp ?t @ ''CONS item='' @ int_string ?x @ [CHR 0x0A]"
  let ?d5 = "?d4\<lparr>krn := trio BLOCKED 100 BLOCKED (?t + 10) RUNNING (?t + 5) 2, out := (out d @ ?p) @ ?c, consumer := C_loop (?x + 1)\<rparr>"
  have 5: "blinky_step ?d4 = ?d5"
    using trio_sleeps(1) [OF times(1-3)] by (simp add: blinky_step_def consumer_task_def)
  have "(blinky_step ^^ 5) d = ?d5"
    by (simp only: small_steps steps_on [OF 1] steps_on [OF 2] steps_on [OF 3] steps_on [OF 4] steps_on [OF 5]
        funpow_0)
  moreover have "delivered i ?d5"
    using d p(2) by (simp add: delivered_def running_demo_def text_upto_def item_text_def)
  ultimately show ?thesis by simp
qed

lemma next_item:
  assumes d: "delivered i d" and i: "i < 9"
  shows "offered (i + 1) ((blinky_step ^^ 2) d)"
proof -
  let ?t = "of_nat (10 * i) :: u32" and ?x = "int i + 1"
  have i': "i < 10" using i by simp
  note times = item_times [OF i']
  note d = d [unfolded delivered_def]
  have q: "holds [] [] (item_queue d)" using d by simp
  obtain p where p: "queue_receive 8 (item_queue d, krn d) = (None, p, block_current (krn d))" "holds [] [2] p"
    using receive_waits [OF q, of "krn d"] d by auto
  let ?d1 = "d\<lparr>krn := trio BLOCKED 100 RUNNING 0 BLOCKED (?t + 10) 1, item_queue := p\<rparr>"
  have 1: "blinky_step d = ?d1"
    using d p i trio_sleeps(2) [OF times(1-3) times(4) [OF i]]
    by (simp add: blinky_step_def consumer_task_def TOTAL_ITEMS_def)
  obtain q where q: "queue_send 8 ?x (p, krn ?d1) = (True, q, unblock 2 (krn ?d1))" "holds [?x] [] q"
    using send_waking [OF p(2)] by blast
  let ?d2 = "?d1\<lparr>krn := trio BLOCKED 100 RUNNING 0 READY (?t + 10) 1, item_queue := q, producer := P_bits ?x\<rparr>"
  have 2: "blinky_step ?d1 = ?d2"
    using d q i by (simp add: blinky_step_def producer_task_def TOTAL_ITEMS_def trio_calls)
  have "(blinky_step ^^ 2) d = ?d2" by (simp only: small_steps steps_on [OF 1] steps_on [OF 2] funpow_0)
  moreover have "offered (i + 1) ?d2"
    using d q(2) times(5) by (simp add: offered_def running_demo_def add.commute)
  ultimately show ?thesis by simp
qed

lemma all_items: "offered 0 d \<Longrightarrow> i \<le> 9 \<Longrightarrow> offered i ((blinky_step ^^ (7 * i)) d)"
proof (induction i)
  case (Suc i)
  then have "offered (i + 1) ((blinky_step ^^ 2) ((blinky_step ^^ 5) ((blinky_step ^^ (7 * i)) d)))"
    using item_delivered next_item by simp
  moreover have "7 * Suc i = 2 + (5 + 7 * i)" by simp
  ultimately show ?case by (simp only: funpow_add comp_apply Suc_eq_plus1)
qed simp

lemma first_item: "offered 0 ((blinky_step ^^ 2) blinky_start)"
proof -
  let ?d = "blinky_start"
  have k: "krn ?d = trio RUNNING 0 READY 0 READY 0 0" by (simp add: blinky_start_def trio_start)
  let ?d1 = "?d\<lparr>krn := trio BLOCKED 100 RUNNING 0 READY 0 1, watchdog := W_check 0\<rparr>"
  have 1: "blinky_step ?d = ?d1"
    using k by (simp add: blinky_step_def watchdog_task_def blinky_start_def trio_calls blinky_constants)
  have q: "holds [] [] (item_queue ?d)" by (simp add: blinky_start_def new_holds)
  obtain p where p: "queue_send 8 0 (item_queue ?d, krn ?d1) = (True, p, krn ?d1)" "holds [0] [] p"
    using send_quiet [OF q] by blast
  let ?d2 = "?d1\<lparr>item_queue := p, producer := P_bits 0\<rparr>"
  have 2: "blinky_step ?d1 = ?d2"
    using p(1) by (simp add: blinky_step_def producer_task_def blinky_start_def TOTAL_ITEMS_def)
  have "(blinky_step ^^ 2) ?d = ?d2" by (simp only: small_steps steps_on [OF 1] steps_on [OF 2] funpow_0)
  moreover have "offered 0 ?d2"
    using p(2) by (simp add: offered_def running_demo_def blinky_start_def text_upto_def new_group_def)
  ultimately show ?thesis by simp
qed

text \<open>The consumer ends; at tick 100 the watchdog and the producer wake, and end.\<close>

definition healthy :: string where
  "healthy = ''[WATCHDOG] All tasks healthy -- done.'' @ [CHR 0x0A]"

lemma items_end:
  assumes d: "delivered 9 d"
  shows "\<exists>e. (blinky_step ^^ 5) d = e \<and> current (krn e) = INVALID_TASK \<and> tick_count (krn e) = 100 \<and>
    g_produced e = 10 \<and> g_consumed e = 10 \<and> out e = text_upto 10 @ healthy \<and> err e = [] \<and>
    sem_count (done_sem e) = 1"
proof -
  note d = d [unfolded delivered_def running_demo_def]
  let ?d1 = "d\<lparr>krn := trio RUNNING 0 READY 0 DELETED 100 0, consumer := C_end\<rparr>"
  have 1: "blinky_step d = ?d1"
    using d by (simp add: blinky_step_def consumer_task_def TOTAL_ITEMS_def trio_ends)
  let ?g = "clear_bits (BIT_PRODUCED OR BIT_CONSUMED) (liveness d)"
  let ?d2 = "?d1\<lparr>liveness := ?g, watchdog := W_loop\<rparr>"
  have 2: "blinky_step ?d1 = ?d2"
    using d by (simp add: blinky_step_def watchdog_task_def TIMEOUT_def)
  let ?d3 = "?d2\<lparr>krn := trio DELETED 0 RUNNING 0 DELETED 100 1, out := text_upto 10 @ healthy, watchdog := W_end\<rparr>"
  have 3: "blinky_step ?d2 = ?d3"
    using d by (simp add: blinky_step_def watchdog_task_def TOTAL_ITEMS_def trio_ends healthy_def)
  let ?d4 = "?d3\<lparr>done_sem := new_semaphore 1 0x7FFFFFFF, producer := P_done\<rparr>"
  have 4: "blinky_step ?d3 = ?d4"
    using d by (simp add: blinky_step_def producer_task_def TOTAL_ITEMS_def sem_give_def new_semaphore_def)
  let ?d5 = "?d4\<lparr>krn := trio DELETED 0 DELETED 0 DELETED 100 INVALID_TASK, producer := P_end\<rparr>"
  have 5: "blinky_step ?d4 = ?d5"
    using d by (simp add: blinky_step_def producer_task_def trio_ends)
  have "(blinky_step ^^ 5) d = ?d5"
    by (simp only: small_steps steps_on [OF 1] steps_on [OF 2] steps_on [OF 3] steps_on [OF 4] steps_on [OF 5]
        funpow_0)
  then show ?thesis using d by (simp add: new_semaphore_def)
qed

lemma stopped_stays: "current (krn d) = INVALID_TASK \<Longrightarrow> (blinky_step ^^ n) d = d"
  by (induction n) (simp_all add: blinky_step_def INVALID_TASK_def)

lemma whole_demo:
  "\<exists>e. (blinky_step ^^ (75 + n)) blinky_start = e \<and> current (krn e) = INVALID_TASK \<and> tick_count (krn e) = 100 \<and>
    g_produced e = 10 \<and> g_consumed e = 10 \<and> out e = text_upto 10 @ healthy \<and> err e = [] \<and>
    sem_count (done_sem e) = 1"
proof -
  have "offered 9 ((blinky_step ^^ (7 * 9)) ((blinky_step ^^ 2) blinky_start))"
    by (rule all_items [OF first_item]) simp
  from items_end [OF item_delivered [OF this]] obtain e where
    e: "(blinky_step ^^ 5) ((blinky_step ^^ 5) ((blinky_step ^^ (7 * 9)) ((blinky_step ^^ 2) blinky_start))) = e"
      "current (krn e) = INVALID_TASK" "tick_count (krn e) = 100" "g_produced e = 10" "g_consumed e = 10"
      "out e = text_upto 10 @ healthy" "err e = []" "sem_count (done_sem e) = 1"
    by auto
  have "75 + n = n + (5 + (5 + (7 * 9 + 2)))" by simp
  then have "(blinky_step ^^ (75 + n)) blinky_start = e"
    using e(1,2) by (simp only: funpow_add comp_apply stopped_stays)
  with e show ?thesis by blast
qed

section \<open>Properties\<close>

text \<open>C25. The demo stops, with exit code 0 and nothing on the error stream: all ten items go from the
  producer to the consumer, in order and each in the tick in which it is made, ten ticks apart;
  at tick 100 the watchdog finds everybody healthy. 75 steps of the tasks are enough.\<close>

theorem blinky_prints:
  "blinky_main (75 + n) = Some (''=== MCU Simulator RTOS Demo ==='' @ [CHR 0x0A, CHR 0x0A] @
     concat (map (\<lambda>i. stamp (of_nat (10 * i)) @ ''PROD item='' @ int_string (int i) @ [CHR 0x0A] @
       stamp (of_nat (10 * i)) @ ''CONS item='' @ int_string (int i) @ [CHR 0x0A]) [0 ..< 10]) @
     ''[WATCHDOG] All tasks healthy -- done.'' @ [CHR 0x0A] @ [CHR 0x0A] @
     ''=== Results ==='' @ [CHR 0x0A] @ ''  Items produced : 10 / 10'' @ [CHR 0x0A] @
     ''  Items consumed : 10 / 10'' @ [CHR 0x0A] @ ''  Sim time       : 100 ms'' @ [CHR 0x0A], [], 0)"
proof -
  obtain e where e: "(blinky_step ^^ (75 + n)) blinky_start = e" "current (krn e) = INVALID_TASK"
    "tick_count (krn e) = 100" "g_produced e = 10" "g_consumed e = 10" "out e = text_upto 10 @ healthy" "err e = []"
    using whole_demo [of n] by blast
  have t: "int_string 10 = ''10''" "to_string 100 = ''100''"
    by (simp_all add: int_string_def to_string.simps char_of_def bit_0)
  have "blinky_main (75 + n) = Some (text_upto 10 @ healthy @ [CHR 0x0A] @ ''=== Results ==='' @ [CHR 0x0A] @
      ''  Items produced : 10 / 10'' @ [CHR 0x0A] @ ''  Items consumed : 10 / 10'' @ [CHR 0x0A] @
      ''  Sim time       : 100 ms'' @ [CHR 0x0A], [], 0)"
    unfolding blinky_main_def e(1) using e(2-) by (simp add: t TOTAL_ITEMS_def)
  then show ?thesis
    by (simp only: text_upto_def item_text_def [abs_def] healthy_def append_assoc)
qed

text \<open>The watchdog compares the time since its own last look with its limit, not the time since the
  last activity: when it is woken on time, after its 100 ticks, it reports nothing, even if no
  bit has been set.\<close>

theorem watchdog_blind:
  assumes "watchdog d = W_check start" "tick_count (krn d) = start + INTERVAL"
  shows "err (watchdog_task d) = err d \<and> watchdog (watchdog_task d) = W_loop"
  using assms by (simp add: watchdog_task_def INTERVAL_def TIMEOUT_def)

theorem watchdog_blind_witness:
  "err (watchdog_task (blinky_start\<lparr>watchdog := W_check (- 100), liveness := new_group\<rparr>)) = []"
  using watchdog_blind [of "blinky_start\<lparr>watchdog := W_check (- 100), liveness := new_group\<rparr>" "- 100"]
  by (simp add: INTERVAL_def blinky_start_def trio_start)

end
