(* ===== verification/Spec2Isabelle.thy ===== *)
theory Spec2Isabelle
  imports Cpu_Bounds Cpu_Shifts Cpu_Memory Cpu_Stack Cpu_Programs Uart Bus Spi I2c Can Board
    Sched_Time Sched_Priority Wait_Bounds Event_System Runner Simulator Sensor_Pipeline Blinky
begin

text \<open>
  A model of the mcu-simulator, a simulator of a Cortex-M0 microcontroller in C++, and what makes
  it correct. The program has four layers.

  The simulator core (src/src) is a processor that executes Thumb instructions on a memory of 64
  KiB, a loader for firmware in binary and Intel HEX files, a disassembler with a tracer, a runner
  for many simulations in parallel, and the command line program that puts them together. The
  peripherals (src/peripherals) are a UART, an SPI controller with a serial flash, an I2C controller
  with a temperature sensor and CAN controllers on a common bus, behind a peripheral bus that
  decodes addresses. The RTOS (src/rtos) is a kernel for up to 16 tasks with priorities and a
  simulated time, and the objects with which tasks wait for each other: mutex, counting semaphore,
  blocking queue and event group. Two demo programs (src/demo) run tasks on the kernel; one of them
  uses all peripherals but the flash. The processor and the peripheral bus are not connected.

  How the code is modelled. A class is a \<open>record\<close> of its data members, an integer a \<open>word\<close> of its
  width. A function that may throw is an action: it gives the exception or the result and the
  state reached (Prelude). Loops are recursive functions that are proved to end. A FIFO in a
  circular array is a \<open>ring\<close>. A call that blocks a task gives the state in which the processor is
  handed over; the task goes on when the kernel makes it \<open>current\<close>. Programs of several tasks are
  transition systems whose states hold the program counters of the tasks. What is printed is a
  string. Each definition carries the name of the function or type it is translated from.

  The theories.

  \<^item> Prelude, Messages: integers, exceptions, actions, bytes; formatted numbers and the texts of the
    exceptions.
  \<^item> Memory (src/src/memory.h, memory.cpp): the address decoder, the accesses and \<open>load\<close>; the locale
    \<open>memory_bus\<close> holds the laws of 32-bit storage, with the block transfers proved in it.
  \<^item> Cpu (src/src/cpu.h, cpu.cpp): the registers and flags, one definition for each \<open>exec_\<close> function,
    \<open>execute\<close>, \<open>step\<close>, \<open>run\<close>. On it rest Cpu_Flags (additions and comparisons against the \<open>AddWithCarry\<close>
    of the architecture manual, condition codes), Cpu_Exec (undefined halfwords, exceptions), Cpu_Shifts
    (shifts are multiplications, divisions and rotations), Cpu_Memory (loads and stores against a table
    of transfers of little-endian bytes), Cpu_Branch (targets, calls), Cpu_Stack (PUSH,
    POP, LDM, STM), Cpu_Run (what \<open>run\<close> counts; the locale \<open>frame\<close> of what no instruction touches),
    Cpu_Maps (the locale \<open>machine_map\<close> of changes that no instruction notices), Cpu_Bounds (no access
    outside the arrays) and Cpu_Programs (the program of src/programs/factorial.bin).
  \<^item> Loader and Ihex (src/src/loader.h, loader.cpp): both file formats; a writer of the HEX format as the
    specification, the round trip and the rejection of corrupted digits.
  \<^item> Trace (src/src/trace.h): the text for every halfword, the lines of an attached tracer.
  \<^item> Runner (src/src/parallel_sim.h): one simulation, the trace collector, and threads whose steps
    interleave. Simulator (src/src/main.cpp): arguments, one simulation, what is printed.
  \<^item> Fifo: bounded queues; the locale \<open>fifo\<close> is their contract, \<open>ring_field\<close> that of a ring in a record,
    interpreted for the rings of the UART and of CAN and for the ring itself.
  \<^item> Uart, Flash and Spi, I2c, Can (src/peripherals): the registers of each controller and the devices
    behind them; specifications as queues, transactions and inboxes.
  \<^item> Bus (src/peripherals/peripheral.h): attachments and decoding; the locale \<open>peripherals\<close> is what the
    bus asks of the devices. Board: the devices of the sensor demo on their bus, its interpretation.
  \<^item> Scheduler (src/rtos/scheduler.h, scheduler.cpp): one definition for each call of the kernel, the
    transition system of all calls and the invariant \<open>sched_ok\<close>. Sched_Time: selection, round robin,
    termination of the loop that advances the time, sleeping tasks. Sched_Priority: the best priority runs.
  \<^item> Waiters: the locale \<open>parking\<close>, the contract between the kernel and the objects, and the choice of
    the waiter to wake. Kernel: its interpretation on the scheduler.
  \<^item> Mutex, Semaphore, Queue, Event_Group with Event_System (src/rtos): the operations, the tasks that
    use an object as a transition system, and its invariant by induction over the reachable states.
    Wait_Bounds: there is always room in their arrays of waiters.
  \<^item> Sensor_Demo, Sensor_Steps, Sensor_Pipeline (src/demo/sensor_demo.cpp): the program, what the bodies of
    its tasks do, and its whole run. Blinky (src/demo/blinky.cpp): the same for the second demo.

  What the theorems show. The processor computes what the architecture defines: results and flags
  of arithmetic and shifts, conditions, calls and stack frames, for all operands; undefined
  halfwords are known exactly; it stays inside its arrays, and a traced run is the same run. A HEX
  file that a writer produced is loaded as written and run from its entry point. Parallel
  simulations give the results of sequential ones however their threads interleave. Each peripheral
  implements its specification for every sequence of accesses. The kernel runs one task, of the
  best priority, wakes sleepers neither early nor late, lets equal priorities take turns and never
  loops without end; over it the mutex excludes, the semaphore keeps its permits, the queue keeps
  order and loses no wake-up, and the event group wakes whoever waits for its bits. The two demos, run as whole programs on these models, stop and print
  what is stated. Where the code and its intention or documentation differ, the theorems say what
  the code does.

  Bounds and fuel. \<open>run\<close> takes the number of steps as the code does. The loop of \<open>schedule_from\<close> ends
  since every iteration wakes a sleeping task. The demos take a number of steps as an argument: the
  theorems about them are for 102 and 75 steps and more, after which no task is current and no
  step changes anything.

  Not modelled.

  \<^item> The machine contexts and stacks of the tasks (\<open>ucontext\<close>): a task is its program counter.
  \<^item> The names of tasks and peripherals, and the wall-clock time of a simulation.
  \<^item> The memory order of the atomic counter and the locks of the runner, beyond the atomicity of
    the calls they protect.
  \<^item> Accesses outside an array (the event group after its counter has wrapped) end the model of the
    call, as C++ leaves them open; the characters behind the terminator of a string that a short HEX
    line makes the loader read are an argument.
  \<^item> The constructors and accessors that only copy a member, the deleted copy operations, and the
    tests in src/tests, which state expectations of the code modelled here.
\<close>

end
